(* ===== verification/Prelude.thy ===== *)
theory Prelude
  imports Main "HOL-Library.Word"
begin

text \<open>
  Shared foundations of the development: machine integers and byte order, Rust byte
  strings and their UTF-8 invariant, the error type of \<^verbatim>\<open>blackwire-common\<close>, results that
  may be an error or a panic, checked indexing and slicing, and a reader over a byte
  stream (\<^verbatim>\<open>AsyncReadExt\<close>). Nothing here models one component; every other theory
  imports this one, directly or through another.
\<close>

unbundle bit_operations_syntax

named_theorems wire_simps \<open>evaluation of readers, writers and checked accesses\<close>
named_theorems model_defs \<open>definitions of the operations of the model\<close>

section \<open>Machine integers and byte order\<close>

type_synonym u8 = "8 word"
type_synonym u16 = "16 word"
type_synonym u32 = "32 word"
type_synonym u64 = "64 word"
type_synonym bytes = "u8 list"

text \<open>A Rust \<^verbatim>\<open>str\<close> is its UTF-8 bytes.\<close>
type_synonym rstr = "u8 list"

text \<open>\<^verbatim>\<open>to_be_bytes\<close> / \<^verbatim>\<open>put_u16\<close> / \<^verbatim>\<open>octets\<close> for an integer of \<open>n\<close> bytes, and \<^verbatim>\<open>from_be_bytes\<close>.\<close>

primrec to_be :: "nat \<Rightarrow> 'a::len word \<Rightarrow> bytes" where
  "to_be 0 w = []"
| "to_be (Suc n) w = ucast (drop_bit (8 * n) w) # to_be n w"

definition from_be :: "bytes \<Rightarrow> 'a::len word" where
  "from_be bs = foldl (\<lambda>acc b. push_bit 8 acc OR ucast b) 0 bs"

definition to_le :: "nat \<Rightarrow> 'a::len word \<Rightarrow> bytes" where
  "to_le n w = rev (to_be n w)"

definition from_le :: "bytes \<Rightarrow> 'a::len word" where
  "from_le bs = from_be (rev bs)"

text \<open>An ASCII literal as Rust bytes.\<close>

definition ascii :: "string \<Rightarrow> rstr" where
  "ascii s = map of_char s"

lemma ascii_Nil [simp]: "ascii [] = []"
  by (simp add: ascii_def)

lemma ascii_Cons [simp]: "ascii (c # cs) = of_char c # ascii cs"
  by (simp add: ascii_def)

lemma length_ascii [simp]: "length (ascii s) = length s"
  by (simp add: ascii_def)

lemma to_be_numeral [simp]:
  "to_be (numeral k) w = ucast (drop_bit (8 * pred_numeral k) w) # to_be (pred_numeral k) w"
  by (simp add: numeral_eq_Suc)

lemma length_to_be [simp]: "length (to_be n w) = n"
  by (induction n) simp_all

lemma length_to_le [simp]: "length (to_le n w) = n"
  by (simp add: to_le_def)

lemma to_be_eq_Nil [simp]: "to_be n w = [] \<longleftrightarrow> n = 0"
  by (metis length_0_conv length_to_be)

declare to_be.simps [simp del] to_be_numeral [simp del]

lemmas to_be_eval = to_be.simps to_be_numeral

lemma from_be_Nil: "from_be [] = 0"
  by (simp add: from_be_def)

lemma from_be_snoc: "from_be (bs @ [b]) = push_bit 8 (from_be bs) OR ucast b"
  by (simp add: from_be_def)

text \<open>The bit that a big-endian byte string holds at a position.\<close>

lemma bit_to_be_nth:
  assumes "i < n"
  shows "to_be n w ! i = ucast (drop_bit (8 * (n - 1 - i)) w)"
  using assms
proof (induction n arbitrary: i)
  case 0
  then show ?case by simp
next
  case (Suc n)
  then show ?case by (cases i) (simp_all add: to_be.simps)
qed

lemma bit_from_be:
  fixes bs :: bytes
  shows "bit (from_be bs :: 'a::len word) k \<longleftrightarrow>
    k < LENGTH('a) \<and> k < 8 * length bs \<and> bit (bs ! (length bs - 1 - k div 8)) (k mod 8)"
proof (induction bs arbitrary: k rule: rev_induct)
  case Nil
  then show ?case by (simp add: from_be_Nil)
next
  case (snoc b bs)
  show ?case
  proof (cases "k < 8")
    case True
    then show ?thesis
      by (auto simp: from_be_snoc bit_or_iff bit_push_bit_iff bit_unsigned_iff nth_append
          dest: bit_imp_le_length)
  next
    case False
    then obtain j where j: "k = j + 8" by (metis add.commute le_Suc_ex not_less)
    have "k < 8 * length (bs @ [b]) \<longleftrightarrow> j < 8 * length bs" using j by simp
    moreover have "j < 8 * length bs \<Longrightarrow> length bs - 1 - j div 8 < length bs" by (cases bs) auto
    moreover have "(j + 8) div 8 = Suc (j div 8)" by simp
    ultimately show ?thesis using j
      by (auto simp: from_be_snoc bit_or_iff bit_push_bit_iff bit_unsigned_iff nth_append snoc.IH
          dest: bit_imp_le_length)
  qed
qed

lemma from_be_to_be:
  fixes w :: "'a::len word"
  assumes "LENGTH('a) = 8 * n"
  shows "from_be (to_be n w) = w"
proof (rule bit_word_eqI)
  fix k assume k: "k < LENGTH('a)"
  then have "k div 8 < n" using assms by (simp add: less_mult_imp_div_less mult.commute)
  then have "n - 1 - (n - 1 - k div 8) = k div 8" "n - 1 - k div 8 < n" by auto
  then show "bit (from_be (to_be n w) :: 'a word) k = bit w k"
    using k assms by (simp add: bit_from_be bit_to_be_nth bit_unsigned_iff bit_drop_bit_eq)
qed

lemma to_be_from_be:
  assumes "length bs = n" and "LENGTH('a::len) = 8 * n"
  shows "to_be n (from_be bs :: 'a word) = bs"
proof (rule nth_equalityI)
  show "length (to_be n (from_be bs :: 'a word)) = length bs" by (simp add: assms)
next
  fix i assume "i < length (to_be n (from_be bs :: 'a word))"
  then have i: "i < n" by simp
  show "to_be n (from_be bs :: 'a word) ! i = bs ! i"
  proof (rule bit_word_eqI)
    fix k assume k: "k < LENGTH(8)"
    then have d: "(8 * (n - 1 - i) + k) div 8 = n - 1 - i" "(8 * (n - 1 - i) + k) mod 8 = k" by auto
    have l: "8 * (n - 1 - i) + k < 8 * n" using k i by simp
    have e: "n - 1 - (n - 1 - i) = i" using i by simp
    show "bit (to_be n (from_be bs :: 'a word) ! i) k = bit (bs ! i) k"
      using k i l assms d e
      by (simp add: bit_to_be_nth bit_unsigned_iff bit_drop_bit_eq bit_from_be)
  qed
qed

lemma from_be_to_be16 [simp]: "from_be (to_be 2 (w :: u16)) = w"
  and from_be_to_be32 [simp]: "from_be (to_be 4 (v :: u32)) = v"
  and from_be_to_be64 [simp]: "from_be (to_be 8 (x :: u64)) = x"
  and from_be_to_be128 [simp]: "from_be (to_be 16 (y :: 128 word)) = y"
  by (rule from_be_to_be; simp)+

lemma from_le_to_le16 [simp]: "from_le (to_le 2 (w :: u16)) = w"
  and from_le_to_le32 [simp]: "from_le (to_le 4 (v :: u32)) = v"
  by (simp_all add: from_le_def to_le_def)

lemma from_be_1 [simp]: "unat (from_be [b] :: 'a::len word) = unat b mod 2 ^ LENGTH('a)"
  by (simp add: from_be_def unsigned_ucast_eq take_bit_eq_mod)

text \<open>Lengths written into a two-byte field read back as the number.\<close>

lemma unat_of_nat_u16 [simp]: "n < 65536 \<Longrightarrow> unat (of_nat n :: u16) = n"
  by (simp add: unat_of_nat)

lemma unat_of_nat_u8 [simp]: "n < 256 \<Longrightarrow> unat (of_nat n :: u8) = n"
  by (simp add: unat_of_nat)

lemma unat_of_nat_u32 [simp]: "n < 4294967296 \<Longrightarrow> unat (of_nat n :: u32) = n"
  by (simp add: unat_of_nat)

lemma unat_u16_bound [simp]: "unat (w :: u16) < 65536"
  using unsigned_less [of w] by simp

lemma unat_u16_le [simp]: "unat (w :: u16) \<le> 65535"
  using unat_u16_bound [of w] by linarith

lemma unat_u8_bound [simp]: "unat (w :: u8) < 256"
  using unsigned_less [of w] by simp

lemma unat_u8_le [simp]: "unat (w :: u8) \<le> 255"
  using unat_u8_bound [of w] by linarith

lemma unat_u32_bound [simp]: "unat (w :: u32) < 4294967296"
  using unsigned_less [of w] by simp

section \<open>Rust strings: the UTF-8 invariant\<close>

text \<open>
  \<^verbatim>\<open>std::str::from_utf8\<close> accepts exactly the well-formed sequences of the Unicode
  standard: one to four bytes, no overlong form, no surrogate, nothing above U+10FFFF.
\<close>

definition utf8_cont :: "u8 \<Rightarrow> bool" where
  "utf8_cont b \<longleftrightarrow> 0x80 \<le> b \<and> b \<le> 0xBF"

definition utf8_second3 :: "u8 \<Rightarrow> u8 \<Rightarrow> bool" where
  "utf8_second3 a b \<longleftrightarrow>
     (if a = 0xE0 then 0xA0 \<le> b \<and> b \<le> 0xBF
      else if a = 0xED then 0x80 \<le> b \<and> b \<le> 0x9F
      else utf8_cont b)"

definition utf8_second4 :: "u8 \<Rightarrow> u8 \<Rightarrow> bool" where
  "utf8_second4 a b \<longleftrightarrow>
     (if a = 0xF0 then 0x90 \<le> b \<and> b \<le> 0xBF
      else if a = 0xF4 then 0x80 \<le> b \<and> b \<le> 0x8F
      else utf8_cont b)"

fun utf8_valid :: "bytes \<Rightarrow> bool" where
  "utf8_valid [] = True"
| "utf8_valid (a # r) =
     (if a < 0x80 then utf8_valid r
      else if 0xC2 \<le> a \<and> a \<le> 0xDF then
        (case r of b # r' \<Rightarrow> utf8_cont b \<and> utf8_valid r' | _ \<Rightarrow> False)
      else if 0xE0 \<le> a \<and> a \<le> 0xEF then
        (case r of b # c # r' \<Rightarrow> utf8_second3 a b \<and> utf8_cont c \<and> utf8_valid r' | _ \<Rightarrow> False)
      else if 0xF0 \<le> a \<and> a \<le> 0xF4 then
        (case r of b # c # d # r' \<Rightarrow>
            utf8_second4 a b \<and> utf8_cont c \<and> utf8_cont d \<and> utf8_valid r' | _ \<Rightarrow> False)
      else False)"

lemma utf8_valid_ascii: "list_all (\<lambda>b. b < 0x80) bs \<Longrightarrow> utf8_valid bs"
  by (induction bs) simp_all

section \<open>Errors, panics and results\<close>

text \<open>
  \<^verbatim>\<open>ProxyError\<close> (\<^verbatim>\<open>crates/blackwire-common/src/error.rs\<close>). A message keeps the literal
  text of its format string; interpolated values are left out. \<^verbatim>\<open>io::ErrorKind\<close> keeps the
  kinds the sources name.
\<close>

datatype io_kind =
    ConnectionReset | ConnectionAborted | BrokenPipe | UnexpectedEof
  | InvalidInput | InvalidData | WriteZero | OtherKind

datatype proxy_error =
    AuthFailed
  | Protocol string
  | Transport string
  | Tls string
  | Timeout
  | UnsupportedNetwork
  | DnsResolutionFailed rstr
  | RoutingFailed
  | FallbackRequired
  | Io io_kind

definition is_benign :: "proxy_error \<Rightarrow> bool" where
  "is_benign e = (case e of
      Timeout \<Rightarrow> True
    | FallbackRequired \<Rightarrow> True
    | Io k \<Rightarrow> k = ConnectionReset \<or> k = ConnectionAborted \<or> k = BrokenPipe \<or> k = UnexpectedEof
    | _ \<Rightarrow> False)"

text \<open>A call returns a value, returns an error, or panics (index out of range, \<^verbatim>\<open>unwrap\<close>).\<close>

datatype failure = Err proxy_error | Panic

type_synonym 'a result = "failure + 'a"

definition bindE :: "('e + 'a) \<Rightarrow> ('a \<Rightarrow> 'e + 'b) \<Rightarrow> 'e + 'b" where
  "bindE m f = (case m of Inl e \<Rightarrow> Inl e | Inr a \<Rightarrow> f a)"

lemma bindE_simps [simp]:
  "bindE (Inl e) f = Inl e"
  "bindE (Inr a) f = f a"
  by (simp_all add: bindE_def)

lemma bindE_eq_Inr: "bindE m f = Inr b \<longleftrightarrow> (\<exists>a. m = Inr a \<and> f a = Inr b)"
  by (cases m) auto

lemma bindE_eq_Inl: "bindE m f = Inl e \<longleftrightarrow> m = Inl e \<or> (\<exists>a. m = Inr a \<and> f a = Inl e)"
  by (cases m) auto

lemma bindE_cong [fundef_cong]:
  assumes "m = m'" and "\<And>a. m' = Inr a \<Longrightarrow> f a = g a"
  shows "bindE m f = bindE m' g"
  using assms by (cases m') auto

text \<open>\<^verbatim>\<open>data[i]\<close> and \<^verbatim>\<open>data[a..b]\<close>: out of range is a panic.\<close>

definition idx :: "'a list \<Rightarrow> nat \<Rightarrow> 'a result" where
  "idx xs i = (if i < length xs then Inr (xs ! i) else Inl Panic)"

definition rslice :: "'a list \<Rightarrow> nat \<Rightarrow> nat \<Rightarrow> 'a list result" where
  "rslice xs a b = (if a \<le> b \<and> b \<le> length xs then Inr (take (b - a) (drop a xs)) else Inl Panic)"

lemma idx_in [simp]: "i < length xs \<Longrightarrow> idx xs i = Inr (xs ! i)"
  by (simp add: idx_def)

lemma split_2_4: "4 \<le> length xs \<Longrightarrow> xs = take 2 xs @ [xs ! 2, xs ! 3] @ drop 4 xs"
  by (simp add: numeral_eq_Suc Cons_nth_drop_Suc)

lemma idx_append: "i < length xs \<Longrightarrow> idx (xs @ ys) i = idx xs i"
  by (simp add: idx_def nth_append)

lemma rslice_append: "j \<le> length xs \<Longrightarrow> rslice (xs @ ys) i j = rslice xs i j"
  by (simp add: rslice_def)

lemma rslice_in [simp]:
  "a \<le> b \<Longrightarrow> b \<le> length xs \<Longrightarrow> rslice xs a b = Inr (take (b - a) (drop a xs))"
  by (simp add: rslice_def)

section \<open>Reading from a byte stream\<close>

text \<open>
  A reader runs on the bytes the peer will send before it closes the stream. Reading
  past them is the \<^verbatim>\<open>UnexpectedEof\<close> error of \<^verbatim>\<open>read_exact\<close>.
\<close>

type_synonym 'a reader = "bytes \<Rightarrow> ('a \<times> bytes) result"

definition rret :: "'a \<Rightarrow> 'a reader" where
  "rret a bs = Inr (a, bs)"

definition rfail :: "proxy_error \<Rightarrow> 'a reader" where
  "rfail e bs = Inl (Err e)"

definition rbind :: "'a reader \<Rightarrow> ('a \<Rightarrow> 'b reader) \<Rightarrow> 'b reader" where
  "rbind m f bs = bindE (m bs) (\<lambda>(a, rest). f a rest)"

definition rlift :: "'a result \<Rightarrow> 'a reader" where
  "rlift r bs = bindE r (\<lambda>a. Inr (a, bs))"

definition read_exact :: "nat \<Rightarrow> bytes reader" where
  "read_exact n bs =
     (if length bs < n then Inl (Err (Io UnexpectedEof)) else Inr (take n bs, drop n bs))"

definition read_u8 :: "u8 reader" where
  "read_u8 bs = (case bs of [] \<Rightarrow> Inl (Err (Io UnexpectedEof)) | b # rest \<Rightarrow> Inr (b, rest))"

definition read_u16 :: "u16 reader" where
  "read_u16 = rbind (read_exact 2) (\<lambda>b. rret (from_be b))"

lemma rret_run [wire_simps]: "rret a bs = Inr (a, bs)"
  by (simp add: rret_def)

lemma rfail_run [wire_simps]: "rfail e bs = Inl (Err e)"
  by (simp add: rfail_def)

lemma rbind_run [wire_simps]: "rbind m f bs = bindE (m bs) (\<lambda>(a, rest). f a rest)"
  by (simp add: rbind_def)

lemma rlift_run [wire_simps]: "rlift r bs = bindE r (\<lambda>a. Inr (a, bs))"
  by (simp add: rlift_def)

lemma read_u8_Cons [wire_simps]: "read_u8 (b # bs) = Inr (b, bs)"
  by (simp add: read_u8_def)

lemma read_u8_Nil [wire_simps]: "read_u8 [] = Inl (Err (Io UnexpectedEof))"
  by (simp add: read_u8_def)

lemma read_exact_append [wire_simps]: "length xs = n \<Longrightarrow> read_exact n (xs @ ys) = Inr (xs, ys)"
  by (simp add: read_exact_def)

lemma read_exact_0 [wire_simps]: "read_exact 0 ys = Inr ([], ys)"
  by (simp add: read_exact_def)

lemma read_exact_all [wire_simps]: "length xs = n \<Longrightarrow> read_exact n xs = Inr (xs, [])"
  by (simp add: read_exact_def)

lemma read_u16_to_be [wire_simps]: "read_u16 (to_be 2 w @ ys) = Inr (w, ys)"
  by (simp add: read_u16_def wire_simps)

text \<open>What a successful read says about the input.\<close>

lemma rbind_eq_Inr:
  "rbind m f bs = Inr (b, rest) \<longleftrightarrow> (\<exists>a mid. m bs = Inr (a, mid) \<and> f a mid = Inr (b, rest))"
  by (auto simp: rbind_def bindE_eq_Inr)

lemma rret_eq_Inr: "rret a bs = Inr (b, rest) \<longleftrightarrow> b = a \<and> rest = bs"
  by (auto simp: rret_def)

lemma rfail_eq_Inr: "rfail e bs = Inr x \<longleftrightarrow> False"
  by (simp add: rfail_def)

lemma rlift_eq_Inr: "rlift r bs = Inr (b, rest) \<longleftrightarrow> r = Inr b \<and> rest = bs"
  by (auto simp: rlift_def bindE_eq_Inr)

lemma read_u8_eq_Inr: "read_u8 bs = Inr (b, rest) \<longleftrightarrow> bs = b # rest"
  by (auto simp: read_u8_def split: list.splits)

lemma read_exact_eq_Inr: "read_exact n bs = Inr (x, rest) \<longleftrightarrow> bs = x @ rest \<and> length x = n"
  by (auto simp: read_exact_def)

lemma rif_eq_Inr: "(if c then m else n) bs = Inr x \<longleftrightarrow> (if c then m bs = Inr x else n bs = Inr x)"
  by simp

lemma read_u16_eq_Inr: "read_u16 bs = Inr (v, rest) \<longleftrightarrow> bs = to_be 2 v @ rest"
proof
  assume "read_u16 bs = Inr (v, rest)"
  then obtain x where "bs = x @ rest" "length x = 2" "v = from_be x"
    by (auto simp: read_u16_def rbind_eq_Inr read_exact_eq_Inr rret_eq_Inr)
  then show "bs = to_be 2 v @ rest" by (simp add: to_be_from_be)
qed (simp add: wire_simps)

lemmas reader_eq = read_u16_eq_Inr rbind_eq_Inr rret_eq_Inr rfail_eq_Inr rlift_eq_Inr read_u8_eq_Inr
  read_exact_eq_Inr rif_eq_Inr

text \<open>
  A well-behaved reader never panics, removes a prefix of its input, and does not look at
  the bytes after that prefix: more input leaves the result as it is.
\<close>

definition wf_reader :: "'a reader \<Rightarrow> bool" where
  "wf_reader m \<longleftrightarrow> (\<forall>bs. m bs \<noteq> Inl Panic \<and>
     (\<forall>a rest. m bs = Inr (a, rest) \<longrightarrow>
        (\<exists>used. bs = used @ rest) \<and> (\<forall>more. m (bs @ more) = Inr (a, rest @ more))))"

lemma wf_readerI:
  assumes "\<And>bs. m bs \<noteq> Inl Panic"
    and "\<And>bs a rest. m bs = Inr (a, rest) \<Longrightarrow> \<exists>used. bs = used @ rest"
    and "\<And>bs a rest more. m bs = Inr (a, rest) \<Longrightarrow> m (bs @ more) = Inr (a, rest @ more)"
  shows "wf_reader m"
  using assms by (auto simp: wf_reader_def)

lemma wf_reader_no_panic: "wf_reader m \<Longrightarrow> m bs \<noteq> Inl Panic"
  by (auto simp: wf_reader_def)

lemma wf_reader_suffix: "wf_reader m \<Longrightarrow> m bs = Inr (a, rest) \<Longrightarrow> \<exists>used. bs = used @ rest"
  by (auto simp: wf_reader_def)

lemma wf_reader_extend:
  "wf_reader m \<Longrightarrow> m bs = Inr (a, rest) \<Longrightarrow> m (bs @ more) = Inr (a, rest @ more)"
  by (auto simp: wf_reader_def)

lemma wf_rret [intro!]: "wf_reader (rret a)"
  by (rule wf_readerI) (auto simp: rret_def)

lemma wf_rfail [intro!]: "wf_reader (rfail e)"
  by (rule wf_readerI) (auto simp: rfail_def)

lemma wf_read_exact [intro!]: "wf_reader (read_exact n)"
proof (rule wf_readerI)
  fix bs a rest assume "read_exact n bs = Inr (a, rest)"
  then have "bs = a @ rest" by (auto simp: read_exact_def split: if_splits)
  then show "\<exists>used. bs = used @ rest" by blast
qed (auto simp: read_exact_def split: if_splits)

lemma wf_read_u8 [intro!]: "wf_reader read_u8"
  by (rule wf_readerI) (auto simp: read_u8_def split: list.splits)

lemma wf_rbind [intro!]:
  assumes "wf_reader m" and "\<And>a. wf_reader (f a)"
  shows "wf_reader (rbind m f)"
proof (rule wf_readerI)
  fix bs
  show "rbind m f bs \<noteq> Inl Panic"
    using assms by (auto simp: rbind_def bindE_eq_Inl dest: wf_reader_no_panic)
next
  fix bs a rest assume "rbind m f bs = Inr (a, rest)"
  then obtain b mid where "m bs = Inr (b, mid)" "f b mid = Inr (a, rest)"
    by (auto simp: rbind_def bindE_eq_Inr)
  then obtain u v where "bs = u @ mid" "mid = v @ rest"
    using assms by (meson wf_reader_suffix)
  then have "bs = (u @ v) @ rest" by simp
  then show "\<exists>used. bs = used @ rest" by blast
next
  fix bs a rest more assume "rbind m f bs = Inr (a, rest)"
  then obtain b mid where "m bs = Inr (b, mid)" "f b mid = Inr (a, rest)"
    by (auto simp: rbind_def bindE_eq_Inr)
  then show "rbind m f (bs @ more) = Inr (a, rest @ more)"
    using assms by (simp add: rbind_def wf_reader_extend)
qed

lemma wf_read_u16 [intro!]: "wf_reader read_u16"
  unfolding read_u16_def by blast

lemma wf_rlift [intro]: "r \<noteq> Inl Panic \<Longrightarrow> wf_reader (rlift r)"
  by (rule wf_readerI) (auto simp: rlift_def bindE_def split: sum.splits)

lemma wf_reader_if [intro!]:
  "(c \<Longrightarrow> wf_reader m) \<Longrightarrow> (\<not> c \<Longrightarrow> wf_reader n) \<Longrightarrow> wf_reader (if c then m else n)"
  by simp

end
