(* ===== verification/Framing.thy ===== *)
theory Framing
  imports Prelude
begin

text \<open>
  The interface of a self-delimiting format: messages are written one after the other on a stream and
  the decoder finds where each ends. Address sections and datagram formats of the protocols provide it;
  receivers that reassemble messages from arbitrary chunks rely on it.
\<close>

locale framing =
  fixes ok :: "'d \<Rightarrow> bool"
    and enc :: "'d \<Rightarrow> bytes result"
    and dec :: "bytes \<Rightarrow> ('d \<times> nat) result"
  assumes enc_total: "ok d \<Longrightarrow> \<exists>w. enc d = Inr w"
    and dec_enc: "ok d \<Longrightarrow> enc d = Inr w \<Longrightarrow> dec (w @ rest) = Inr (d, length w)"
    and dec_bound: "dec bs = Inr (d, n) \<Longrightarrow> n \<le> length bs"
    and dec_extend: "dec bs = Inr (d, n) \<Longrightarrow> dec (bs @ more) = Inr (d, n)"
begin

lemma enc_inj:
  assumes "ok a" and "ok b" and "enc a = enc b"
  shows "a = b"
proof -
  obtain w where w: "enc a = Inr w" using assms(1) enc_total by blast
  have "dec (w @ []) = Inr (a, length w)" using assms(1) w by (rule dec_enc)
  moreover have "dec (w @ []) = Inr (b, length w)" using assms(2,3) w by (metis dec_enc)
  ultimately show ?thesis by simp
qed

text \<open>No encoding is a proper prefix of another, so a receiver never needs a terminator.\<close>

lemma enc_prefix_free:
  assumes "ok a" and "ok b" and "enc a = Inr w" and "enc b = Inr (w @ x)"
  shows "a = b \<and> x = []"
proof -
  have "dec ((w @ x) @ []) = Inr (b, length (w @ x))" using assms(2,4) by (rule dec_enc)
  moreover have "dec (w @ x) = Inr (a, length w)" using assms(1,3) by (rule dec_enc)
  ultimately show ?thesis by simp
qed

text \<open>A message of which the end is still missing is not mistaken for a complete one.\<close>

lemma dec_strict_prefix:
  assumes "ok d" and "enc d = Inr (p @ q)" and "q \<noteq> []"
  shows "\<exists>f. dec p = Inl f"
proof (cases "dec p")
  case (Inr x)
  then obtain d' n where x: "dec p = Inr (d', n)" by (cases x) auto
  have "dec (p @ q) = Inr (d, length (p @ q))" using dec_enc [OF assms(1,2), of "[]"] by simp
  with dec_extend [OF x, of q] have "n = length (p @ q)" by simp
  moreover have "n \<le> length p" using x by (rule dec_bound)
  ultimately show ?thesis using assms(3) by simp
qed simp

end

end
