(* ===== verification/Address.thy ===== *)
theory Address
  imports Framing
begin

text \<open>
  Destination addresses (\<^verbatim>\<open>crates/blackwire-common/src/address.rs\<close>) and the SOCKS5-style
  wire form ATYP + address + port that SOCKS5, Trojan and Shadowsocks-2022 share
  (\<^verbatim>\<open>socks5_address.rs\<close>). The locale \<open>address_codec\<close> is the interface the datagram
  formats rely on: a self-delimiting encoding of addresses. It is interpreted here for the
  SOCKS5 form and in \<^verbatim>\<open>Vless\<close> for the port-first form.
\<close>

section \<open>Addresses\<close>

datatype ip_addr = V4 u32 | V6 "128 word"

datatype socket_addr = SocketAddr (sock_ip: ip_addr) (sock_port: u16)

datatype address = Ipv4 u32 u16 | Ipv6 "128 word" u16 | Domain rstr u16

datatype network = Tcp | Udp

fun port :: "address \<Rightarrow> u16" where
  "port (Ipv4 _ p) = p"
| "port (Ipv6 _ p) = p"
| "port (Domain _ p) = p"

fun is_domain :: "address \<Rightarrow> bool" where
  "is_domain (Domain _ _) = True"
| "is_domain _ = False"

fun domain :: "address \<Rightarrow> rstr option" where
  "domain (Domain d _) = Some d"
| "domain _ = None"

fun ip :: "address \<Rightarrow> ip_addr option" where
  "ip (Ipv4 a _) = Some (V4 a)"
| "ip (Ipv6 a _) = Some (V6 a)"
| "ip (Domain _ _) = None"

fun to_socket_addr :: "address \<Rightarrow> socket_addr option" where
  "to_socket_addr (Ipv4 a p) = Some (SocketAddr (V4 a) p)"
| "to_socket_addr (Ipv6 a p) = Some (SocketAddr (V6 a) p)"
| "to_socket_addr (Domain _ _) = None"

definition from_socket_addr :: "socket_addr \<Rightarrow> address" where
  "from_socket_addr s = (case sock_ip s of V4 a \<Rightarrow> Ipv4 a (sock_port s) | V6 a \<Rightarrow> Ipv6 a (sock_port s))"

lemma to_from_socket_addr [simp]: "to_socket_addr (from_socket_addr s) = Some s"
  by (cases s) (simp add: from_socket_addr_def split: ip_addr.splits)

lemma from_to_socket_addr: "to_socket_addr a = Some s \<Longrightarrow> from_socket_addr s = a"
  by (cases a) (auto simp: from_socket_addr_def)

text \<open>The invariant that Rust's \<^verbatim>\<open>String\<close> gives a domain.\<close>

definition address_wf :: "address \<Rightarrow> bool" where
  "address_wf a = (case a of Domain d _ \<Rightarrow> utf8_valid d | _ \<Rightarrow> True)"

text \<open>Reject names longer than a one-byte length field can say.\<close>

definition domain_wire_len :: "rstr \<Rightarrow> u8 result" where
  "domain_wire_len name =
     (if length name > 255 then Inl (Err (Protocol ''domain too long''))
      else Inr (of_nat (length name)))"

lemma domain_wire_len_ok [simp]:
  "length name \<le> 255 \<Longrightarrow> domain_wire_len name = Inr (of_nat (length name))"
  by (simp add: domain_wire_len_def)

lemma domain_wire_len_eq_Inr:
  "domain_wire_len name = Inr l \<longleftrightarrow> length name \<le> 255 \<and> l = of_nat (length name)"
  by (auto simp: domain_wire_len_def)

text \<open>Addresses that the one-byte length field can carry.\<close>

definition wire_ok :: "address \<Rightarrow> bool" where
  "wire_ok a = (case a of Domain d _ \<Rightarrow> utf8_valid d \<and> length d \<le> 255 | _ \<Rightarrow> True)"

lemma wire_ok_simps [simp]:
  "wire_ok (Ipv4 a p)"
  "wire_ok (Ipv6 b p)"
  "wire_ok (Domain d p) \<longleftrightarrow> utf8_valid d \<and> length d \<le> 255"
  by (simp_all add: wire_ok_def)

section \<open>The interface: a self-delimiting address encoding\<close>

text \<open>
  An address codec is a framing of the addresses that fit the wire; its decoder yields such
  addresses only and never panics.
\<close>

locale address_codec = framing wire_ok enc dec
  for enc :: "address \<Rightarrow> bytes result" and dec :: "bytes \<Rightarrow> (address \<times> nat) result" +
  assumes dec_wire_ok: "dec bs = Inr (a, n) \<Longrightarrow> wire_ok a"
    and dec_no_panic: "dec bs \<noteq> Inl Panic"
begin

text \<open>A decoder that has the whole encoding of an address returns that address and nothing else.\<close>

lemma dec_back:
  assumes "wire_ok a" and "enc a = Inr w" and "dec (w @ rest) = Inr (b, n)"
  shows "b = a \<and> n = length w \<and> wire_ok b"
  using dec_enc [OF assms(1,2), of rest] assms(1,3) by simp

end

section \<open>SOCKS5 wire form\<close>

abbreviation (input) "ATYP_IPV4 \<equiv> (1 :: u8)"
abbreviation (input) "ATYP_DOMAIN \<equiv> (3 :: u8)"
abbreviation (input) "ATYP_IPV6 \<equiv> (4 :: u8)"

definition read_socks5_address :: "u8 \<Rightarrow> address reader" where
  "read_socks5_address atyp =
     (if atyp = ATYP_IPV4 then
        rbind (read_exact 4) (\<lambda>buf. rbind read_u16 (\<lambda>p. rret (Ipv4 (from_be buf) p)))
      else if atyp = ATYP_IPV6 then
        rbind (read_exact 16) (\<lambda>buf. rbind read_u16 (\<lambda>p. rret (Ipv6 (from_be buf) p)))
      else if atyp = ATYP_DOMAIN then
        rbind read_u8 (\<lambda>len. rbind (read_exact (unat len)) (\<lambda>name. rbind read_u16 (\<lambda>p.
          if utf8_valid name then rret (Domain name p)
          else rfail (Protocol ''domain name is not valid UTF-8''))))
      else rfail (Protocol ''unknown ATYP''))"

definition decode_socks5_address :: "bytes \<Rightarrow> u8 \<Rightarrow> (address \<times> nat) result" where
  "decode_socks5_address data atyp =
     (if atyp = ATYP_IPV4 then
        if length data < 6 then Inl (Err (Protocol ''truncated IPv4 address''))
        else bindE (rslice data 0 4) (\<lambda>a. bindE (rslice data 4 6) (\<lambda>p.
               Inr (Ipv4 (from_be a) (from_be p), 6)))
      else if atyp = ATYP_IPV6 then
        if length data < 18 then Inl (Err (Protocol ''truncated IPv6 address''))
        else bindE (rslice data 0 16) (\<lambda>a. bindE (rslice data 16 18) (\<lambda>p.
               Inr (Ipv6 (from_be a) (from_be p), 18)))
      else if atyp = ATYP_DOMAIN then
        if data = [] then Inl (Err (Protocol ''truncated domain length''))
        else bindE (idx data 0) (\<lambda>b. let n = unat b in
          if length data < 1 + n + 2 then Inl (Err (Protocol ''truncated domain address''))
          else bindE (rslice data 1 (1 + n)) (\<lambda>name.
            if utf8_valid name then
              bindE (rslice data (1 + n) (1 + n + 2)) (\<lambda>p. Inr (Domain name (from_be p), 1 + n + 2))
            else Inl (Err (Protocol ''invalid domain UTF-8''))))
      else Inl (Err (Protocol ''unknown ATYP'')))"

definition write_socks5_address :: "bytes \<Rightarrow> address \<Rightarrow> bytes result" where
  "write_socks5_address buf dest = (case dest of
      Ipv4 a p \<Rightarrow> Inr (buf @ [ATYP_IPV4] @ to_be 4 a @ to_be 2 p)
    | Ipv6 a p \<Rightarrow> Inr (buf @ [ATYP_IPV6] @ to_be 16 a @ to_be 2 p)
    | Domain name p \<Rightarrow> bindE (domain_wire_len name) (\<lambda>l.
        Inr (buf @ [ATYP_DOMAIN] @ [l] @ name @ to_be 2 p)))"

lemma write_socks5_address_append:
  "write_socks5_address buf dest = bindE (write_socks5_address [] dest) (\<lambda>w. Inr (buf @ w))"
  by (cases dest) (auto simp: write_socks5_address_def domain_wire_len_def)

lemma write_socks5_address_total: "wire_ok a \<Longrightarrow> \<exists>w. write_socks5_address [] a = Inr w"
  by (cases a) (auto simp: write_socks5_address_def)

lemma write_socks5_address_nonempty: "write_socks5_address [] a = Inr w \<Longrightarrow> 7 \<le> length w \<or> is_domain a"
  by (cases a) (auto simp: write_socks5_address_def)

text \<open>The receivers take ATYP from the first byte and decode what follows it.\<close>

definition decode_tagged :: "bytes \<Rightarrow> (address \<times> nat) result" where
  "decode_tagged bs = (case bs of
      [] \<Rightarrow> Inl (Err (Protocol ''empty''))
    | atyp # data \<Rightarrow> bindE (decode_socks5_address data atyp) (\<lambda>(a, n). Inr (a, 1 + n)))"

lemma decode_socks5_address_no_panic: "decode_socks5_address data atyp \<noteq> Inl Panic"
  by (cases data) (auto simp: decode_socks5_address_def Let_def)

lemma decode_socks5_address_bound:
  "decode_socks5_address data atyp = Inr (a, n) \<Longrightarrow> 3 \<le> n \<and> n \<le> length data"
  by (cases data) (auto simp: decode_socks5_address_def Let_def split: if_splits)

lemma decode_socks5_address_wire_ok:
  "decode_socks5_address data atyp = Inr (a, n) \<Longrightarrow> wire_ok a"
  by (cases data) (auto simp: decode_socks5_address_def Let_def min_def split: if_splits)

lemma decode_socks5_address_extend:
  "decode_socks5_address data atyp = Inr (a, n) \<Longrightarrow>
   decode_socks5_address (data @ more) atyp = Inr (a, n)"
  by (cases data) (auto simp: decode_socks5_address_def Let_def split: if_splits)

lemma decode_write_socks5:
  assumes "wire_ok a" and "write_socks5_address [] a = Inr w"
  shows "w \<noteq> [] \<and> decode_socks5_address (tl w @ rest) (hd w) = Inr (a, length (tl w))"
  using assms
  by (cases a)
    (auto simp: write_socks5_address_def decode_socks5_address_def Let_def)

interpretation socks: address_codec "write_socks5_address []" decode_tagged
proof
  fix a w rest assume "wire_ok a" "write_socks5_address [] a = Inr w"
  then show "decode_tagged (w @ rest) = Inr (a, length w)"
    using decode_write_socks5 [of a w rest] by (cases w) (auto simp: decode_tagged_def)
next
  fix bs show "decode_tagged bs \<noteq> Inl Panic"
    by (auto simp: decode_tagged_def bindE_eq_Inl decode_socks5_address_no_panic split: list.splits)
qed (auto simp: decode_tagged_def bindE_eq_Inr write_socks5_address_total split: list.splits
      dest: decode_socks5_address_bound decode_socks5_address_wire_ok decode_socks5_address_extend)

text \<open>The stream reader and the slice decoder read the same addresses.\<close>

lemma read_write_socks5:
  assumes "wire_ok a" and "write_socks5_address [] a = Inr w"
  shows "w \<noteq> [] \<and> read_socks5_address (hd w) (tl w @ rest) = Inr (a, rest)"
  using assms
  by (cases a) (auto simp: write_socks5_address_def read_socks5_address_def wire_simps)

lemma wf_read_socks5_address [intro!]: "wf_reader (read_socks5_address atyp)"
  unfolding read_socks5_address_def by (intro wf_reader_if wf_rbind wf_rret wf_rfail wf_read_exact
      wf_read_u8 wf_read_u16)

end
