(* ===== verification/Vless.thy ===== *)
theory Vless
  imports Address
begin

text \<open>
  The VLESS wire format (\<^verbatim>\<open>crates/blackwire-protocol/src/vless/codec.rs\<close> and
  \<^verbatim>\<open>vless/udp.rs\<close>): request header, port-first address section, UDP packet framing,
  response header. Sizes are \<^verbatim>\<open>usize\<close> values of a 64-bit target; the release profile
  keeps overflow checks off, so \<^verbatim>\<open>cursor + len\<close> wraps modulo \<open>2 ^ 64\<close>, which is written
  out where it can happen.
\<close>

section \<open>Constants and data\<close>

abbreviation (input) "VLESS_VERSION \<equiv> (0 :: u8)"
abbreviation (input) "CMD_TCP \<equiv> (1 :: u8)"
abbreviation (input) "CMD_UDP \<equiv> (2 :: u8)"
abbreviation (input) "CMD_MUX \<equiv> (3 :: u8)"
abbreviation (input) "VATYP_IPV4 \<equiv> (1 :: u8)"
abbreviation (input) "VATYP_DOMAIN \<equiv> (2 :: u8)"
abbreviation (input) "VATYP_IPV6 \<equiv> (3 :: u8)"

definition MUX_COOL_DOMAIN :: rstr where
  "MUX_COOL_DOMAIN = ascii ''v1.mux.cool''"

datatype command = Cmd_Tcp | Cmd_Udp | Cmd_Mux

record vless_request =
  vr_uuid :: bytes
  vr_command :: command
  vr_dest :: address
  vr_flow :: rstr

section \<open>Protobuf varints\<close>

function read_varint_from :: "bytes \<Rightarrow> nat \<Rightarrow> u64 \<Rightarrow> nat \<Rightarrow> u64 option \<times> nat" where
  "read_varint_from data cursor acc shift =
     (if cursor < length data then
        let byte = data ! cursor;
            acc' = acc OR push_bit shift (ucast (byte AND 0x7f))
        in if byte AND 0x80 = 0 then (Some acc', cursor + 1)
           else if shift + 7 \<ge> 64 then (None, cursor + 1)
           else read_varint_from data (cursor + 1) acc' (shift + 7)
      else (None, cursor))"
  by pat_completeness auto
termination
  by (relation "measure (\<lambda>(data, cursor, acc, shift). length data - cursor)") auto

declare read_varint_from.simps [simp del]

definition read_varint :: "bytes \<Rightarrow> nat \<Rightarrow> u64 option \<times> nat" where
  "read_varint data cursor = read_varint_from data cursor 0 0"

function put_varint :: "u64 \<Rightarrow> bytes" where
  "put_varint val =
     (if 0x80 \<le> val then (ucast val OR 0x80) # put_varint (drop_bit 7 val)
      else [ucast val])"
  by pat_completeness auto
termination
proof (relation "measure unat")
  fix val :: u64 assume "0x80 \<le> val"
  then have "128 \<le> unat val" by (simp add: word_le_nat_alt)
  then show "(drop_bit 7 val, val) \<in> measure unat"
    by (simp add: drop_bit_eq_div unat_div)
qed simp

declare put_varint.simps [simp del]

section \<open>The addons field\<close>

text \<open>
  \<^verbatim>\<open>parse_flow_from_addons\<close>. \<open>None\<close> is a loop that never returns; \<open>Some (Inl Panic)\<close> is the
  slice panic. \<open>Some (Inr s)\<close> is the flow string found, empty when there is none.
\<close>

definition WRAP :: nat where
  "WRAP = 2 ^ 64"

partial_function (option) parse_flow_loop :: "bytes \<Rightarrow> nat \<Rightarrow> rstr result option" where
  "parse_flow_loop data cursor =
     (if cursor < length data then
       (case read_varint data cursor of
          (None, _) \<Rightarrow> Some (Inr [])
        | (Some tag, cursor1) \<Rightarrow>
           (let field_number = (ucast (drop_bit 3 tag) :: u32); wire_type = tag AND 7 in
            if wire_type = 2 then
              (case read_varint data cursor1 of
                 (None, _) \<Rightarrow> Some (Inr [])
               | (Some len, cursor2) \<Rightarrow>
                  (let e = (cursor2 + unat len) mod WRAP in
                   if e > length data then Some (Inr [])
                   else if field_number = 1 then
                     (case rslice data cursor2 e of
                        Inl f \<Rightarrow> Some (Inl f)
                      | Inr s \<Rightarrow> if utf8_valid s then Some (Inr s) else parse_flow_loop data e)
                   else parse_flow_loop data e))
            else if wire_type = 0 then
              (case read_varint data cursor1 of
                 (None, _) \<Rightarrow> Some (Inr [])
               | (Some _, cursor2) \<Rightarrow> parse_flow_loop data cursor2)
            else if wire_type = 1 then parse_flow_loop data (min (cursor1 + 8) (WRAP - 1))
            else if wire_type = 5 then parse_flow_loop data (min (cursor1 + 4) (WRAP - 1))
            else Some (Inr [])))
      else Some (Inr []))"

definition parse_flow_from_addons :: "bytes \<Rightarrow> rstr result option" where
  "parse_flow_from_addons data = parse_flow_loop data 0"

section \<open>Request decoder\<close>

definition read_address :: "u8 \<Rightarrow> u16 \<Rightarrow> address reader" where
  "read_address atyp p =
     (if atyp = VATYP_IPV4 then rbind (read_exact 4) (\<lambda>buf. rret (Ipv4 (from_be buf) p))
      else if atyp = VATYP_IPV6 then rbind (read_exact 16) (\<lambda>buf. rret (Ipv6 (from_be buf) p))
      else if atyp = VATYP_DOMAIN then
        rbind read_u8 (\<lambda>len. rbind (read_exact (unat len)) (\<lambda>name.
          if utf8_valid name then rret (Domain name p)
          else rfail (Protocol ''domain name is not valid UTF-8'')))
      else rfail (Protocol ''unknown VLESS ATYP''))"

definition decode_command :: "u8 \<Rightarrow> command result" where
  "decode_command b =
     (if b = CMD_TCP then Inr Cmd_Tcp
      else if b = CMD_UDP then Inr Cmd_Udp
      else if b = CMD_MUX then Inr Cmd_Mux
      else Inl (Err (Protocol ''unknown VLESS CMD'')))"

text \<open>The part of \<^verbatim>\<open>decode_request\<close> before the addons are parsed, and the part after.\<close>

definition decode_prefix :: "(bytes \<times> bytes) reader" where
  "decode_prefix =
     rbind read_u8 (\<lambda>ver.
       if ver \<noteq> VLESS_VERSION then rfail (Protocol ''VLESS version not supported'')
       else rbind (read_exact 16) (\<lambda>uuid.
         rbind read_u8 (\<lambda>addons_len.
           rbind (if addons_len > 0 then read_exact (unat addons_len) else rret []) (\<lambda>addons.
             rret (uuid, addons)))))"

definition decode_suffix :: "(command \<times> address) reader" where
  "decode_suffix =
     rbind read_u8 (\<lambda>cmd_byte. rbind (rlift (decode_command cmd_byte)) (\<lambda>command.
       if command = Cmd_Mux then rret (command, Domain MUX_COOL_DOMAIN 0)
       else rbind read_u16 (\<lambda>p. rbind read_u8 (\<lambda>atyp.
         rbind (read_address atyp p) (\<lambda>dest. rret (command, dest))))))"

definition decode_request :: "bytes \<Rightarrow> (vless_request \<times> bytes) result option" where
  "decode_request bs = (case decode_prefix bs of
      Inl f \<Rightarrow> Some (Inl f)
    | Inr ((uuid, addons), rest) \<Rightarrow>
        (case (if addons \<noteq> [] then parse_flow_from_addons addons else Some (Inr [])) of
           None \<Rightarrow> None
         | Some (Inl f) \<Rightarrow> Some (Inl f)
         | Some (Inr flow) \<Rightarrow> Some (bindE (decode_suffix rest) (\<lambda>((command, dest), rest').
             Inr (\<lparr>vr_uuid = uuid, vr_command = command, vr_dest = dest, vr_flow = flow\<rparr>, rest')))))"

section \<open>Encoders\<close>

definition encode_addons :: "rstr \<Rightarrow> bytes result" where
  "encode_addons flow =
     (if flow = [] then Inr [0]
      else let addons = [0x0A] @ put_varint (of_nat (length flow)) @ flow in
        if length addons > 255 then Inl (Err (Protocol ''VLESS addons too long''))
        else Inr ([of_nat (length addons)] @ addons))"

definition encode_command :: "command \<Rightarrow> u8" where
  "encode_command c = (case c of Cmd_Tcp \<Rightarrow> CMD_TCP | Cmd_Udp \<Rightarrow> CMD_UDP | Cmd_Mux \<Rightarrow> CMD_MUX)"

definition encode_host :: "address \<Rightarrow> bytes result" where
  "encode_host dest = (case dest of
      Ipv4 a _ \<Rightarrow> Inr ([VATYP_IPV4] @ to_be 4 a)
    | Ipv6 a _ \<Rightarrow> Inr ([VATYP_IPV6] @ to_be 16 a)
    | Domain name _ \<Rightarrow> bindE (domain_wire_len name) (\<lambda>l. Inr ([VATYP_DOMAIN] @ [l] @ name)))"

definition encode_request :: "bytes \<Rightarrow> rstr \<Rightarrow> command \<Rightarrow> address \<Rightarrow> bytes result" where
  "encode_request uuid flow command dest =
     bindE (encode_addons flow) (\<lambda>addons.
       let buf = [VLESS_VERSION] @ uuid @ addons @ [encode_command command] in
       if command \<noteq> Cmd_Mux then
         bindE (encode_host dest) (\<lambda>h. Inr (buf @ to_be 2 (port dest) @ h))
       else Inr buf)"

definition encode_address_port :: "address \<Rightarrow> bytes result" where
  "encode_address_port dest = bindE (encode_host dest) (\<lambda>h. Inr (to_be 2 (port dest) @ h))"

definition encode_response :: bytes where
  "encode_response = [VLESS_VERSION, 0]"

section \<open>Address sections in a buffer\<close>

definition address_port_wire_len :: "bytes \<Rightarrow> nat result" where
  "address_port_wire_len data =
     (if length data < 4 then Inl (Err (Protocol ''VLESS UDP address too short''))
      else bindE (idx data 2) (\<lambda>atyp.
        bindE (if atyp = VATYP_IPV4 then Inr 4
               else if atyp = VATYP_IPV6 then Inr 16
               else if atyp = VATYP_DOMAIN then
                 bindE (idx data 3) (\<lambda>b. let name_len = unat b in
                   if length data < 4 + name_len
                   then Inl (Err (Protocol ''VLESS UDP address truncated''))
                   else bindE (rslice data 4 (4 + name_len)) (\<lambda>name.
                     if utf8_valid name then bindE (domain_wire_len name) (\<lambda>_. Inr (1 + name_len))
                     else Inl (Err (Protocol ''domain name is not valid UTF-8''))))
               else Inl (Err (Protocol ''VLESS UDP: unsupported address type'')))
          (\<lambda>addr_len. Inr (2 + 1 + addr_len))))"

text \<open>\<^verbatim>\<open>decode_address_sync\<close> reads through a cursor; running out is a protocol error there.\<close>

definition decode_address_sync :: "bytes \<Rightarrow> u8 \<Rightarrow> u16 \<Rightarrow> address result" where
  "decode_address_sync cur atyp p = (case read_address atyp p cur of
      Inl (Err (Io k)) \<Rightarrow> Inl (Err (Protocol ''failed to fill whole buffer''))
    | Inl f \<Rightarrow> Inl f
    | Inr (a, _) \<Rightarrow> Inr a)"

definition decode_address_port_with_len :: "bytes \<Rightarrow> (address \<times> nat) result" where
  "decode_address_port_with_len data =
     (if length data < 4 then Inl (Err (Protocol ''VLESS UDP address too short''))
      else bindE (rslice data 0 2) (\<lambda>p. bindE (idx data 2) (\<lambda>atyp.
        bindE (address_port_wire_len data) (\<lambda>consumed.
          if length data < consumed then Inl (Err (Protocol ''VLESS UDP address truncated''))
          else bindE (rslice data 3 (length data)) (\<lambda>cur.
            bindE (decode_address_sync cur atyp (from_be p)) (\<lambda>addr. Inr (addr, consumed)))))))"

definition decode_address_port :: "bytes \<Rightarrow> address result" where
  "decode_address_port data = bindE (decode_address_port_with_len data) (\<lambda>(addr, _). Inr addr)"

section \<open>UDP packets\<close>

definition read_udp_header :: "address reader" where
  "read_udp_header =
     rbind read_u16 (\<lambda>addr_len.
       if addr_len = 0 \<or> unat addr_len > 512 then rfail (Protocol ''invalid VLESS UDP address length'')
       else rbind (read_exact (unat addr_len)) (\<lambda>addr_buf. rlift (decode_address_port addr_buf)))"

text \<open>The bytes that \<^verbatim>\<open>write_udp_packet\<close> writes to the stream.\<close>

definition write_udp_packet :: "address \<Rightarrow> bytes \<Rightarrow> bytes result" where
  "write_udp_packet dest payload =
     bindE (encode_address_port dest) (\<lambda>addr_bytes.
       if length addr_bytes > 65535 then Inl (Err (Protocol ''VLESS UDP address too long''))
       else Inr (to_be 2 (of_nat (length addr_bytes) :: u16) @ addr_bytes @ payload))"

section \<open>Varints round trip\<close>

lemma bit_127_int: "bit (127 :: int) k \<longleftrightarrow> k < 7"
proof -
  have "(127 :: int) = mask 7" by (simp add: mask_eq_exp_minus_1)
  then show ?thesis by (simp only: bit_mask_iff) simp
qed

lemma bit_128_int: "bit (128 :: int) k \<longleftrightarrow> k = 7"
proof -
  have "(128 :: int) = 2 ^ 7" by simp
  then show ?thesis by (simp only: bit_exp_iff) auto
qed

lemmas varint_bits = bit_and_iff bit_or_iff bit_push_bit_iff bit_drop_bit_eq bit_unsigned_iff
  bit_127_int bit_128_int

lemma varint_byte_low: "ucast ((ucast v OR 0x80 :: u8) AND 0x7f) = v AND (0x7f :: u64)"
proof (rule bit_word_eqI)
  fix n
  show "bit (ucast ((ucast v OR 0x80 :: u8) AND 0x7f) :: u64) n = bit (v AND 0x7f) n"
    by (auto simp: varint_bits dest: bit_imp_le_length)
qed

lemma varint_byte_high: "(ucast (v :: u64) OR 0x80 :: u8) AND 0x80 \<noteq> 0"
proof -
  have "bit ((ucast v OR 0x80 :: u8) AND 0x80) 7" by (simp add: varint_bits)
  then show ?thesis by (metis bit_0_eq bot_apply bot_bool_def)
qed

lemma small_word_bit:
  fixes v :: "'a::len word"
  assumes "unat v < 2 ^ k" and "bit v n"
  shows "n < k"
proof -
  have "take_bit k v = v"
    by (rule unsigned_word_eqI [where 'a = nat]) (use assms(1) in \<open>simp add: unsigned_take_bit_eq take_bit_nat_eq_self\<close>)
  then show ?thesis using assms(2) by (metis bit_take_bit_iff)
qed

lemma varint_last_byte:
  fixes v :: u64
  assumes "\<not> 0x80 \<le> v"
  shows "ucast ((ucast v :: u8) AND 0x7f) = v" and "(ucast v :: u8) AND 0x80 = 0"
proof -
  have b: "n < 7" if "bit v n" for n
    using small_word_bit [OF _ that, of 7] assms by (simp add: word_le_nat_alt)
  show "ucast ((ucast v :: u8) AND 0x7f) = v"
  proof (rule bit_word_eqI)
    fix n assume "n < LENGTH(64)"
    show "bit (ucast ((ucast v :: u8) AND 0x7f) :: u64) n = bit v n"
      using b [of n] by (auto simp: varint_bits)
  qed
  show "(ucast v :: u8) AND 0x80 = 0"
  proof (rule bit_word_eqI)
    fix n assume "n < LENGTH(8)"
    show "bit ((ucast v :: u8) AND 0x80) n = bit 0 n"
      using b [of n] by (auto simp: varint_bits)
  qed
qed

lemma varint_step:
  fixes v acc :: u64
  shows "(acc OR push_bit s (v AND 0x7f)) OR push_bit (s + 7) (drop_bit 7 v) = acc OR push_bit s v"
proof (rule bit_word_eqI)
  fix n assume n: "n < LENGTH(64)"
  show "bit ((acc OR push_bit s (v AND 0x7f)) OR push_bit (s + 7) (drop_bit 7 v)) n
      = bit (acc OR push_bit s v) n"
  proof (cases "s + 7 \<le> n")
    case True
    then have "7 + (n - (s + 7)) = n - s" and "s \<le> n" and "\<not> n - s < 7" by auto
    then show ?thesis using n True by (simp add: varint_bits)
  next
    case False
    then show ?thesis using n by (auto simp: varint_bits)
  qed
qed

lemma read_put_varint_from:
  assumes "s < 64" and "unat v < 2 ^ (64 - s)"
  shows "read_varint_from (pre @ put_varint v @ post) (length pre) acc s =
    (Some (acc OR push_bit s v), length pre + length (put_varint v))"
  using assms
proof (induction v arbitrary: pre acc s rule: put_varint.induct)
  case (1 v)
  show ?case
  proof (cases "0x80 \<le> v")
    case True
    then have big: "2 ^ 7 \<le> unat v" by (simp add: word_le_nat_alt)
    with "1.prems"(2) have "(2::nat) ^ 7 < 2 ^ (64 - s)" by linarith
    then have s7: "7 < 64 - s" by (simp only: power_strict_increasing_iff)
    have "unat (drop_bit 7 v) = unat v div 2 ^ 7" by (simp add: drop_bit_eq_div unat_div)
    moreover have "unat v < 2 ^ 7 * 2 ^ (64 - (s + 7))"
    proof -
      have "64 - s = 7 + (64 - (s + 7))" using s7 by simp
      then show ?thesis using "1.prems"(2) by (metis power_add)
    qed
    ultimately have dv: "unat (drop_bit 7 v) < 2 ^ (64 - (s + 7))"
      by (simp add: less_mult_imp_div_less mult.commute)
    let ?b = "ucast v OR 0x80 :: u8"
    have put: "put_varint v = ?b # put_varint (drop_bit 7 v)"
      using True by (simp add: put_varint.simps [of v])
    have "read_varint_from ((pre @ [?b]) @ put_varint (drop_bit 7 v) @ post) (length (pre @ [?b]))
        (acc OR push_bit s (v AND 0x7f)) (s + 7) =
      (Some ((acc OR push_bit s (v AND 0x7f)) OR push_bit (s + 7) (drop_bit 7 v)),
       length (pre @ [?b]) + length (put_varint (drop_bit 7 v)))"
      by (rule "1.IH" [OF True _ dv]) (use s7 in simp)
    then show ?thesis
      using s7 varint_byte_high [of v] varint_byte_low [of v]
      by (subst read_varint_from.simps) (simp add: put varint_step nth_append del: push_bit_and)
  next
    case False
    then have "put_varint v = [ucast v]" by (simp add: put_varint.simps [of v])
    then show ?thesis
      using varint_last_byte [OF False]
      by (subst read_varint_from.simps) (simp add: nth_append)
  qed
qed

lemma read_put_varint:
  "read_varint (pre @ put_varint v @ post) (length pre) = (Some v, length pre + length (put_varint v))"
  using read_put_varint_from [of 0 v pre post 0] unsigned_less [of v] by (simp add: read_varint_def)

lemma length_put_varint_small: "unat v < 128 \<Longrightarrow> length (put_varint v) = 1"
  by (subst put_varint.simps) (simp add: word_le_nat_alt)

lemma length_put_varint_medium: "unat v < 2 ^ 14 \<Longrightarrow> length (put_varint v) \<le> 2"
proof (cases "unat v < 128")
  case False
  assume "unat v < 2 ^ 14"
  then have "unat (drop_bit 7 v) < 128" by (simp add: drop_bit_eq_div unat_div less_mult_imp_div_less)
  then show ?thesis by (subst put_varint.simps) (simp add: length_put_varint_small)
qed (simp add: length_put_varint_small)


section \<open>The addons field: what the parser returns\<close>

lemma put_varint_10: "put_varint 10 = [0x0A]"
  by (subst put_varint.simps) simp

lemma parse_flow_encoded:
  assumes "utf8_valid flow" and "length flow \<le> 255"
  shows "parse_flow_from_addons ([0x0A] @ put_varint (of_nat (length flow)) @ flow) = Some (Inr flow)"
proof -
  let ?l = "of_nat (length flow) :: u64"
  define d where "d = [0x0A] @ put_varint ?l @ flow"
  have l: "unat ?l = length flow" using assms(2) by (simp add: unat_of_nat)
  have tag: "read_varint d 0 = (Some 10, 1)"
    using read_put_varint [of "[]" 10 "put_varint ?l @ flow"] by (simp add: put_varint_10 d_def)
  have len: "read_varint d 1 = (Some ?l, 1 + length (put_varint ?l))"
    using read_put_varint [of "[0x0A]" ?l flow] by (simp add: d_def)
  have "length (put_varint ?l) \<le> 2"
    by (rule length_put_varint_medium) (use assms(2) l in simp)
  then have e: "(1 + length (put_varint ?l) + unat ?l) mod WRAP = length d"
    using assms(2) by (simp add: WRAP_def l d_def)
  have sl: "rslice d (1 + length (put_varint ?l)) (length d) = Inr flow" and "0 < length d"
    by (simp_all add: d_def)
  then have "parse_flow_loop d 0 = Some (Inr flow)"
    using assms(1) tag len e sl by (subst parse_flow_loop.simps) (simp add: Let_def)
  then show ?thesis by (simp add: parse_flow_from_addons_def d_def)
qed

text \<open>A varint of \<open>k\<close> bytes stays below \<open>2 ^ (7 * k)\<close>, and its cursor moves forward inside the data.\<close>

lemma or_less_exp:
  fixes a b :: u64
  assumes "unat a < 2 ^ k" and "unat b < 2 ^ k"
  shows "unat (a OR b) < 2 ^ k"
proof (rule ccontr)
  assume "\<not> unat (a OR b) < 2 ^ k"
  have ta: "take_bit k a = a" "take_bit k b = b"
    by (rule unsigned_word_eqI [where 'a = nat];
        use assms in \<open>simp add: unsigned_take_bit_eq take_bit_nat_eq_self\<close>)+
  have "take_bit k (a OR b) = a OR b" by (simp add: take_bit_or ta)
  then have "unat (a OR b) = take_bit k (unat (a OR b))" by (metis unsigned_take_bit_eq)
  then have "unat (a OR b) < 2 ^ k" by (metis take_bit_nat_less_exp)
  with \<open>\<not> unat (a OR b) < 2 ^ k\<close> show False by simp
qed

lemma read_varint_from_bounds:
  assumes "read_varint_from data c acc s = (Some v, c')" and "unat acc < 2 ^ s"
  shows "c < c' \<and> c' \<le> length data \<and> (s + 7 * (c' - c) < 64 \<longrightarrow> unat v < 2 ^ (s + 7 * (c' - c)))"
  using assms
proof (induction data c acc s rule: read_varint_from.induct)
  case (1 data c acc s)
  let ?byte = "data ! c"
  let ?acc = "acc OR push_bit s (ucast (?byte AND 0x7f))"
  from "1.prems" have c: "c < length data" by (subst (asm) read_varint_from.simps) (auto split: if_splits)
  have acc: "unat ?acc < 2 ^ (s + 7)" if "s + 7 < 64"
  proof (rule or_less_exp)
    show "unat acc < 2 ^ (s + 7)" using "1.prems"(2) by (rule less_le_trans) simp
    have "unat (?byte AND 0x7f) \<le> unat (0x7f :: u8)"
      by (rule word_and_le1 [THEN word_le_nat_alt [THEN iffD1]])
    then have b: "unat (?byte AND 0x7f) < 2 ^ 7" by simp
    have "unat (push_bit s (ucast (?byte AND 0x7f)) :: u64)
        = take_bit LENGTH(64) (push_bit s (unat (ucast (?byte AND 0x7f) :: u64)))"
      by (rule unsigned_push_bit_eq)
    also have "\<dots> \<le> push_bit s (unat (ucast (?byte AND 0x7f) :: u64))"
      by (rule take_bit_nat_less_eq_self)
    also have "\<dots> \<le> unat (?byte AND 0x7f) * 2 ^ s"
      by (simp add: push_bit_eq_mult unsigned_ucast_eq take_bit_nat_less_eq_self)
    also have "\<dots> < 2 ^ 7 * 2 ^ s" using b by simp
    finally show "unat (push_bit s (ucast (?byte AND 0x7f)) :: u64) < 2 ^ (s + 7)"
      by (simp add: power_add)
  qed
  show ?case
  proof (cases "?byte AND 0x80 = 0")
    case True
    with "1.prems"(1) c have "v = ?acc" "c' = c + 1"
      by (subst (asm) read_varint_from.simps; simp)+
    then show ?thesis using acc c by auto
  next
    case False
    have s7: "\<not> s + 7 \<ge> 64"
      using "1.prems"(1) c False by (subst (asm) read_varint_from.simps) (auto split: if_splits)
    have rec: "read_varint_from data (c + 1) ?acc (s + 7) = (Some v, c')"
      using "1.prems"(1) c False s7 by (subst (asm) read_varint_from.simps) simp
    have "c + 1 < c' \<and> c' \<le> length data
      \<and> (s + 7 + 7 * (c' - (c + 1)) < 64 \<longrightarrow> unat v < 2 ^ (s + 7 + 7 * (c' - (c + 1))))"
      by (rule "1.IH" [OF c refl refl False s7 rec]) (use s7 acc in simp)
    moreover have "s + 7 + 7 * (c' - (c + 1)) = s + 7 * (c' - c)" if "c + 1 < c'"
      using that by simp
    ultimately show ?thesis by (metis less_trans less_add_one)
  qed
qed

lemma read_varint_bounds:
  assumes "read_varint data c = (Some v, c')"
  shows "c < c'" and "c' \<le> length data" and "7 * (c' - c) < 64 \<Longrightarrow> unat v < 2 ^ (7 * (c' - c))"
  using read_varint_from_bounds [of data c 0 0 v c'] assms by (auto simp: read_varint_def)


text \<open>
  Addons of at most ten bytes: no length field can be large enough to wrap, so every
  iteration moves the cursor forward and the parser returns without a panic.
\<close>

lemma parse_flow_loop_short:
  assumes "length data \<le> 10"
  shows "\<exists>s. parse_flow_loop data c = Some (Inr s)"
proof (induction "length data - c" arbitrary: c rule: less_induct)
  case less
  have go: "\<exists>s. parse_flow_loop data d = Some (Inr s)" if "c < d" for d
  proof (cases "c < length data")
    case True
    then show ?thesis using that by (intro less) simp
  next
    case False
    then show ?thesis using that by (subst parse_flow_loop.simps) simp
  qed
  show ?case
  proof (cases "c < length data")
    case False
    then show ?thesis by (subst parse_flow_loop.simps) simp
  next
    case True
    obtain t c1 where tag: "read_varint data c = (t, c1)" by (cases "read_varint data c")
    show ?thesis
    proof (cases t)
      case None
      then show ?thesis using True tag by (subst parse_flow_loop.simps) simp
    next
      case (Some tg)
      then have c1: "c < c1" "c1 \<le> length data" using tag read_varint_bounds by blast+
      obtain l c2 where len: "read_varint data c1 = (l, c2)" by (cases "read_varint data c1")
      have l: "c1 < c2 \<and> c2 \<le> length data \<and> unat v < 2 ^ 63" if "l = Some v" for v
      proof -
        have "c1 < c2" "c2 \<le> length data" "7 * (c2 - c1) < 64 \<Longrightarrow> unat v < 2 ^ (7 * (c2 - c1))"
          using len that read_varint_bounds by blast+
        moreover have "7 * (c2 - c1) \<le> 63" using calculation(2) c1 assms by linarith
        moreover have "(2::nat) ^ (7 * (c2 - c1)) \<le> 2 ^ 63"
          using calculation(4) by (intro power_increasing) auto
        ultimately show ?thesis by auto
      qed
      have e: "c2 \<le> (c2 + unat v) mod WRAP \<and> c < (c2 + unat v) mod WRAP" if "l = Some v" for v
      proof -
        have "c2 + unat v < WRAP" using l [OF that] assms by (simp add: WRAP_def)
        then show ?thesis using l [OF that] c1 by simp
      qed
      have "c < min (c1 + 8) (WRAP - 1)" "c < min (c1 + 4) (WRAP - 1)"
        using c1 assms by (auto simp: WRAP_def)
      then obtain s8 s4 where w: "parse_flow_loop data (min (c1 + 8) (WRAP - 1)) = Some (Inr s8)"
          "parse_flow_loop data (min (c1 + 4) (WRAP - 1)) = Some (Inr s4)"
        using go by blast
      show ?thesis
      proof (cases l)
        case None
        then show ?thesis using True tag Some len w
          by (subst parse_flow_loop.simps) (simp add: Let_def del: One_nat_def)
      next
        case (Some v)
        then obtain s2 se where "parse_flow_loop data c2 = Some (Inr s2)"
            "parse_flow_loop data ((c2 + unat v) mod WRAP) = Some (Inr se)"
          using go l [OF Some] e [OF Some] c1 by (meson less_trans)
        then show ?thesis using True tag \<open>t = Some tg\<close> len Some w e [OF Some]
          by (subst parse_flow_loop.simps) (simp add: Let_def rslice_def del: One_nat_def)
      qed
    qed
  qed
qed

section \<open>The port-first address section as an address codec\<close>

lemma wf_read_address [intro!]: "wf_reader (read_address atyp p)"
  unfolding read_address_def
  by (intro wf_reader_if wf_rbind wf_rret wf_rfail wf_read_exact wf_read_u8)

lemma encode_host_total: "wire_ok a \<Longrightarrow> \<exists>h. encode_host a = Inr h"
  by (cases a) (auto simp: encode_host_def)

lemma read_encode_host:
  assumes "wire_ok a" and "encode_host a = Inr h"
  shows "h \<noteq> [] \<and> read_address (hd h) (port a) (tl h @ rest) = Inr (a, rest)"
  using assms by (cases a) (auto simp: encode_host_def read_address_def wire_simps)

lemma length_encode_host:
  "encode_host a = Inr h \<Longrightarrow> 2 \<le> length h \<and> length h \<le> 257"
  by (cases a) (auto simp: encode_host_def domain_wire_len_def split: if_splits)

lemma address_port_wire_len_eq:
  assumes "address_port_wire_len data = Inr n"
  shows "4 \<le> n \<and> (data ! 2 = VATYP_IPV4 \<and> n = 7 \<or> data ! 2 = VATYP_IPV6 \<and> n = 19
    \<or> data ! 2 = VATYP_DOMAIN \<and> n = 4 + unat (data ! 3) \<and> n \<le> length data)"
  using assms by (auto simp: address_port_wire_len_def Let_def bindE_eq_Inr split: if_splits)

lemma address_port_wire_len_encode:
  assumes "wire_ok a" and "encode_host a = Inr h"
  shows "address_port_wire_len (to_be 2 p @ h @ rest) = Inr (2 + length h)"
proof -
  have "(to_be 2 p @ h @ rest) ! 2 = hd (h @ rest)" "(to_be 2 p @ h @ rest) ! 3 = (h @ rest) ! 1"
    using length_encode_host [OF assms(2)] by (auto simp: nth_append hd_append hd_conv_nth)
  then show ?thesis using assms length_encode_host [OF assms(2)]
    by (cases a) (auto simp: address_port_wire_len_def encode_host_def Let_def)
qed

lemma decode_address_sync_no_panic: "decode_address_sync cur atyp p \<noteq> Inl Panic"
  using wf_reader_no_panic [OF wf_read_address, of atyp p cur]
  by (auto simp: decode_address_sync_def split: sum.splits failure.splits proxy_error.splits)

lemma read_address_wire_ok: "read_address atyp p bs = Inr (a, rest) \<Longrightarrow> wire_ok a"
  by (auto simp: read_address_def rbind_def bindE_eq_Inr rret_def rfail_def read_exact_def min_def
      split: if_splits)

lemma decode_address_sync_eq_Inr:
  "decode_address_sync cur atyp p = Inr a \<longleftrightarrow> (\<exists>rest. read_address atyp p cur = Inr (a, rest))"
  by (auto simp: decode_address_sync_def split: sum.splits failure.splits proxy_error.splits)

lemma address_port_wire_len_no_panic: "address_port_wire_len data \<noteq> Inl Panic"
  by (auto simp: address_port_wire_len_def Let_def bindE_eq_Inl domain_wire_len_def split: if_splits)

lemma address_port_wire_len_extend:
  assumes "address_port_wire_len data = Inr n"
  shows "address_port_wire_len (data @ extra) = Inr n"
proof -
  have len: "4 \<le> length data" using assms by (auto simp: address_port_wire_len_def split: if_splits)
  show ?thesis
  proof (cases "data ! 2 = VATYP_DOMAIN")
    case True
    then have "4 + unat (data ! 3) \<le> length data"
      using assms len by (auto simp: address_port_wire_len_def Let_def split: if_splits)
    moreover from this have "unat (data ! 3) - (length data - 4) = 0" by simp
    ultimately show ?thesis
      using assms len True by (simp add: address_port_wire_len_def Let_def nth_append)
  next
    case False
    then show ?thesis using assms len by (simp add: address_port_wire_len_def nth_append cong: if_cong)
  qed
qed

lemma decode_with_len_eq_Inr:
  "decode_address_port_with_len data = Inr (a, n) \<longleftrightarrow>
     4 \<le> length data \<and> address_port_wire_len data = Inr n \<and> n \<le> length data
     \<and> (\<exists>rest. read_address (data ! 2) (from_be (take 2 data)) (drop 3 data) = Inr (a, rest))"
proof (cases "4 \<le> length data")
  case True
  then have "decode_address_port_with_len data =
      bindE (address_port_wire_len data) (\<lambda>consumed.
        if length data < consumed then Inl (Err (Protocol ''VLESS UDP address truncated''))
        else bindE (decode_address_sync (drop 3 data) (data ! 2) (from_be (take 2 data)))
               (\<lambda>addr. Inr (addr, consumed)))"
    by (simp add: decode_address_port_with_len_def cong: if_cong)
  moreover have "(if b then Inl e else r) = Inr v \<longleftrightarrow> \<not> b \<and> r = Inr v" for b and e :: failure and r and v :: "address \<times> nat"
    by simp
  ultimately show ?thesis
    using True by (simp only: bindE_eq_Inr decode_address_sync_eq_Inr) auto
qed (simp add: decode_address_port_with_len_def)

lemma decode_with_len_encode:
  assumes "wire_ok a" and "encode_address_port a = Inr w"
  shows "decode_address_port_with_len (w @ rest) = Inr (a, length w)"
proof -
  from assms(2) obtain h where h: "encode_host a = Inr h" "w = to_be 2 (port a) @ h"
    by (auto simp: encode_address_port_def bindE_eq_Inr)
  obtain t ts where "h = t # ts" using read_encode_host [OF assms(1) h(1)] by (cases h) auto
  moreover have "read_address (hd h) (port a) (tl h @ rest) = Inr (a, rest)"
    using read_encode_host [OF assms(1) h(1)] by blast
  moreover have "(to_be 2 (port a) @ t # ts @ rest) ! 2 = t" by (simp add: nth_append)
  ultimately show ?thesis
    using address_port_wire_len_encode [OF assms(1) h(1), of "port a" rest] length_encode_host [OF h(1)]
    by (auto simp: decode_with_len_eq_Inr h)
qed

lemma decode_with_len_no_panic: "decode_address_port_with_len bs \<noteq> Inl Panic"
proof (cases "length bs < 4")
  case False
  then show ?thesis
    using address_port_wire_len_no_panic [of bs] decode_address_sync_no_panic
    by (cases "address_port_wire_len bs"; cases "decode_address_sync (drop 3 bs) (bs ! 2) (from_be (take 2 bs))")
       (auto simp: decode_address_port_with_len_def)
qed (simp add: decode_address_port_with_len_def)

lemma decode_with_len_extend:
  assumes "decode_address_port_with_len bs = Inr (a, n)"
  shows "decode_address_port_with_len (bs @ extra) = Inr (a, n)"
  using assms address_port_wire_len_extend [of bs n extra]
  by (auto simp: decode_with_len_eq_Inr nth_append dest: wf_reader_extend [OF wf_read_address])

interpretation vless: address_codec encode_address_port decode_address_port_with_len
proof
  fix a assume "wire_ok a"
  then obtain h where "encode_host a = Inr h" using encode_host_total by blast
  then show "\<exists>w. encode_address_port a = Inr w" by (simp add: encode_address_port_def)
next
  fix bs a n assume "decode_address_port_with_len bs = Inr (a, n)"
  then show "n \<le> length bs" "wire_ok a"
    by (auto simp: decode_with_len_eq_Inr dest: read_address_wire_ok)
qed (rule decode_with_len_encode decode_with_len_extend decode_with_len_no_panic; assumption)+

section \<open>Requests round trip\<close>

lemma decode_encode_command [simp]: "decode_command (encode_command c) = Inr c"
  by (cases c) (simp_all add: decode_command_def encode_command_def)

lemma wf_decode_command: "decode_command b \<noteq> Inl Panic"
  by (simp add: decode_command_def)

lemma wf_decode_prefix: "wf_reader decode_prefix"
  unfolding decode_prefix_def by (intro wf_reader_if wf_rbind wf_rret wf_rfail wf_read_exact wf_read_u8)

lemma wf_decode_suffix: "wf_reader decode_suffix"
  unfolding decode_suffix_def
  by (intro wf_reader_if wf_rbind wf_rret wf_rfail wf_read_exact wf_read_u8 wf_read_u16 wf_rlift
      wf_decode_command wf_read_address)

definition request_wf :: "bytes \<Rightarrow> rstr \<Rightarrow> command \<Rightarrow> address \<Rightarrow> bool" where
  "request_wf uuid flow command dest \<longleftrightarrow> length uuid = 16 \<and> utf8_valid flow
     \<and> (if command = Cmd_Mux then dest = Domain MUX_COOL_DOMAIN 0 else wire_ok dest)"

lemma encode_addons_cases:
  assumes "encode_addons flow = Inr ad"
  obtains "flow = []" "ad = [0]"
  | m where "m = [0x0A] @ put_varint (of_nat (length flow)) @ flow" "length m \<le> 255"
      "ad = of_nat (length m) # m" "flow \<noteq> []"
  using assms by (auto simp: encode_addons_def Let_def split: if_splits)

lemma decode_prefix_addons:
  assumes "length uuid = 16" and "length m \<le> 255"
  shows "decode_prefix ([VLESS_VERSION] @ uuid @ (of_nat (length m) # m) @ rest) = Inr ((uuid, m), rest)"
proof -
  have l: "unat (of_nat (length m) :: u8) = length m" using assms(2) by simp
  then have "(of_nat (length m) :: u8) = 0 \<longleftrightarrow> m = []" by (metis length_0_conv unat_eq_zero)
  then have "0 < (of_nat (length m) :: u8) \<longleftrightarrow> m \<noteq> []" by (simp add: word_gt_0)
  then show ?thesis using assms l by (simp add: decode_prefix_def wire_simps)
qed

lemma decode_suffix_encode:
  assumes "c \<noteq> Cmd_Mux" and "wire_ok a" and "encode_host a = Inr h"
  shows "decode_suffix ([encode_command c] @ to_be 2 (port a) @ h @ rest) = Inr ((c, a), rest)"
proof -
  obtain t ts where "h = t # ts" using read_encode_host [OF assms(2,3)] by (cases h) auto
  then show ?thesis using read_encode_host [OF assms(2,3), of rest] assms(1)
    by (simp add: decode_suffix_def wire_simps)
qed

lemma decode_suffix_mux:
  "decode_suffix ([encode_command Cmd_Mux] @ rest) = Inr ((Cmd_Mux, Domain MUX_COOL_DOMAIN 0), rest)"
  by (simp add: decode_suffix_def wire_simps)

lemma parse_flow_of_addons:
  assumes "encode_addons flow = Inr ad" and "utf8_valid flow" and "length uuid = 16"
  shows "decode_request ([VLESS_VERSION] @ uuid @ ad @ sfx) =
    Some (bindE (decode_suffix sfx) (\<lambda>((command, dest), rest').
      Inr (\<lparr>vr_uuid = uuid, vr_command = command, vr_dest = dest, vr_flow = flow\<rparr>, rest')))"
  using assms(1)
proof (cases rule: encode_addons_cases)
  case 1
  then show ?thesis
    using decode_prefix_addons [OF assms(3), of "[]" sfx] by (simp add: decode_request_def)
next
  case (2 m)
  then have "length flow \<le> 255" by simp
  then show ?thesis
    using 2 decode_prefix_addons [OF assms(3) 2(2), of sfx] parse_flow_encoded [OF assms(2)]
    by (simp add: decode_request_def)
qed

text \<open>
  Property C1. The server reads back exactly the request the client wrote: UUID, flow,
  command and destination, and nothing of the payload that follows the header.
\<close>

theorem decode_encode_request:
  assumes "request_wf uuid flow command dest" and "encode_request uuid flow command dest = Inr w"
  shows "decode_request (w @ rest) =
    Some (Inr (\<lparr>vr_uuid = uuid, vr_command = command, vr_dest = dest, vr_flow = flow\<rparr>, rest))"
proof -
  from assms(2) obtain ad where ad: "encode_addons flow = Inr ad"
    by (auto simp: encode_request_def bindE_eq_Inr)
  note parse = parse_flow_of_addons [OF ad]
  show ?thesis
  proof (cases "command = Cmd_Mux")
    case True
    then have "w @ rest = [VLESS_VERSION] @ uuid @ ad @ [encode_command Cmd_Mux] @ rest"
      using assms(2) ad by (auto simp: encode_request_def)
    with decode_suffix_mux [of rest] show ?thesis
      using assms(1) True parse by (simp only: request_wf_def) simp
  next
    case False
    with assms(2) ad obtain h where h: "encode_host dest = Inr h"
      "w @ rest = [VLESS_VERSION] @ uuid @ ad @ [encode_command command] @ to_be 2 (port dest) @ h @ rest"
      by (auto simp: encode_request_def bindE_eq_Inr)
    have "wire_ok dest" using assms(1) False by (simp add: request_wf_def)
    from decode_suffix_encode [OF False this h(1), of rest] show ?thesis
      using assms(1) parse False h(2) by (simp only: request_wf_def) simp
  qed
qed

theorem decode_encode_request_witness:
  "\<exists>w. encode_request (replicate 16 7) (ascii ''xtls-rprx-vision'') Cmd_Tcp (Domain (ascii ''a.io'') 443) = Inr w
     \<and> decode_request (w @ [9]) = Some (Inr (\<lparr>vr_uuid = replicate 16 7, vr_command = Cmd_Tcp,
         vr_dest = Domain (ascii ''a.io'') 443, vr_flow = ascii ''xtls-rprx-vision''\<rparr>, [9]))"
proof -
  let ?u = "replicate 16 7 :: bytes" and ?f = "ascii ''xtls-rprx-vision''" and ?d = "Domain (ascii ''a.io'') 443"
  have wf: "request_wf ?u ?f Cmd_Tcp ?d" by code_simp
  have "\<exists>ad. encode_addons ?f = Inr ad" by (simp add: encode_addons_def ascii_def put_varint.simps)
  moreover have "\<exists>h. encode_host ?d = Inr h" by (rule encode_host_total) code_simp
  ultimately obtain w where "encode_request ?u ?f Cmd_Tcp ?d = Inr w" by (auto simp: encode_request_def)
  then show ?thesis using decode_encode_request [OF wf] by blast
qed

section \<open>Malformed addons\<close>

text \<open>Eleven addon bytes whose length field is \<open>2 ^ 64 - 11\<close>: the cursor wraps to zero.\<close>

definition looping_addons :: bytes where
  "looping_addons = [0x12, 0xF5, 0xFF, 0xFF, 0xFF, 0xFF, 0xFF, 0xFF, 0xFF, 0xFF, 0x01]"

definition panicking_addons :: bytes where
  "panicking_addons = [0x0A, 0xF5, 0xFF, 0xFF, 0xFF, 0xFF, 0xFF, 0xFF, 0xFF, 0xFF, 0x01]"

definition hostile_header :: "bytes \<Rightarrow> bytes" where
  "hostile_header addons = [0] @ replicate 16 0 @ [of_nat (length addons)] @ addons"

lemma looping_reads:
  "read_varint looping_addons 0 = (Some 0x12, 1)"
  "read_varint looping_addons 1 = (Some 18446744073709551605, 11)"
  "length looping_addons = 11"
  by code_simp+

lemma panicking_reads:
  "read_varint panicking_addons 0 = (Some 0x0A, 1)"
  "read_varint panicking_addons 1 = (Some 18446744073709551605, 11)"
  "length panicking_addons = 11"
  by code_simp+

lemma length_wraps: "18446744073709551616 mod WRAP = 0"
  by (simp add: WRAP_def)

lemma looping_never_returns:
  assumes "parse_flow_loop data c = Some y"
  shows "\<not> (data = looping_addons \<and> c = 0)"
proof (rule parse_flow_loop.raw_induct [of "\<lambda>d c y. \<not> (d = looping_addons \<and> c = 0)", OF _ assms])
  fix loop :: "bytes \<Rightarrow> nat \<Rightarrow> rstr result option" and d k y
  assume IH: "\<And>d k y. loop d k = Some y \<Longrightarrow> \<not> (d = looping_addons \<and> k = 0)"
    and body: "(if k < length d then
       (case read_varint d k of
          (None, _) \<Rightarrow> Some (Inr [])
        | (Some tag, cursor1) \<Rightarrow>
           (let field_number = (ucast (drop_bit 3 tag) :: u32); wire_type = tag AND 7 in
            if wire_type = 2 then
              (case read_varint d cursor1 of
                 (None, _) \<Rightarrow> Some (Inr [])
               | (Some len, cursor2) \<Rightarrow>
                  (let e = (cursor2 + unat len) mod WRAP in
                   if e > length d then Some (Inr [])
                   else if field_number = 1 then
                     (case rslice d cursor2 e of
                        Inl f \<Rightarrow> Some (Inl f)
                      | Inr s \<Rightarrow> if utf8_valid s then Some (Inr s) else loop d e)
                   else loop d e))
            else if wire_type = 0 then
              (case read_varint d cursor1 of
                 (None, _) \<Rightarrow> Some (Inr [])
               | (Some _, cursor2) \<Rightarrow> loop d cursor2)
            else if wire_type = 1 then loop d (min (cursor1 + 8) (WRAP - 1))
            else if wire_type = 5 then loop d (min (cursor1 + 4) (WRAP - 1))
            else Some (Inr [])))
      else Some (Inr [])) = Some y"
  have "loop looping_addons 0 = Some y" if "d = looping_addons" "k = 0"
    using body unfolding that
    by (simp add: Let_def looping_reads [unfolded One_nat_def] length_wraps)
  then show "\<not> (d = looping_addons \<and> k = 0)" using IH by blast
qed

lemma panicking_result: "parse_flow_loop panicking_addons 0 = Some (Inl Panic)"
  by (subst parse_flow_loop.simps) (simp add: panicking_reads [unfolded One_nat_def] Let_def length_wraps rslice_def)

lemma decode_prefix_hostile:
  assumes "length addons = 11"
  shows "decode_prefix (hostile_header addons @ rest) = Inr ((replicate 16 0, addons), rest)"
  using decode_prefix_addons [of "replicate 16 0" addons rest] assms by (simp add: hostile_header_def)

text \<open>
  Property C2. A single 29-byte header, sent before any authentication, makes the request
  decoder loop for ever: the unchecked \<^verbatim>\<open>cursor + len\<close> wraps and the addons loop revisits its
  start. With another field number the same length makes the slice of the flow panic. Addons of at
  most ten bytes always return.
\<close>

theorem decode_request_hostile_addons:
  "decode_request (hostile_header looping_addons @ rest) = None
   \<and> decode_request (hostile_header panicking_addons @ rest) = Some (Inl Panic)"
proof -
  have "parse_flow_loop looping_addons 0 = None" using looping_never_returns by (metis option.exhaust)
  moreover have "looping_addons \<noteq> []" "panicking_addons \<noteq> []"
    by (simp_all add: looping_addons_def panicking_addons_def)
  ultimately show ?thesis
    by (simp add: decode_request_def decode_prefix_hostile looping_reads panicking_reads
        parse_flow_from_addons_def panicking_result)
qed

lemma decode_prefix_shape:
  assumes "decode_prefix bs = Inr ((uuid, addons), rest)"
  shows "\<exists>n. bs = VLESS_VERSION # uuid @ n # addons @ rest \<and> length uuid = 16 \<and> length addons = unat n"
proof -
  from assms obtain n where "bs = VLESS_VERSION # uuid @ n # addons @ rest" "length uuid = 16"
    "0 < n \<and> length addons = unat n \<or> \<not> 0 < n \<and> addons = []"
    unfolding decode_prefix_def reader_eq if_bool_eq_disj by blast
  then show ?thesis by (auto simp: word_gt_0)
qed



section \<open>UDP packets\<close>

lemma length_encode_address_port:
  "encode_address_port a = Inr w \<Longrightarrow> 4 \<le> length w \<and> length w \<le> 259"
  using length_encode_host by (force simp: encode_address_port_def bindE_eq_Inr)

lemma decode_address_port_encode:
  assumes "wire_ok a" and "encode_address_port a = Inr w"
  shows "decode_address_port w = Inr a"
  using vless.dec_enc [OF assms, of "[]"] by (simp add: decode_address_port_def)

text \<open>
  A UDP packet written for a destination is read back as that destination, with
  the payload left on the stream. The payload carries no length: a packet with a longer payload
  writes the same bytes followed by the rest, so two datagrams that arrive together are one.
\<close>

theorem read_write_udp_packet:
  assumes "wire_ok dest" and "write_udp_packet dest payload = Inr w"
  shows "read_udp_header w = Inr (dest, payload)
    \<and> write_udp_packet dest (payload @ more_payload) = Inr (w @ more_payload)"
proof -
  from assms(2) obtain ab where ab: "encode_address_port dest = Inr ab"
    and w: "w = to_be 2 (of_nat (length ab) :: u16) @ ab @ payload"
    by (auto simp: write_udp_packet_def bindE_eq_Inr split: if_splits)
  have len: "4 \<le> length ab" "length ab \<le> 259" using length_encode_address_port [OF ab] by auto
  then have l: "unat (of_nat (length ab) :: u16) = length ab" by simp
  moreover from this len have "(of_nat (length ab) :: u16) \<noteq> 0" by (metis not_numeral_le_zero unat_0)
  ultimately have "read_udp_header w = Inr (dest, payload)"
    using len decode_address_port_encode [OF assms(1) ab]
    by (simp add: read_udp_header_def w wire_simps)
  then show ?thesis
    using ab len by (simp add: write_udp_packet_def w)
qed

theorem read_write_udp_packet_witness:
  "\<exists>w. write_udp_packet (Ipv4 0x08080808 53) [1, 2] = Inr w \<and> read_udp_header w = Inr (Ipv4 0x08080808 53, [1, 2])"
proof -
  have "wire_ok (Ipv4 0x08080808 53)" by simp
  moreover have "\<exists>w. write_udp_packet (Ipv4 0x08080808 53) [1, 2] = Inr w"
    by (simp add: write_udp_packet_def encode_address_port_def encode_host_def)
  ultimately show ?thesis using read_write_udp_packet by blast
qed

lemma wf_read_udp_header: "wf_reader read_udp_header"
  unfolding read_udp_header_def
proof (intro wf_rbind wf_read_u16 wf_reader_if wf_rfail wf_read_exact wf_rlift)
  fix bs show "decode_address_port bs \<noteq> Inl Panic"
    using vless.dec_no_panic [of bs] by (auto simp: decode_address_port_def bindE_eq_Inl)
qed

end
