(* ===== verification/MuxFrame.thy ===== *)
theory MuxFrame
  imports Vless
begin

text \<open>
  Mux.Cool frames (\<^verbatim>\<open>crates/blackwire-protocol/src/vless/mux.rs\<close>, first half): session
  metadata, the frame around it, its buffered parser and its streaming reader. The address section
  of a metadata block is the VLESS codec, used through the facts of its interpretation \<open>vless\<close>.
\<close>

section \<open>Data\<close>

abbreviation (input) "XUDP_SESSION_ID \<equiv> (0 :: u16)"
abbreviation (input) "OPT_DATA \<equiv> (1 :: u8)"
abbreviation (input) "MAX_META_LEN \<equiv> (512 :: nat)"
abbreviation (input) "MAX_DATA_LEN \<equiv> (512 * 1024 :: nat)"

datatype session_status = St_New | St_Keep | St_End | St_KeepAlive

definition status_byte :: "session_status \<Rightarrow> u8" where
  "status_byte s = (case s of St_New \<Rightarrow> 1 | St_Keep \<Rightarrow> 2 | St_End \<Rightarrow> 3 | St_KeepAlive \<Rightarrow> 4)"

definition status_from_byte :: "u8 \<Rightarrow> session_status result" where
  "status_from_byte b =
     (if b = 1 then Inr St_New else if b = 2 then Inr St_Keep else if b = 3 then Inr St_End
      else if b = 4 then Inr St_KeepAlive
      else Inl (Err (Protocol ''mux: unknown session status'')))"

datatype target_network = Net_Tcp | Net_Udp

definition network_byte :: "target_network \<Rightarrow> u8" where
  "network_byte n = (case n of Net_Tcp \<Rightarrow> 1 | Net_Udp \<Rightarrow> 2)"

definition network_from_byte :: "u8 \<Rightarrow> target_network result" where
  "network_from_byte b =
     (if b = 1 then Inr Net_Tcp else if b = 2 then Inr Net_Udp
      else Inl (Err (Protocol ''mux: unknown target network'')))"

record frame_metadata =
  fm_session_id :: u16
  fm_status :: session_status
  fm_option :: u8
  fm_target :: "(target_network \<times> address) option"
  fm_global_id :: "bytes option"

definition is_mux_cool_dest :: "address \<Rightarrow> bool" where
  "is_mux_cool_dest dest = (case dest of Domain host _ \<Rightarrow> host = MUX_COOL_DOMAIN | _ \<Rightarrow> False)"

definition is_mux_request :: "command \<Rightarrow> address \<Rightarrow> bool" where
  "is_mux_request command dest \<longleftrightarrow> command = Cmd_Mux \<or> is_mux_cool_dest dest"

section \<open>Metadata encoders\<close>

definition encode_new_metadata :: "u16 \<Rightarrow> address \<Rightarrow> u8 \<Rightarrow> bytes result" where
  "encode_new_metadata session_id dest opt =
     bindE (encode_address_port dest) (\<lambda>ab.
       Inr (to_be 2 session_id @ [status_byte St_New, opt, network_byte Net_Tcp] @ ab))"

definition encode_end_metadata :: "u16 \<Rightarrow> u8 \<Rightarrow> bytes" where
  "encode_end_metadata session_id opt = to_be 2 session_id @ [status_byte St_End, opt]"

definition encode_new_metadata_xudp :: "address \<Rightarrow> bytes \<Rightarrow> u8 \<Rightarrow> bytes result" where
  "encode_new_metadata_xudp dest global_id opt =
     bindE (encode_address_port dest) (\<lambda>ab.
       Inr (to_be 2 XUDP_SESSION_ID @ [status_byte St_New, opt, network_byte Net_Udp] @ ab @ global_id))"

definition encode_keep_metadata_udp :: "u16 \<Rightarrow> address \<Rightarrow> u8 \<Rightarrow> bytes result" where
  "encode_keep_metadata_udp session_id dest opt =
     bindE (encode_address_port dest) (\<lambda>ab.
       Inr (to_be 2 session_id @ [status_byte St_Keep, opt, network_byte Net_Udp] @ ab))"

definition encode_keep_metadata :: "u16 \<Rightarrow> u8 \<Rightarrow> bytes" where
  "encode_keep_metadata session_id opt = to_be 2 session_id @ [status_byte St_Keep, opt]"

definition encode_frame :: "bytes \<Rightarrow> bytes option \<Rightarrow> bytes result" where
  "encode_frame metadata payload =
     (if length metadata > MAX_META_LEN then Inl (Err (Protocol ''mux: metadata too long''))
      else let out = to_be 2 (of_nat (length metadata) :: u16) @ metadata in
        (case payload of
           None \<Rightarrow> Inr out
         | Some d \<Rightarrow>
             if length d > MAX_DATA_LEN then Inl (Err (Protocol ''mux: payload too long''))
             else Inr (out @ to_be 2 (of_nat (length d) :: u16) @ d)))"

section \<open>Metadata parser\<close>

text \<open>The network byte and address at the front of \<^verbatim>\<open>rest\<close>, and what follows them.\<close>

definition parse_target :: "bytes \<Rightarrow> (target_network \<times> address \<times> bytes) result" where
  "parse_target rest =
     bindE (idx rest 0) (\<lambda>b. bindE (network_from_byte b) (\<lambda>network.
       bindE (rslice rest 1 (length rest)) (\<lambda>rest1.
         bindE (decode_address_port_with_len rest1) (\<lambda>(addr, consumed).
           bindE (rslice rest1 consumed (length rest1)) (\<lambda>rest2. Inr (network, addr, rest2))))))"

text \<open>\<^verbatim>\<open>skip_mux_inbound_extensions\<close>: the \<^verbatim>\<open>for\<close> loop counts down from two.\<close>

fun skip_extensions :: "nat \<Rightarrow> bytes \<Rightarrow> bytes result" where
  "skip_extensions 0 rest = Inr rest"
| "skip_extensions (Suc n) rest =
     (if rest = [] then Inr rest
      else bindE (idx rest 0) (\<lambda>b.
        if b = 0 then bindE (rslice rest 1 (length rest)) (skip_extensions n)
        else bindE (parse_target rest) (\<lambda>(_, _, rest'). skip_extensions n rest')))"

definition skip_mux_inbound_extensions :: "bytes \<Rightarrow> bytes result" where
  "skip_mux_inbound_extensions rest = skip_extensions 2 rest"

definition parse_new_target :: "u8 \<Rightarrow> bytes \<Rightarrow> ((target_network \<times> address) option \<times> bytes option) result" where
  "parse_new_target option rest =
     (if rest = [] then Inl (Err (Protocol ''mux: New missing target''))
      else bindE (parse_target rest) (\<lambda>(network, addr, rest1).
        bindE (if network = Net_Tcp then skip_mux_inbound_extensions rest1 else Inr rest1) (\<lambda>rest2.
          if network = Net_Udp \<and> option AND OPT_DATA \<noteq> 0 \<and> length rest2 \<ge> 8
          then Inr (Some (network, addr), Some (take 8 rest2))
          else Inr (Some (network, addr), None))))"

definition parse_keep_target :: "bytes \<Rightarrow> (target_network \<times> address) option result" where
  "parse_keep_target rest =
     (if rest \<noteq> [] \<and> network_from_byte (hd rest) = Inr Net_Udp
      then bindE (rslice rest 1 (length rest)) (\<lambda>rest1.
        bindE (decode_address_port_with_len rest1) (\<lambda>(addr, _). Inr (Some (Net_Udp, addr))))
      else Inr None)"

definition parse_metadata :: "bytes \<Rightarrow> frame_metadata result" where
  "parse_metadata meta =
     (if length meta < 4 then Inl (Err (Protocol ''mux: metadata too short''))
      else bindE (rslice meta 0 2) (\<lambda>sid. bindE (idx meta 2) (\<lambda>sb. bindE (status_from_byte sb) (\<lambda>status.
        bindE (idx meta 3) (\<lambda>option. bindE (rslice meta 4 (length meta)) (\<lambda>rest.
          bindE (if status = St_New then parse_new_target option rest
                 else if status = St_Keep then bindE (parse_keep_target rest) (\<lambda>t. Inr (t, None))
                 else Inr (None, None)) (\<lambda>(target, global_id).
            Inr \<lparr>fm_session_id = from_be sid, fm_status = status, fm_option = option,
                 fm_target = target, fm_global_id = global_id\<rparr>)))))))"

definition is_xudp_metadata :: "frame_metadata \<Rightarrow> bool" where
  "is_xudp_metadata meta \<longleftrightarrow>
     fm_session_id meta = XUDP_SESSION_ID
     \<and> (case fm_target meta of Some (Net_Udp, _) \<Rightarrow> True | _ \<Rightarrow> False)
     \<and> (fm_status meta = St_Keep \<or> fm_status meta = St_New \<and> fm_global_id meta \<noteq> None)"

section \<open>Frames\<close>

definition parse_frame :: "bytes \<Rightarrow> (frame_metadata \<times> bytes option \<times> nat) result" where
  "parse_frame buf =
     (if length buf < 2 then Inl (Err (Protocol ''mux: frame too short''))
      else bindE (rslice buf 0 2) (\<lambda>lb. let meta_len = unat (from_be lb :: u16) in
        if meta_len > MAX_META_LEN then Inl (Err (Protocol ''mux: invalid metadata length''))
        else let need = 2 + meta_len in
          if length buf < need then Inl (Err (Protocol ''mux: truncated metadata''))
          else bindE (rslice buf 2 need) (\<lambda>mb. bindE (parse_metadata mb) (\<lambda>meta.
            if fm_option meta AND OPT_DATA \<noteq> 0 then
              if length buf < need + 2 then Inl (Err (Protocol ''mux: truncated payload length''))
              else bindE (rslice buf need (need + 2)) (\<lambda>db. let data_len = unat (from_be db :: u16) in
                if data_len > MAX_DATA_LEN then Inl (Err (Protocol ''mux: invalid payload length''))
                else let consumed = need + 2 + data_len in
                  if length buf < consumed then Inl (Err (Protocol ''mux: truncated payload''))
                  else bindE (rslice buf (need + 2) consumed) (\<lambda>d. Inr (meta, Some d, consumed)))
            else Inr (meta, None, need)))))"

definition read_mux_frame :: "(frame_metadata \<times> bytes option) reader" where
  "read_mux_frame =
     rbind read_u16 (\<lambda>meta_len.
       if unat meta_len > MAX_META_LEN then rfail (Protocol ''mux: invalid metadata length'')
       else rbind (read_exact (unat meta_len)) (\<lambda>meta_buf.
         rbind (rlift (parse_metadata meta_buf)) (\<lambda>meta.
           if fm_option meta AND OPT_DATA \<noteq> 0 then
             rbind read_u16 (\<lambda>data_len.
               if unat data_len > MAX_DATA_LEN then rfail (Protocol ''mux: invalid payload length'')
               else rbind (if data_len > 0 then read_exact (unat data_len) else rret []) (\<lambda>d.
                 rret (meta, Some d)))
           else rret (meta, None))))"

text \<open>The bytes \<^verbatim>\<open>write_mux_frame\<close> puts on the stream.\<close>

definition write_mux_frame :: "bytes \<Rightarrow> bytes \<Rightarrow> bytes option \<Rightarrow> bytes result" where
  "write_mux_frame stream metadata payload = bindE (encode_frame metadata payload) (\<lambda>frame. Inr (stream @ frame))"

section \<open>The parsers never panic\<close>

lemma status_round [simp]: "status_from_byte (status_byte s) = Inr s"
  by (cases s) (simp_all add: status_byte_def status_from_byte_def)

lemma network_round [simp]: "network_from_byte (network_byte n) = Inr n"
  by (cases n) (simp_all add: network_byte_def network_from_byte_def)

lemma network_from_byte_no_panic: "network_from_byte b \<noteq> Inl Panic"
  by (simp add: network_from_byte_def)

lemma status_from_byte_no_panic: "status_from_byte b \<noteq> Inl Panic"
  by (simp add: status_from_byte_def)

lemma parse_target_Cons:
  "parse_target (b # r) = bindE (network_from_byte b) (\<lambda>network.
     bindE (decode_address_port_with_len r) (\<lambda>(addr, consumed). Inr (network, addr, drop consumed r)))"
proof (cases "decode_address_port_with_len r")
  case (Inr x)
  then obtain a n where "decode_address_port_with_len r = Inr (a, n)" by (cases x) auto
  then show ?thesis using vless.dec_bound by (auto simp: parse_target_def bindE_def split: sum.splits)
qed (auto simp: parse_target_def bindE_def split: sum.splits)

lemma parse_target_no_panic: "rest \<noteq> [] \<Longrightarrow> parse_target rest \<noteq> Inl Panic"
  using vless.dec_no_panic network_from_byte_no_panic
  by (cases rest) (auto simp: parse_target_Cons bindE_eq_Inl)

lemma skip_extensions_no_panic: "skip_extensions n rest \<noteq> Inl Panic"
proof (induction n arbitrary: rest)
  case (Suc n)
  then show ?case using parse_target_no_panic [of rest] by (cases rest) (auto simp: bindE_eq_Inl)
qed simp

lemma parse_new_target_no_panic: "parse_new_target opt rest \<noteq> Inl Panic"
  using parse_target_no_panic [of rest] skip_extensions_no_panic
  by (auto simp: parse_new_target_def bindE_eq_Inl skip_mux_inbound_extensions_def split: if_splits)

lemma parse_keep_target_Cons:
  "parse_keep_target (b # r) = (if network_from_byte b = Inr Net_Udp
     then bindE (decode_address_port_with_len r) (\<lambda>(addr, _). Inr (Some (Net_Udp, addr))) else Inr None)"
  by (simp add: parse_keep_target_def)

lemma parse_keep_target_no_panic: "parse_keep_target rest \<noteq> Inl Panic"
  using vless.dec_no_panic by (cases rest) (auto simp: parse_keep_target_Cons parse_keep_target_def bindE_eq_Inl)

text \<open>\<^verbatim>\<open>parse_metadata\<close> on a block given by its four leading bytes.\<close>

lemma parse_metadata_layout:
  "parse_metadata (to_be 2 sid @ [sb, opt] @ rest) =
     bindE (status_from_byte sb) (\<lambda>status.
       bindE (if status = St_New then parse_new_target opt rest
              else if status = St_Keep then bindE (parse_keep_target rest) (\<lambda>t. Inr (t, None))
              else Inr (None, None)) (\<lambda>(target, global_id).
         Inr \<lparr>fm_session_id = sid, fm_status = status, fm_option = opt,
              fm_target = target, fm_global_id = global_id\<rparr>))"
  by (simp add: parse_metadata_def nth_append)

lemma metadata_split:
  assumes "4 \<le> length meta"
  obtains sid sb opt rest where "meta = to_be 2 (sid :: u16) @ [sb, opt] @ rest"
proof -
  have "to_be 2 (from_be (take 2 meta) :: u16) = take 2 meta"
    using assms by (intro to_be_from_be) auto
  moreover have "meta = take 2 meta @ [meta ! 2, meta ! 3] @ drop 4 meta"
    using assms by (rule split_2_4)
  ultimately show ?thesis using that by metis
qed

lemma parse_metadata_no_panic: "parse_metadata meta \<noteq> Inl Panic"
proof (cases "length meta < 4")
  case False
  then obtain sid sb opt rest where m: "meta = to_be 2 (sid :: u16) @ [sb, opt] @ rest"
    by (meson metadata_split not_less)
  show ?thesis
    using status_from_byte_no_panic parse_new_target_no_panic parse_keep_target_no_panic
    unfolding m parse_metadata_layout by (auto simp: bindE_eq_Inl split: if_splits)
qed (simp add: parse_metadata_def)

lemma wf_read_mux_frame: "wf_reader read_mux_frame"
  unfolding read_mux_frame_def
  by (intro wf_rbind wf_read_u16 wf_reader_if wf_rfail wf_read_exact wf_rlift wf_rret parse_metadata_no_panic)

section \<open>Round trips\<close>

lemma parse_target_encode:
  assumes "wire_ok dest" and "encode_address_port dest = Inr ab"
  shows "parse_target (network_byte n # ab @ rest) = Inr (n, dest, rest)"
  using vless.dec_enc [OF assms, of rest] by (simp add: parse_target_Cons)

lemma parse_keep_target_encode:
  assumes "wire_ok dest" and "encode_address_port dest = Inr ab"
  shows "parse_keep_target (network_byte Net_Udp # ab) = Inr (Some (Net_Udp, dest))"
  using vless.dec_enc [OF assms, of "[]"] by (simp add: parse_keep_target_Cons)

lemma parse_new_target_tcp:
  assumes "wire_ok dest" and "encode_address_port dest = Inr ab"
  shows "parse_new_target opt (network_byte Net_Tcp # ab) = Inr (Some (Net_Tcp, dest), None)"
  using parse_target_encode [OF assms, of Net_Tcp "[]"]
  by (simp add: parse_new_target_def skip_mux_inbound_extensions_def numeral_2_eq_2)

lemma parse_new_target_xudp:
  assumes "wire_ok dest" and "encode_address_port dest = Inr ab" and "length gid = 8"
  shows "parse_new_target opt (network_byte Net_Udp # ab @ gid) =
    Inr (Some (Net_Udp, dest), if opt AND OPT_DATA \<noteq> 0 then Some gid else None)"
  using parse_target_encode [OF assms(1,2), of Net_Udp gid] assms(3) by (simp add: parse_new_target_def)

text \<open>
  Every metadata block the sender can build is parsed back to the session,
  status, option, target and global id it was built from, for every destination that fits the wire.
\<close>

theorem parse_encoded_metadata:
  assumes "wire_ok dest" and "length gid = 8"
  shows "bindE (encode_new_metadata sid dest opt) parse_metadata =
      Inr \<lparr>fm_session_id = sid, fm_status = St_New, fm_option = opt,
           fm_target = Some (Net_Tcp, dest), fm_global_id = None\<rparr>
    \<and> bindE (encode_new_metadata_xudp dest gid opt) parse_metadata =
      Inr \<lparr>fm_session_id = XUDP_SESSION_ID, fm_status = St_New, fm_option = opt,
           fm_target = Some (Net_Udp, dest),
           fm_global_id = (if opt AND OPT_DATA \<noteq> 0 then Some gid else None)\<rparr>
    \<and> bindE (encode_keep_metadata_udp sid dest opt) parse_metadata =
      Inr \<lparr>fm_session_id = sid, fm_status = St_Keep, fm_option = opt,
           fm_target = Some (Net_Udp, dest), fm_global_id = None\<rparr>
    \<and> parse_metadata (encode_keep_metadata sid opt) =
      Inr \<lparr>fm_session_id = sid, fm_status = St_Keep, fm_option = opt,
           fm_target = None, fm_global_id = None\<rparr>
    \<and> parse_metadata (encode_end_metadata sid opt) =
      Inr \<lparr>fm_session_id = sid, fm_status = St_End, fm_option = opt,
           fm_target = None, fm_global_id = None\<rparr>"
proof -
  obtain ab where ab: "encode_address_port dest = Inr ab" using vless.enc_total assms(1) by blast
  note layout = parse_metadata_layout [where rest = "_ # _"] parse_metadata_layout [where rest = "[]"]
  have short: "parse_keep_target [] = Inr None" by (simp add: parse_keep_target_def)
  show ?thesis
    using layout [of sid] layout [of XUDP_SESSION_ID] assms ab
    by (simp add: encode_new_metadata_def encode_new_metadata_xudp_def encode_keep_metadata_udp_def
        encode_keep_metadata_def encode_end_metadata_def short
        parse_new_target_tcp parse_new_target_xudp parse_keep_target_encode)
qed

theorem parse_encoded_metadata_witness:
  "parse_metadata (encode_end_metadata 7 0) = Inr \<lparr>fm_session_id = 7, fm_status = St_End, fm_option = 0,
     fm_target = None, fm_global_id = None\<rparr>
   \<and> bindE (encode_new_metadata_xudp (Ipv4 1 53) [1, 2, 3, 4, 5, 6, 7, 8] 1) parse_metadata =
      Inr \<lparr>fm_session_id = 0, fm_status = St_New, fm_option = 1, fm_target = Some (Net_Udp, Ipv4 1 53),
           fm_global_id = Some [1, 2, 3, 4, 5, 6, 7, 8]\<rparr>"
  using parse_encoded_metadata [of "Ipv4 1 53" "[1, 2, 3, 4, 5, 6, 7, 8]" 7 0]
    parse_encoded_metadata [of "Ipv4 1 53" "[1, 2, 3, 4, 5, 6, 7, 8]" 7 1] by simp

lemma parse_frame_data:
  assumes "length md \<le> MAX_META_LEN" and "parse_metadata md = Inr meta" and "fm_option meta AND OPT_DATA \<noteq> 0"
  shows "parse_frame (to_be 2 (of_nat (length md) :: u16) @ md @ to_be 2 (l :: u16) @ r) =
    (if length r < unat l then Inl (Err (Protocol ''mux: truncated payload''))
     else Inr (meta, Some (take (unat l) r), 4 + length md + unat l))"
proof -
  have "unat (of_nat (length md) :: u16) = length md" using assms(1) by simp
  moreover have "\<not> MAX_DATA_LEN < unat l" using unat_u16_bound [of l] by linarith
  ultimately show ?thesis using assms by (simp add: parse_frame_def Let_def)
qed

lemma parse_frame_no_data:
  assumes "length md \<le> MAX_META_LEN" and "parse_metadata md = Inr meta" and "fm_option meta AND OPT_DATA = 0"
  shows "parse_frame (to_be 2 (of_nat (length md) :: u16) @ md @ r) = Inr (meta, None, 2 + length md)"
proof -
  have "unat (of_nat (length md) :: u16) = length md" using assms(1) by simp
  then show ?thesis using assms by (simp add: parse_frame_def Let_def)
qed

text \<open>
  A frame whose payload is present exactly when the data option is set, and whose
  payload has at most 65535 bytes, is parsed back with its metadata, its payload and its exact length,
  whatever follows it in the buffer.
\<close>

theorem parse_encoded_frame:
  assumes "encode_frame md payload = Inr w" and "parse_metadata md = Inr meta"
    and "payload \<noteq> None \<longleftrightarrow> fm_option meta AND OPT_DATA \<noteq> 0"
    and "\<forall>d. payload = Some d \<longrightarrow> length d \<le> 65535"
  shows "parse_frame (w @ rest) = Inr (meta, payload, length w)"
proof (cases payload)
  case None
  then show ?thesis using assms parse_frame_no_data [of md meta rest]
    by (auto simp: encode_frame_def Let_def split: if_splits)
next
  case (Some d)
  then have "unat (of_nat (length d) :: u16) = length d" using assms(4) by simp
  then show ?thesis using Some assms parse_frame_data [of md meta "of_nat (length d)" "d @ rest"]
    by (auto simp: encode_frame_def Let_def split: if_splits)
qed

theorem parse_encoded_frame_witness:
  "\<exists>w. encode_frame (encode_keep_metadata 5 1) (Some [9, 9]) = Inr w
     \<and> parse_frame (w @ [7]) = Inr (\<lparr>fm_session_id = 5, fm_status = St_Keep, fm_option = 1,
          fm_target = None, fm_global_id = None\<rparr>, Some [9, 9], length w)"
proof -
  let ?m = "\<lparr>fm_session_id = 5, fm_status = St_Keep, fm_option = 1, fm_target = None, fm_global_id = None\<rparr>"
  have "parse_metadata (encode_keep_metadata 5 1) = Inr ?m" by code_simp
  moreover have "\<exists>w. encode_frame (encode_keep_metadata 5 1) (Some [9, 9]) = Inr w"
    by (simp add: encode_frame_def encode_keep_metadata_def)
  ultimately show ?thesis
    using parse_encoded_frame [of "encode_keep_metadata 5 1" "Some [9, 9]" _ ?m "[7]"] by auto
qed

text \<open>
  \<^verbatim>\<open>encode_frame\<close> accepts payloads of up to 512 KiB but writes their length into
  sixteen bits: above 65535 bytes the receiver sees only the payload's first \<open>length mod 65536\<close> bytes and
  takes the rest for further frames.
\<close>

theorem encode_frame_truncates:
  assumes "65535 < length d" and "length d \<le> MAX_DATA_LEN" and "length md \<le> MAX_META_LEN"
    and "parse_metadata md = Inr meta" and "fm_option meta AND OPT_DATA \<noteq> 0"
  shows "\<exists>w. encode_frame md (Some d) = Inr w \<and> parse_frame w =
    Inr (meta, Some (take (length d mod 65536) d), 4 + length md + length d mod 65536)
    \<and> 4 + length md + length d mod 65536 < length w"
proof -
  let ?l = "of_nat (length d) :: u16"
  have l: "unat ?l = length d mod 65536" by (simp add: unat_of_nat)
  have "\<not> length d < length d mod 65536" by (simp add: not_less)
  moreover have "length d mod 65536 < 65536" by simp
  then have "length d mod 65536 < length d" using assms(1) by linarith
  ultimately show ?thesis
    using assms parse_frame_data [OF assms(3-5), of ?l d] l by (simp add: encode_frame_def Let_def)
qed

theorem encode_frame_truncates_witness:
  "\<exists>w. encode_frame (encode_keep_metadata 5 1) (Some (replicate 65540 0)) = Inr w
     \<and> parse_frame w = Inr (\<lparr>fm_session_id = 5, fm_status = St_Keep, fm_option = 1,
          fm_target = None, fm_global_id = None\<rparr>, Some [0, 0, 0, 0], 12) \<and> 12 < length w"
proof -
  let ?m = "\<lparr>fm_session_id = 5, fm_status = St_Keep, fm_option = 1, fm_target = None, fm_global_id = None\<rparr>"
  have "parse_metadata (encode_keep_metadata 5 1) = Inr ?m" by code_simp
  moreover define d :: bytes where "d = replicate 65540 0"
  then have d: "length d = 65540" by (simp only: length_replicate)
  have "take 4 d = replicate 4 0" unfolding d_def by (simp only: take_replicate) simp
  then have "take 4 d = [0, 0, 0, 0]" by (simp add: numeral_eq_Suc)
  ultimately show ?thesis
    using encode_frame_truncates [of d "encode_keep_metadata 5 1" ?m] d
    unfolding d_def [symmetric] by (simp add: encode_keep_metadata_def)
qed

section \<open>The buffered parser and the streaming reader agree\<close>

definition frame_layout :: "bytes \<Rightarrow> frame_metadata \<Rightarrow> bytes option \<Rightarrow> bytes \<Rightarrow> bool" where
  "frame_layout buf meta payload rest \<longleftrightarrow>
     (\<exists>md. length md \<le> MAX_META_LEN \<and> parse_metadata md = Inr meta
       \<and> (if fm_option meta AND OPT_DATA \<noteq> 0
          then \<exists>d. payload = Some d \<and> length d \<le> 65535
            \<and> buf = to_be 2 (of_nat (length md) :: u16) @ md @ to_be 2 (of_nat (length d) :: u16) @ d @ rest
          else payload = None \<and> buf = to_be 2 (of_nat (length md) :: u16) @ md @ rest))"

lemma of_nat_length_u16: "length xs = unat (l :: u16) \<Longrightarrow> of_nat (length xs) = l"
  by simp

lemma read_mux_frame_layout:
  "read_mux_frame buf = Inr ((meta, payload), rest) \<longleftrightarrow> frame_layout buf meta payload rest"
proof
  assume "read_mux_frame buf = Inr ((meta, payload), rest)"
  then obtain l md mid where *: "buf = to_be 2 (l :: u16) @ md @ mid" "unat l \<le> MAX_META_LEN"
      "length md = unat l" "parse_metadata md = Inr meta"
      "fm_option meta AND OPT_DATA \<noteq> 0 \<and> (\<exists>(k :: u16) d. mid = to_be 2 k @ d @ rest
         \<and> (0 < k \<and> length d = unat k \<or> \<not> 0 < k \<and> d = []) \<and> payload = Some d)
       \<or> \<not> fm_option meta AND OPT_DATA \<noteq> 0 \<and> payload = None \<and> mid = rest"
    unfolding read_mux_frame_def reader_eq if_bool_eq_disj prod.inject not_less by blast
  have len: "length d = unat k" if "0 < k \<and> length d = unat k \<or> \<not> 0 < k \<and> d = []" for k :: u16 and d :: bytes
    using that by (cases "k = 0") (auto simp: word_gt_0)
  show "frame_layout buf meta payload rest"
    unfolding frame_layout_def
  proof (rule exI [of _ md], intro conjI)
    show "length md \<le> MAX_META_LEN" "parse_metadata md = Inr meta" using * by auto
    show "if fm_option meta AND OPT_DATA \<noteq> 0
          then \<exists>d. payload = Some d \<and> length d \<le> 65535
            \<and> buf = to_be 2 (of_nat (length md) :: u16) @ md @ to_be 2 (of_nat (length d) :: u16) @ d @ rest
          else payload = None \<and> buf = to_be 2 (of_nat (length md) :: u16) @ md @ rest"
    proof (cases "fm_option meta AND OPT_DATA = 0")
      case False
      with *(5) obtain k :: u16 and d where k: "mid = to_be 2 k @ d @ rest" "length d = unat k" "payload = Some d"
        using len by blast
      then have "length d \<le> 65535" using unat_u16_bound [of k] by linarith
      then show ?thesis using False * k by simp
    qed (use * in simp)
  qed
next
  assume "frame_layout buf meta payload rest"
  then obtain md where md: "length md \<le> MAX_META_LEN" "parse_metadata md = Inr meta"
      "if fm_option meta AND OPT_DATA \<noteq> 0
       then \<exists>d. payload = Some d \<and> length d \<le> 65535
         \<and> buf = to_be 2 (of_nat (length md) :: u16) @ md @ to_be 2 (of_nat (length d) :: u16) @ d @ rest
       else payload = None \<and> buf = to_be 2 (of_nat (length md) :: u16) @ md @ rest"
    unfolding frame_layout_def by blast
  show "read_mux_frame buf = Inr ((meta, payload), rest)"
  proof (cases "fm_option meta AND OPT_DATA = 0")
    case True
    then show ?thesis using md by (simp add: read_mux_frame_def wire_simps)
  next
    case False
    then obtain d where d: "payload = Some d" "length d \<le> 65535"
       "buf = to_be 2 (of_nat (length md) :: u16) @ md @ to_be 2 (of_nat (length d) :: u16) @ d @ rest"
      using md(3) by auto
    have "unat (of_nat (length d) :: u16) = length d" using d(2) by simp
    then have "0 < (of_nat (length d) :: u16) \<or> d = []" by (metis length_0_conv unat_0 word_gt_0)
    then show ?thesis using md d False by (auto simp: read_mux_frame_def wire_simps)
  qed
qed

lemma parse_frame_of_layout:
  assumes "frame_layout buf meta payload rest"
  shows "parse_frame buf = Inr (meta, payload, length buf - length rest)"
proof -
  from assms obtain md where md: "length md \<le> MAX_META_LEN" "parse_metadata md = Inr meta"
      "if fm_option meta AND OPT_DATA \<noteq> 0
       then \<exists>d. payload = Some d \<and> length d \<le> 65535
         \<and> buf = to_be 2 (of_nat (length md) :: u16) @ md @ to_be 2 (of_nat (length d) :: u16) @ d @ rest
       else payload = None \<and> buf = to_be 2 (of_nat (length md) :: u16) @ md @ rest"
    unfolding frame_layout_def by blast
  show ?thesis
  proof (cases "fm_option meta AND OPT_DATA = 0")
    case True
    then show ?thesis using md parse_frame_no_data [OF md(1,2) True] by simp
  next
    case False
    then obtain d where d: "payload = Some d" "length d \<le> 65535"
       "buf = to_be 2 (of_nat (length md) :: u16) @ md @ to_be 2 (of_nat (length d) :: u16) @ d @ rest"
      using md(3) by auto
    then show ?thesis using parse_frame_data [OF md(1,2) False, of "of_nat (length d)" "d @ rest"] by simp
  qed
qed

lemma split_at_u16:
  assumes "2 \<le> length (bs :: bytes)"
  obtains l r where "bs = to_be 2 (l :: u16) @ r"
  using assms to_be_from_be [of "take 2 bs" 2, where 'a = 16] that [of "from_be (take 2 bs)" "drop 2 bs"]
  by simp

lemma layout_of_parse_frame:
  assumes "parse_frame buf = Inr (meta, payload, n)"
  shows "frame_layout buf meta payload (drop n buf) \<and> n \<le> length buf"
proof -
  from assms have "2 \<le> length buf" by (auto simp: parse_frame_def split: if_splits)
  then obtain l :: u16 and r where buf: "buf = to_be 2 l @ r" by (rule split_at_u16)
  then have l: "unat l \<le> MAX_META_LEN" "unat l \<le> length r"
    using assms by (auto simp: parse_frame_def Let_def split: if_splits)
  define md where "md = take (unat l) r"
  define mid where "mid = drop (unat l) r"
  have r: "r = md @ mid" and md: "length md = unat l" using l by (auto simp: md_def mid_def)
  have head: "to_be 2 (of_nat (length md) :: u16) = to_be 2 l" by (simp add: md)
  have pm: "parse_metadata md = Inr meta"
    using assms l by (auto simp: parse_frame_def Let_def buf md_def bindE_eq_Inr split: if_splits)
  show ?thesis
  proof (cases "fm_option meta AND OPT_DATA = 0")
    case True
    have "parse_frame buf = Inr (meta, None, 2 + length md)"
      using parse_frame_no_data [OF _ pm True, of mid] l md by (simp add: buf r)
    then show ?thesis using assms True pm l md
      by (auto simp: frame_layout_def buf r intro!: exI [of _ md])
  next
    case False
    then have "2 \<le> length mid"
      using assms l pm by (auto simp: parse_frame_def Let_def buf md_def [symmetric] mid_def split: if_splits)
    then obtain k :: u16 and q where mid: "mid = to_be 2 k @ q" by (rule split_at_u16)
    have "parse_frame buf = (if length q < unat k then Inl (Err (Protocol ''mux: truncated payload''))
        else Inr (meta, Some (take (unat k) q), 4 + length md + unat k))"
      using parse_frame_data [OF _ pm False, of k q] l md by (simp add: buf r mid)
    then have k: "unat k \<le> length q" "payload = Some (take (unat k) q)" "n = 4 + length md + unat k"
      using assms by (auto split: if_splits)
    have "drop n buf = drop (unat k) q" by (simp add: buf r mid k(3))
    moreover have "length (take (unat k) q) \<le> 65535" using k(1) by simp
    ultimately show ?thesis using False pm l md k
      by (auto simp: frame_layout_def buf r mid intro!: exI [of _ md])
  qed
qed

lemma parse_frame_no_panic: "parse_frame buf \<noteq> Inl Panic"
  using parse_metadata_no_panic by (auto simp: parse_frame_def Let_def bindE_eq_Inl split: if_splits)

text \<open>
  Property C14. The buffered parser and the streaming reader accept the same frames: one yields
  a metadata block and payload exactly when the other does, and the length the parser reports is the number
  of bytes the reader takes from the stream. Neither ever panics on any input.
\<close>

theorem parse_frame_read_mux_frame:
  "(parse_frame buf = Inr (meta, payload, n)
     \<longleftrightarrow> n \<le> length buf \<and> read_mux_frame buf = Inr ((meta, payload), drop n buf))
   \<and> parse_frame buf \<noteq> Inl Panic \<and> read_mux_frame buf \<noteq> Inl Panic"
  using layout_of_parse_frame [of buf meta payload n] parse_frame_of_layout [of buf meta payload "drop n buf"]
    parse_frame_no_panic [of buf] wf_reader_no_panic [OF wf_read_mux_frame, of buf]
  by (auto simp: read_mux_frame_layout)

end
