(* ===== verification/MuxRelay.thy ===== *)
theory MuxRelay
  imports MuxFrame "HOL-Library.AList"
begin

text \<open>
  The Mux.Cool demultiplexer (\<^verbatim>\<open>mux.rs\<close>, second half): \<^verbatim>\<open>relay_mux_cool\<close> and the three
  reader tasks. The session tables are association lists, a reader task is a number, and the state keeps
  which tasks are running and the I/O performed so far. What the operating system, the resolver and the
  dispatcher answer is a parameter: \<open>io_result\<close> gives the outcome of an effect after the effects before it.
\<close>

section \<open>State, effects and actions\<close>

type_synonym task = nat

datatype effect =
    Connect_outbound task address
  | Upstream_write task bytes
  | Upstream_shutdown task
  | Udp_bind task
  | Udp_connect task socket_addr
  | Udp_send task bytes
  | Udp_send_to task socket_addr bytes

record env =
  io_result :: "effect list \<Rightarrow> effect \<Rightarrow> proxy_error option"
  lookup_host :: "rstr \<Rightarrow> u16 \<Rightarrow> socket_addr list option"

record mux_state =
  sessions :: "(u16 \<times> task) list"
  udp_sessions :: "(u16 \<times> task \<times> address) list"
  xudp_sessions :: "(bytes \<times> task) list"
  active_xudp :: "bytes option"
  running :: "task set"
  next_task :: task
  trace :: "effect list"

definition mux_init :: mux_state where
  "mux_init = \<lparr>sessions = [], udp_sessions = [], xudp_sessions = [], active_xudp = None,
     running = {}, next_task = 0, trace = []\<rparr>"

type_synonym 'a act = "mux_state \<Rightarrow> 'a result \<times> mux_state"

definition act_ret :: "'a \<Rightarrow> 'a act" where
  "act_ret a st = (Inr a, st)"

definition act_lift :: "'a result \<Rightarrow> 'a act" where
  "act_lift r st = (r, st)"

definition act_upd :: "(mux_state \<Rightarrow> mux_state) \<Rightarrow> unit act" where
  "act_upd f st = (Inr (), f st)"

definition act_bind :: "'a act \<Rightarrow> ('a \<Rightarrow> 'b act) \<Rightarrow> 'b act" where
  "act_bind m f st = (case m st of (Inl e, st') \<Rightarrow> (Inl e, st') | (Inr a, st') \<Rightarrow> f a st')"

text \<open>\<^verbatim>\<open>let _ = ...\<close>: the error is dropped, the effect stays.\<close>

definition attempt :: "unit act \<Rightarrow> unit act" where
  "attempt m st = (Inr (), snd (m st))"

definition perform :: "env \<Rightarrow> (proxy_error \<Rightarrow> proxy_error) \<Rightarrow> effect \<Rightarrow> unit act" where
  "perform env conv e st =
     (case io_result env (trace st) e of
        None \<Rightarrow> (Inr (), st\<lparr>trace := trace st @ [e]\<rparr>)
      | Some err \<Rightarrow> (Inl (Err (conv err)), st\<lparr>trace := trace st @ [e]\<rparr>))"

definition when_data :: "bytes option \<Rightarrow> (bytes \<Rightarrow> unit act) \<Rightarrow> unit act" where
  "when_data payload f = (case payload of Some d \<Rightarrow> if d \<noteq> [] then f d else act_ret () | None \<Rightarrow> act_ret ())"

section \<open>Frame handlers\<close>

definition socket_addr_to_address :: "socket_addr \<Rightarrow> address" where
  "socket_addr_to_address peer =
     (case peer of SocketAddr (V4 a) p \<Rightarrow> Ipv4 a p | SocketAddr (V6 a) p \<Rightarrow> Ipv6 a p)"

definition resolve_udp_dest :: "env \<Rightarrow> address \<Rightarrow> socket_addr result" where
  "resolve_udp_dest env dest = (case dest of
      Ipv4 a p \<Rightarrow> Inr (SocketAddr (V4 a) p)
    | Ipv6 a p \<Rightarrow> Inr (SocketAddr (V6 a) p)
    | Domain name p \<Rightarrow> (case lookup_host env name p of
         Some (s # _) \<Rightarrow> Inr s
       | _ \<Rightarrow> Inl (Err (DnsResolutionFailed name))))"

definition spawn :: "task \<Rightarrow> mux_state \<Rightarrow> mux_state" where
  "spawn t st = st\<lparr>running := insert t (running st), next_task := Suc t\<rparr>"

definition drop_xudp :: "bytes \<Rightarrow> mux_state \<Rightarrow> mux_state" where
  "drop_xudp gid st = (case map_of (xudp_sessions st) gid of
      None \<Rightarrow> st
    | Some old \<Rightarrow> st\<lparr>xudp_sessions := AList.delete gid (xudp_sessions st), running := running st - {old}\<rparr>)"

definition new_xudp :: "env \<Rightarrow> task \<Rightarrow> address \<Rightarrow> bytes \<Rightarrow> bytes option \<Rightarrow> unit act" where
  "new_xudp env t dest gid payload =
     act_bind (act_upd (drop_xudp gid)) (\<lambda>_.
     act_bind (perform env (\<lambda>_. Transport ''xudp bind'') (Udp_bind t)) (\<lambda>_.
     act_bind (when_data payload (\<lambda>d. act_bind (act_lift (resolve_udp_dest env dest)) (\<lambda>upstream.
       perform env (\<lambda>_. Transport ''xudp UDP send'') (Udp_send_to t upstream d)))) (\<lambda>_.
     act_upd (\<lambda>st. (spawn t st)\<lparr>xudp_sessions := AList.update gid t (xudp_sessions st),
       active_xudp := Some gid\<rparr>))))"

definition new_tcp :: "env \<Rightarrow> task \<Rightarrow> u16 \<Rightarrow> address \<Rightarrow> bytes option \<Rightarrow> unit act" where
  "new_tcp env t sid dest payload =
     act_bind (perform env (\<lambda>e. e) (Connect_outbound t dest)) (\<lambda>_.
     act_bind (when_data payload (\<lambda>d. perform env (\<lambda>e. e) (Upstream_write t d))) (\<lambda>_.
     act_upd (\<lambda>st. (spawn t st)\<lparr>sessions := AList.update sid t (sessions st)\<rparr>)))"

definition new_udp :: "env \<Rightarrow> task \<Rightarrow> u16 \<Rightarrow> address \<Rightarrow> bytes option \<Rightarrow> unit act" where
  "new_udp env t sid dest payload =
     act_bind (perform env (\<lambda>_. Transport ''mux UDP bind'') (Udp_bind t)) (\<lambda>_.
     act_bind (act_lift (resolve_udp_dest env dest)) (\<lambda>upstream.
     act_bind (perform env (\<lambda>_. Transport ''mux UDP connect'') (Udp_connect t upstream)) (\<lambda>_.
     act_bind (when_data payload (\<lambda>d. perform env (\<lambda>_. Transport ''mux UDP send'') (Udp_send t d))) (\<lambda>_.
     act_upd (\<lambda>st. (spawn t st)\<lparr>udp_sessions := AList.update sid (t, dest) (udp_sessions st)\<rparr>)))))"

definition handle_new :: "env \<Rightarrow> frame_metadata \<Rightarrow> bytes option \<Rightarrow> unit act" where
  "handle_new env meta payload st =
     (if is_xudp_metadata meta then
        (case fm_target meta of
           None \<Rightarrow> (Inl (Err (Protocol ''mux: New without target'')), st)
         | Some (_, dest) \<Rightarrow> (case fm_global_id meta of
             None \<Rightarrow> (Inl Panic, st)
           | Some gid \<Rightarrow> new_xudp env (next_task st) dest gid payload st))
      else (case fm_target meta of
         None \<Rightarrow> (Inl (Err (Protocol ''mux: New without target'')), st)
       | Some (Net_Tcp, dest) \<Rightarrow> new_tcp env (next_task st) (fm_session_id meta) dest payload st
       | Some (Net_Udp, dest) \<Rightarrow> new_udp env (next_task st) (fm_session_id meta) dest payload st))"

definition keep_xudp :: "env \<Rightarrow> address \<Rightarrow> bytes option \<Rightarrow> unit act" where
  "keep_xudp env dest payload st =
     (case active_xudp st of
        None \<Rightarrow> act_ret () st
      | Some gid \<Rightarrow> (case map_of (xudp_sessions st) gid of
          None \<Rightarrow> act_ret () st
        | Some t \<Rightarrow> when_data payload (\<lambda>d. act_bind (act_lift (resolve_udp_dest env dest)) (\<lambda>upstream.
            perform env (\<lambda>_. Transport ''xudp UDP send'') (Udp_send_to t upstream d))) st))"

definition keep_udp :: "env \<Rightarrow> u16 \<Rightarrow> address \<Rightarrow> bytes option \<Rightarrow> unit act" where
  "keep_udp env sid dest payload st =
     (case map_of (udp_sessions st) sid of
        None \<Rightarrow> act_ret () st
      | Some (t, dest0) \<Rightarrow> when_data payload (\<lambda>d.
          if dest = dest0 then perform env (\<lambda>_. Transport ''mux UDP send'') (Udp_send t d)
          else act_bind (act_lift (resolve_udp_dest env dest)) (\<lambda>upstream.
            perform env (\<lambda>_. Transport ''mux UDP send'') (Udp_send_to t upstream d))) st)"

definition handle_keep :: "env \<Rightarrow> frame_metadata \<Rightarrow> bytes option \<Rightarrow> unit act" where
  "handle_keep env meta payload st = (case fm_target meta of
      Some (Net_Udp, dest) \<Rightarrow>
        if fm_session_id meta = XUDP_SESSION_ID then keep_xudp env dest payload st
        else keep_udp env (fm_session_id meta) dest payload st
    | _ \<Rightarrow> (case map_of (sessions st) (fm_session_id meta) of
        Some t \<Rightarrow> when_data payload (\<lambda>d. perform env (\<lambda>e. e) (Upstream_write t d)) st
      | None \<Rightarrow> (case map_of (udp_sessions st) (fm_session_id meta) of
          Some (t, _) \<Rightarrow> when_data payload (\<lambda>d.
            perform env (\<lambda>_. Transport ''mux UDP send'') (Udp_send t d)) st
        | None \<Rightarrow> act_ret () st)))"

definition flush_end :: "env \<Rightarrow> u16 \<Rightarrow> bytes option \<Rightarrow> unit act" where
  "flush_end env sid payload = when_data payload (\<lambda>d st.
     case map_of (sessions st) sid of
       Some t \<Rightarrow> attempt (perform env (\<lambda>e. e) (Upstream_write t d)) st
     | None \<Rightarrow> (case map_of (udp_sessions st) sid of
         Some (t, _) \<Rightarrow> attempt (perform env (\<lambda>e. e) (Udp_send t d)) st
       | None \<Rightarrow> act_ret () st))"

definition close_tcp :: "env \<Rightarrow> u16 \<Rightarrow> unit act" where
  "close_tcp env sid st = (case map_of (sessions st) sid of
      None \<Rightarrow> act_ret () st
    | Some t \<Rightarrow> attempt (perform env (\<lambda>e. e) (Upstream_shutdown t))
        (st\<lparr>sessions := AList.delete sid (sessions st), running := running st - {t}\<rparr>))"

definition close_udp :: "u16 \<Rightarrow> mux_state \<Rightarrow> mux_state" where
  "close_udp sid st = (case map_of (udp_sessions st) sid of
      None \<Rightarrow> st
    | Some (t, _) \<Rightarrow> st\<lparr>udp_sessions := AList.delete sid (udp_sessions st), running := running st - {t}\<rparr>)"

definition close_active_xudp :: "mux_state \<Rightarrow> mux_state" where
  "close_active_xudp st = (case active_xudp st of
      None \<Rightarrow> st
    | Some gid \<Rightarrow> drop_xudp gid (st\<lparr>active_xudp := None\<rparr>))"

definition handle_end :: "env \<Rightarrow> frame_metadata \<Rightarrow> bytes option \<Rightarrow> unit act" where
  "handle_end env meta payload =
     act_bind (flush_end env (fm_session_id meta) payload) (\<lambda>_.
     act_bind (close_tcp env (fm_session_id meta)) (\<lambda>_.
     act_bind (act_upd (close_udp (fm_session_id meta))) (\<lambda>_.
       if fm_session_id meta = XUDP_SESSION_ID then act_upd close_active_xudp else act_ret ())))"

definition handle_frame :: "env \<Rightarrow> frame_metadata \<Rightarrow> bytes option \<Rightarrow> unit act" where
  "handle_frame env meta payload = (case fm_status meta of
      St_New \<Rightarrow> handle_new env meta payload
    | St_Keep \<Rightarrow> handle_keep env meta payload
    | St_End \<Rightarrow> handle_end env meta payload
    | St_KeepAlive \<Rightarrow> act_ret ())"

section \<open>The relay loop\<close>

lemma read_mux_frame_shorter: "read_mux_frame bs = Inr (x, rest) \<Longrightarrow> length rest < length bs"
  by (cases x) (auto simp: read_mux_frame_layout frame_layout_def split: if_splits)

function relay_loop :: "env \<Rightarrow> bytes \<Rightarrow> unit act" where
  "relay_loop env bs st = (case read_mux_frame bs of
      Inl (Err (Transport _)) \<Rightarrow> (Inr (), st)
    | Inl (Err (Protocol m)) \<Rightarrow> (Inl (Err (Protocol m)), st)
    | Inl (Err _) \<Rightarrow> (Inr (), st)
    | Inl Panic \<Rightarrow> (Inl Panic, st)
    | Inr ((meta, payload), rest) \<Rightarrow> (case handle_frame env meta payload st of
        (Inl f, st') \<Rightarrow> (Inl f, st')
      | (Inr _, st') \<Rightarrow> relay_loop env rest st'))"
  by pat_completeness auto
termination
  by (relation "measure (\<lambda>(env, bs, st). length bs)") (auto dest: read_mux_frame_shorter)

declare relay_loop.simps [simp del]

definition all_tasks :: "mux_state \<Rightarrow> task list" where
  "all_tasks st = map snd (sessions st) @ map (fst \<circ> snd) (udp_sessions st) @ map snd (xudp_sessions st)"

definition relay_mux_cool :: "env \<Rightarrow> bytes \<Rightarrow> unit result \<times> mux_state" where
  "relay_mux_cool env bs = (case relay_loop env bs mux_init of
      (Inl f, st) \<Rightarrow> (Inl f, st)
    | (Inr _, st) \<Rightarrow> (Inr (), st\<lparr>running := running st - set (all_tasks st)\<rparr>))"

section \<open>Association lists\<close>

lemma update_append: "k \<notin> fst ` set al \<Longrightarrow> AList.update k v al = al @ [(k, v)]"
  by (induction al) auto

lemma vals_update: "(g \<circ> snd) ` set (AList.update k v al) \<subseteq> insert (g v) ((g \<circ> snd) ` set al)"
  by (induction al) auto

lemma distinct_vals_update:
  "distinct (map (g \<circ> snd) al) \<Longrightarrow> g v \<notin> (g \<circ> snd) ` set al \<Longrightarrow> distinct (map (g \<circ> snd) (AList.update k v al))"
proof (induction al)
  case (Cons p al)
  then show ?case using vals_update [of g k v al] by (cases p) (auto simp: image_iff)
qed simp

lemma vals_delete: "(g \<circ> snd) ` set (AList.delete k al) \<subseteq> (g \<circ> snd) ` set al"
  by (auto simp: AList.delete_eq)

lemma distinct_vals_delete: "distinct (map (g \<circ> snd) al) \<Longrightarrow> distinct (map (g \<circ> snd) (AList.delete k al))"
  by (simp add: AList.delete_eq distinct_map_filter)

lemma vals_delete_eq:
  assumes "map_of al k = Some v" and "distinct (map fst al)" and "distinct (map (g \<circ> snd) al)"
  shows "(g \<circ> snd) ` set (AList.delete k al) = (g \<circ> snd) ` set al - {g v}"
  using assms
proof (induction al)
  case (Cons p al)
  obtain a b where p: "p = (a, b)" by (cases p)
  show ?case
  proof (cases "a = k")
    case True
    then have "k \<notin> fst ` set al" "b = v" using Cons.prems p by auto
    then have "AList.delete k al = al" by (simp add: AList.delete_id)
    then show ?thesis using Cons.prems p True \<open>b = v\<close> by auto
  next
    case False
    then have "map_of al k = Some v" using Cons.prems p by auto
    then have "(g \<circ> snd) ` set (AList.delete k al) = (g \<circ> snd) ` set al - {g v}"
      using Cons.IH Cons.prems by simp
    moreover have "g b \<noteq> g v" using Cons.prems(3) p map_of_SomeD [OF \<open>map_of al k = Some v\<close>] by force
    ultimately show ?thesis using p False by auto
  qed
qed simp

text \<open>The tasks in a table, and the two updates of a table.\<close>

definition vals1 :: "('k \<times> task) list \<Rightarrow> task set" where
  "vals1 al = snd ` set al"

definition vals2 :: "('k \<times> task \<times> 'a) list \<Rightarrow> task set" where
  "vals2 al = (fst \<circ> snd) ` set al"

lemma map_of_vals:
  "map_of al k = Some t \<Longrightarrow> t \<in> vals1 al"
  "map_of al2 k = Some (t, a) \<Longrightarrow> t \<in> vals2 al2"
  using map_of_SomeD [of al k t] map_of_SomeD [of al2 k "(t, a)"]
  by (force simp: vals1_def vals2_def image_iff)+

lemma vals1_update: "vals1 (AList.update k v al) \<subseteq> insert v (vals1 al)"
  using vals_update [of "\<lambda>x. x" k v al] by (simp add: vals1_def comp_def)

lemma vals2_update: "vals2 (AList.update k (v, a) al) \<subseteq> insert v (vals2 al)"
  using vals_update [of fst k "(v, a)" al] by (simp add: vals2_def)

lemma vals1_delete:
  assumes "map_of al k = Some v" and "distinct (map fst al)" and "distinct (map snd al)"
  shows "vals1 (AList.delete k al) = vals1 al - {v}"
  using vals_delete_eq [of al k v "\<lambda>x. x"] assms by (simp add: vals1_def comp_def)

lemma vals2_delete:
  assumes "map_of al k = Some (v, a)" and "distinct (map fst al)" and "distinct (map (fst \<circ> snd) al)"
  shows "vals2 (AList.delete k al) = vals2 al - {v}"
  using vals_delete_eq [of al k "(v, a)" fst] assms by (simp add: vals2_def)

lemma distinct_vals1:
  "distinct (map snd al) \<Longrightarrow> v \<notin> vals1 al \<Longrightarrow> distinct (map snd (AList.update k v al))"
  "distinct (map snd al) \<Longrightarrow> distinct (map snd (AList.delete k al))"
  using distinct_vals_update [of "\<lambda>x. x" al v k] distinct_vals_delete [of "\<lambda>x. x" al k]
  by (simp_all add: vals1_def comp_def)

lemma distinct_vals2:
  "distinct (map (fst \<circ> snd) al) \<Longrightarrow> v \<notin> vals2 al \<Longrightarrow> distinct (map (fst \<circ> snd) (AList.update k (v, a) al))"
  "distinct (map (fst \<circ> snd) al) \<Longrightarrow> distinct (map (fst \<circ> snd) (AList.delete k al))"
  using distinct_vals_update [of fst al "(v, a)" k] distinct_vals_delete [of fst al k]
  by (simp_all add: vals2_def)

lemma set_all_tasks: "set (all_tasks st) = vals1 (sessions st) \<union> vals2 (udp_sessions st) \<union> vals1 (xudp_sessions st)"
  by (simp add: all_tasks_def vals1_def vals2_def Un_assoc)

section \<open>Rules for actions\<close>

definition hoare :: "(mux_state \<Rightarrow> bool) \<Rightarrow> 'a act \<Rightarrow> (mux_state \<Rightarrow> bool) \<Rightarrow> bool" where
  "hoare P m Q \<longleftrightarrow> (\<forall>st. P st \<longrightarrow> Q (snd (m st)))"

lemma hoareI: "(\<And>st. P st \<Longrightarrow> Q (snd (m st))) \<Longrightarrow> hoare P m Q"
  by (simp add: hoare_def)

lemma hoareD: "hoare P m Q \<Longrightarrow> P st \<Longrightarrow> Q (snd (m st))"
  by (simp add: hoare_def)

lemma hoare_bind:
  assumes "hoare P m R" and "\<And>a. hoare R (f a) Q" and "\<And>st. R st \<Longrightarrow> Q st"
  shows "hoare P (act_bind m f) Q"
  using assms by (fastforce simp: hoare_def act_bind_def split: prod.splits sum.splits)

lemma hoare_ret: "(\<And>st. P st \<Longrightarrow> Q st) \<Longrightarrow> hoare P (act_ret a) Q"
  by (simp add: hoare_def act_ret_def)

lemma hoare_lift: "(\<And>st. P st \<Longrightarrow> Q st) \<Longrightarrow> hoare P (act_lift r) Q"
  by (simp add: hoare_def act_lift_def)

lemma hoare_upd: "(\<And>st. P st \<Longrightarrow> Q (f st)) \<Longrightarrow> hoare P (act_upd f) Q"
  by (simp add: hoare_def act_upd_def)

lemma hoare_attempt: "hoare P m Q \<Longrightarrow> hoare P (attempt m) Q"
  by (simp add: hoare_def attempt_def)

lemma hoare_perform: "(\<And>st tr. P st \<Longrightarrow> Q (st\<lparr>trace := tr\<rparr>)) \<Longrightarrow> hoare P (perform env c e) Q"
  by (simp add: hoare_def perform_def split: option.splits)

lemma hoare_when: "(\<And>d. hoare P (f d) Q) \<Longrightarrow> (\<And>st. P st \<Longrightarrow> Q st) \<Longrightarrow> hoare P (when_data payload f) Q"
  by (simp add: when_data_def hoare_ret split: option.splits)

text \<open>Actions that change nothing but the trace, as a \<^verbatim>\<open>Keep\<close> frame does.\<close>

definition core :: "mux_state \<Rightarrow> mux_state" where
  "core st = st\<lparr>trace := []\<rparr>"

definition silent :: "'a act \<Rightarrow> bool" where
  "silent m \<longleftrightarrow> (\<forall>st. core (snd (m st)) = core st)"

lemma silentD: "silent m \<Longrightarrow> core (snd (m st)) = core st"
  by (simp add: silent_def)

lemma silent_ret [simp]: "silent (act_ret a)"
  by (simp add: silent_def act_ret_def)

lemma silent_lift [simp]: "silent (act_lift r)"
  by (simp add: silent_def act_lift_def)

lemma silent_perform [simp]: "silent (perform env c e)"
  by (simp add: silent_def perform_def core_def split: option.splits)

lemma silent_bind: "silent m \<Longrightarrow> (\<And>a. silent (f a)) \<Longrightarrow> silent (act_bind m f)"
proof (unfold silent_def, intro allI)
  fix st assume m: "\<forall>st. core (snd (m st)) = core st" and f: "\<And>a. \<forall>st. core (snd (f a st)) = core st"
  obtain r st' where r: "m st = (r, st')" by (cases "m st")
  then have "core st' = core st" using m by (metis snd_conv)
  then show "core (snd (act_bind m f st)) = core st"
    using f r by (cases r) (simp_all add: act_bind_def)
qed

lemma silent_when: "(\<And>d. silent (f d)) \<Longrightarrow> silent (when_data payload f)"
  by (simp add: when_data_def split: option.splits)

lemma silent_send:
  "silent (act_bind (act_lift (resolve_udp_dest env dest)) (\<lambda>upstream. perform env c (Udp_send_to t upstream d)))"
  by (intro silent_bind) simp_all

lemma silent_keep_xudp: "silent (keep_xudp env dest payload)"
  unfolding silent_def keep_xudp_def
  by (auto split: option.splits intro!: silentD silent_when silent_send silent_ret)

lemma silent_keep_udp: "silent (keep_udp env sid dest payload)"
  unfolding silent_def keep_udp_def
  by (auto split: option.splits intro!: silentD silent_when silent_send silent_ret)

lemma silent_handle_keep: "silent (handle_keep env meta payload)"
  unfolding silent_def handle_keep_def
  by (auto split: option.splits target_network.splits
      intro!: silentD silent_when silent_keep_xudp silent_keep_udp silent_ret silent_perform)

lemma silent_flush_end: "silent (flush_end env sid payload)"
proof -
  have "silent (\<lambda>st. case map_of (sessions st) sid of
       Some t \<Rightarrow> attempt (perform env (\<lambda>e. e) (Upstream_write t d)) st
     | None \<Rightarrow> (case map_of (udp_sessions st) sid of
         Some (t, _) \<Rightarrow> attempt (perform env (\<lambda>e. e) (Udp_send t d)) st
       | None \<Rightarrow> act_ret () st))" for d
    unfolding silent_def attempt_def
    by (auto split: option.splits intro!: silentD [OF silent_perform] silentD [OF silent_ret])
  then show ?thesis unfolding flush_end_def by (rule silent_when)
qed

section \<open>The session tables stay consistent\<close>

definition table_inv :: "(u16 \<times> task) list \<Rightarrow> (u16 \<times> task \<times> address) list \<Rightarrow> (bytes \<times> task) list
    \<Rightarrow> task set \<Rightarrow> task \<Rightarrow> bool" where
  "table_inv ss us xs run n \<longleftrightarrow>
     distinct (map fst ss) \<and> distinct (map fst us) \<and> distinct (map fst xs)
     \<and> distinct (map snd ss) \<and> distinct (map (fst \<circ> snd) us) \<and> distinct (map snd xs)
     \<and> vals1 ss \<inter> vals2 us = {} \<and> vals1 ss \<inter> vals1 xs = {} \<and> vals2 us \<inter> vals1 xs = {}
     \<and> vals1 ss \<union> vals2 us \<union> vals1 xs \<subseteq> run \<and> run \<subseteq> {..<n}"

definition mux_inv :: "mux_state \<Rightarrow> bool" where
  "mux_inv st = table_inv (sessions st) (udp_sessions st) (xudp_sessions st) (running st) (next_task st)"

lemma mux_inv_trace [simp]: "mux_inv (st\<lparr>trace := tr\<rparr>) = mux_inv st"
  by (simp add: mux_inv_def)

lemma mux_inv_init [simp]: "mux_inv mux_init"
  by (simp add: mux_inv_def mux_init_def table_inv_def vals1_def vals2_def)

lemma mux_inv_core [simp]: "mux_inv (core st) = mux_inv st"
  by (simp add: core_def)

lemma hoare_silent: "silent m \<Longrightarrow> hoare mux_inv m mux_inv"
  by (metis hoareI mux_inv_core silentD)

lemma mux_inv_active [simp]: "mux_inv (st\<lparr>active_xudp := a\<rparr>) = mux_inv st"
  by (simp add: mux_inv_def)


text \<open>Removing a session and its task from one of the tables.\<close>

lemma table_inv_delete:
  assumes "table_inv ss us xs run n"
  shows "map_of ss k = Some t \<Longrightarrow> table_inv (AList.delete k ss) us xs (run - {t}) n"
    and "map_of us k = Some (t, a) \<Longrightarrow> table_inv ss (AList.delete k us) xs (run - {t}) n"
    and "map_of xs g = Some t \<Longrightarrow> table_inv ss us (AList.delete g xs) (run - {t}) n"
proof -
  note d = assms [unfolded table_inv_def]
  show "table_inv (AList.delete k ss) us xs (run - {t}) n" if "map_of ss k = Some t"
  proof -
    have "vals1 (AList.delete k ss) = vals1 ss - {t}" using that d by (intro vals1_delete) auto
    moreover have "t \<in> vals1 ss" using that by (rule map_of_vals)
    ultimately show ?thesis
      unfolding table_inv_def using d by (simp add: distinct_delete distinct_vals1) blast
  qed
  show "table_inv ss (AList.delete k us) xs (run - {t}) n" if "map_of us k = Some (t, a)"
  proof -
    have "vals2 (AList.delete k us) = vals2 us - {t}" using that d by (intro vals2_delete) auto
    moreover have "t \<in> vals2 us" using that by (rule map_of_vals)
    ultimately show ?thesis
      unfolding table_inv_def using d by (simp add: distinct_delete distinct_vals2) blast
  qed
  show "table_inv ss us (AList.delete g xs) (run - {t}) n" if "map_of xs g = Some t"
  proof -
    have "vals1 (AList.delete g xs) = vals1 xs - {t}" using that d by (intro vals1_delete) auto
    moreover have "t \<in> vals1 xs" using that by (rule map_of_vals)
    ultimately show ?thesis
      unfolding table_inv_def using d by (simp add: distinct_delete distinct_vals1) blast
  qed
qed

text \<open>Registering the fresh task \<open>n\<close> in one of the tables.\<close>

lemma table_inv_update:
  assumes "table_inv ss us xs run n"
  shows "table_inv (AList.update k n ss) us xs (insert n run) (Suc n)"
    and "table_inv ss (AList.update k (n, a) us) xs (insert n run) (Suc n)"
    and "table_inv ss us (AList.update g n xs) (insert n run) (Suc n)"
proof -
  note d = assms [unfolded table_inv_def]
  have n: "n \<notin> vals1 ss" "n \<notin> vals2 us" "n \<notin> vals1 xs" using d by auto
  have ss: "vals1 (AList.update k n ss) \<subseteq> insert n (vals1 ss)"
    and us: "vals2 (AList.update k (n, a) us) \<subseteq> insert n (vals2 us)"
    and xs: "vals1 (AList.update g n xs) \<subseteq> insert n (vals1 xs)"
    by (rule vals1_update vals2_update)+
  have run: "run \<subseteq> {..<n} \<Longrightarrow> run \<subseteq> {..<Suc n}" by auto
  have disj: "A' \<subseteq> insert n A \<Longrightarrow> n \<notin> B \<Longrightarrow> A \<inter> B = {} \<Longrightarrow> A' \<inter> B = {}"
    "A' \<subseteq> insert n A \<Longrightarrow> n \<notin> B \<Longrightarrow> B \<inter> A = {} \<Longrightarrow> B \<inter> A' = {}" for A A' B :: "task set"
    by blast+
  have sub: "A' \<subseteq> insert n A \<Longrightarrow> A \<subseteq> run \<Longrightarrow> A' \<subseteq> insert n run" for A A' by blast
  show "table_inv (AList.update k n ss) us xs (insert n run) (Suc n)"
    unfolding table_inv_def using d n
    by (simp add: distinct_update distinct_vals1 disj [OF ss] sub [OF ss] run subset_insertI2)
  show "table_inv ss (AList.update k (n, a) us) xs (insert n run) (Suc n)"
    unfolding table_inv_def using d n
    by (simp add: distinct_update distinct_vals2 disj [OF us] sub [OF us] run subset_insertI2)
  show "table_inv ss us (AList.update g n xs) (insert n run) (Suc n)"
    unfolding table_inv_def using d n
    by (simp add: distinct_update distinct_vals1 disj [OF xs] sub [OF xs] run subset_insertI2)
qed

lemma mux_inv_drop_xudp: "mux_inv st \<Longrightarrow> mux_inv (drop_xudp gid st)"
  by (simp add: drop_xudp_def mux_inv_def table_inv_delete(3) split: option.splits)

lemma mux_inv_close_udp: "mux_inv st \<Longrightarrow> mux_inv (close_udp sid st)"
  by (simp add: close_udp_def mux_inv_def table_inv_delete(2) split: option.splits)

lemma mux_inv_close_tcp: "hoare mux_inv (close_tcp env sid) mux_inv"
proof (rule hoareI)
  fix st assume st: "mux_inv st"
  show "mux_inv (snd (close_tcp env sid st))"
  proof (cases "map_of (sessions st) sid")
    case (Some t)
    then have "mux_inv (st\<lparr>sessions := AList.delete sid (sessions st), running := running st - {t}\<rparr>)"
      using st by (simp add: mux_inv_def table_inv_delete(1))
    then show ?thesis using hoareD [OF hoare_attempt [OF hoare_silent [OF silent_perform]]] Some
      by (simp add: close_tcp_def)
  qed (simp add: close_tcp_def act_ret_def st)
qed

lemma mux_inv_close_active: "mux_inv st \<Longrightarrow> mux_inv (close_active_xudp st)"
  by (simp add: close_active_xudp_def mux_inv_drop_xudp split: option.splits)

lemma handle_end_inv: "hoare mux_inv (handle_end env meta payload) mux_inv"
  unfolding handle_end_def
  by (intro hoare_bind [where R = mux_inv] hoare_silent [OF silent_flush_end] mux_inv_close_tcp)
     (auto simp: hoare_ret hoare_upd mux_inv_close_active mux_inv_close_udp)


lemma perform_keeps:
  assumes "\<And>tr. R (st\<lparr>trace := tr\<rparr>) = R st"
  shows "R (snd (perform env c e st)) = R st"
  using assms by (simp add: perform_def split: option.splits)

definition fresh_inv :: "task \<Rightarrow> mux_state \<Rightarrow> bool" where
  "fresh_inv t st \<longleftrightarrow> mux_inv st \<and> next_task st = t"

lemma fresh_inv_trace [simp]: "fresh_inv t (st\<lparr>trace := tr\<rparr>) = fresh_inv t st"
  by (simp add: fresh_inv_def)

lemma fresh_inv_drop_xudp: "fresh_inv t st \<Longrightarrow> fresh_inv t (drop_xudp gid st)"
  using mux_inv_drop_xudp [of st gid] by (auto simp: fresh_inv_def drop_xudp_def split: option.splits)

lemma fresh_perform: "hoare (fresh_inv t) (perform env c e) (fresh_inv t)"
  by (rule hoare_perform) simp

lemma fresh_send_to:
  "hoare (fresh_inv t) (act_bind (act_lift (resolve_udp_dest env dest)) (\<lambda>up. perform env c (Udp_send_to s up d))) (fresh_inv t)"
  by (intro hoare_bind [where R = "fresh_inv t"] fresh_perform hoare_lift)

lemma fresh_imp: "fresh_inv t st \<Longrightarrow> mux_inv st"
  by (simp add: fresh_inv_def)

lemma new_tcp_inv: "hoare (fresh_inv t) (new_tcp env t sid dest payload) mux_inv"
  unfolding new_tcp_def
  by (intro hoare_bind [where R = "fresh_inv t"] hoare_when fresh_perform fresh_send_to hoare_lift hoare_upd)
     (auto simp: fresh_inv_def mux_inv_def spawn_def table_inv_update)

lemma new_udp_inv: "hoare (fresh_inv t) (new_udp env t sid dest payload) mux_inv"
  unfolding new_udp_def
  by (intro hoare_bind [where R = "fresh_inv t"] hoare_when fresh_perform fresh_send_to hoare_lift hoare_upd)
     (auto simp: fresh_inv_def mux_inv_def spawn_def table_inv_update)

lemma new_xudp_inv: "hoare (fresh_inv t) (new_xudp env t dest gid payload) mux_inv"
  unfolding new_xudp_def
  by (intro hoare_bind [where R = "fresh_inv t"] hoare_when fresh_perform fresh_send_to hoare_lift hoare_upd fresh_inv_drop_xudp)
     (auto simp: fresh_inv_def mux_inv_def spawn_def table_inv_update)

lemma handle_new_inv: "hoare mux_inv (handle_new env meta payload) mux_inv"
proof (rule hoareI)
  fix st assume st: "mux_inv st"
  then have "fresh_inv (next_task st) st" by (simp add: fresh_inv_def)
  then show "mux_inv (snd (handle_new env meta payload st))"
    using st hoareD [OF new_tcp_inv] hoareD [OF new_udp_inv] hoareD [OF new_xudp_inv]
    by (auto simp: handle_new_def split: option.splits target_network.splits)
qed

lemma handle_frame_inv: "hoare mux_inv (handle_frame env meta payload) mux_inv"
  by (simp add: handle_frame_def handle_new_inv handle_end_inv hoare_ret hoare_silent [OF silent_handle_keep]
      split: session_status.splits)

lemma relay_loop_inv: "mux_inv st \<Longrightarrow> mux_inv (snd (relay_loop env bs st))"
proof (induction env bs st rule: relay_loop.induct)
  case (1 env bs st)
  show ?case
  proof (cases "read_mux_frame bs")
    case (Inl f)
    then show ?thesis using "1.prems"
      by (subst relay_loop.simps) (simp split: failure.splits proxy_error.splits)
  next
    case (Inr x)
    then obtain meta payload rest where x: "read_mux_frame bs = Inr ((meta, payload), rest)"
      by (cases x) auto
    obtain r st' where h: "handle_frame env meta payload st = (r, st')" by fastforce
    then have "mux_inv st'" using hoareD [OF handle_frame_inv "1.prems", of env meta payload] by simp
    then show ?thesis using "1.IH" [OF x refl refl] x h
      by (subst relay_loop.simps) (auto split: sum.splits)
  qed
qed

section \<open>Frames of one session leave the others alone\<close>

fun effect_task :: "effect \<Rightarrow> task" where
  "effect_task (Connect_outbound t _) = t"
| "effect_task (Upstream_write t _) = t"
| "effect_task (Upstream_shutdown t) = t"
| "effect_task (Udp_bind t) = t"
| "effect_task (Udp_connect t _) = t"
| "effect_task (Udp_send t _) = t"
| "effect_task (Udp_send_to t _ _) = t"

definition xudp_tasks :: "mux_state \<Rightarrow> task set" where
  "xudp_tasks st = (case active_xudp st of None \<Rightarrow> {} | Some gid \<Rightarrow> set_option (map_of (xudp_sessions st) gid))"

definition session_tasks :: "u16 \<Rightarrow> mux_state \<Rightarrow> task set" where
  "session_tasks sid st = set_option (map_of (sessions st) sid) \<union> fst ` set_option (map_of (udp_sessions st) sid)
     \<union> (if sid = XUDP_SESSION_ID then xudp_tasks st else {})"

definition frame_tasks :: "frame_metadata \<Rightarrow> mux_state \<Rightarrow> task set" where
  "frame_tasks meta st = (case fm_status meta of
      St_New \<Rightarrow> {next_task st} | St_KeepAlive \<Rightarrow> {} | _ \<Rightarrow> session_tasks (fm_session_id meta) st)"

text \<open>\<open>within T m st\<close>: from \<open>st\<close>, the action \<open>m\<close> does I/O on the tasks \<open>T\<close> only.\<close>

definition within :: "task set \<Rightarrow> 'a act \<Rightarrow> mux_state \<Rightarrow> bool" where
  "within T m st \<longleftrightarrow> (\<exists>es. trace (snd (m st)) = trace st @ es \<and> effect_task ` set es \<subseteq> T)"

lemma within_ret [simp]: "within T (act_ret a) st"
  by (simp add: within_def act_ret_def)

lemma within_lift [simp]: "within T (act_lift r) st"
  by (simp add: within_def act_lift_def)

lemma within_upd: "trace (f st) = trace st \<Longrightarrow> within T (act_upd f) st"
  by (simp add: within_def act_upd_def)

lemma within_perform: "effect_task e \<in> T \<Longrightarrow> within T (perform env c e) st"
  by (simp add: within_def perform_def split: option.splits)

lemma within_attempt: "within T m st \<Longrightarrow> within T (attempt m) st"
  by (simp add: within_def attempt_def)

lemma within_when: "(\<And>d. within T (f d) st) \<Longrightarrow> within T (when_data payload f) st"
  by (simp add: when_data_def split: option.splits)

lemma within_bind:
  assumes "within T m st" and "\<And>a st'. m st = (Inr a, st') \<Longrightarrow> within T (f a) st'"
  shows "within T (act_bind m f) st"
proof -
  obtain r st' where m: "m st = (r, st')" by fastforce
  from assms(1) obtain es where es: "trace st' = trace st @ es" "effect_task ` set es \<subseteq> T"
    by (auto simp: within_def m)
  show ?thesis
  proof (cases r)
    case (Inl e)
    then show ?thesis using es by (auto simp: within_def act_bind_def m)
  next
    case (Inr a)
    then obtain es' where "trace (snd (f a st')) = trace st' @ es'" "effect_task ` set es' \<subseteq> T"
      using assms(2) m by (auto simp: within_def)
    then have "trace (snd (act_bind m f st)) = trace st @ (es @ es')" "effect_task ` set (es @ es') \<subseteq> T"
      using es Inr by (auto simp: act_bind_def m)
    then show ?thesis unfolding within_def by blast
  qed
qed

lemma within_send_to:
  "t \<in> T \<Longrightarrow> within T (act_bind (act_lift r) (\<lambda>up. perform env c (Udp_send_to t up d))) st"
  by (intro within_bind within_lift within_perform) simp

lemma trace_drop_xudp [simp]: "trace (drop_xudp gid st) = trace st"
  by (simp add: drop_xudp_def split: option.splits)

lemma trace_close [simp]: "trace (close_udp sid st) = trace st" "trace (close_active_xudp st) = trace st"
  by (simp_all add: close_udp_def close_active_xudp_def split: option.splits)

lemma within_new:
  "within {t} (new_tcp env t sid dest payload) st"
  "within {t} (new_udp env t sid dest payload) st"
  "within {t} (new_xudp env t dest gid payload) st"
  unfolding new_tcp_def new_udp_def new_xudp_def
  by (intro within_bind within_when within_send_to within_perform within_lift within_upd;
      simp add: spawn_def)+

lemma within_cong: "m st = m' st \<Longrightarrow> within T m st = within T m' st"
  by (simp add: within_def)

lemma within_mono: "within T m st \<Longrightarrow> T \<subseteq> T' \<Longrightarrow> within T' m st"
  by (auto simp: within_def)

lemma within_keep_xudp: "within (xudp_tasks st) (keep_xudp env dest payload) st"
proof (cases "active_xudp st")
  case None
  then show ?thesis using within_cong [of "keep_xudp env dest payload" st "act_ret ()"]
    by (simp add: keep_xudp_def)
next
  case gid: (Some gid)
  show ?thesis
  proof (cases "map_of (xudp_sessions st) gid")
    case None
    then show ?thesis using gid within_cong [of "keep_xudp env dest payload" st "act_ret ()"]
      by (simp add: keep_xudp_def)
  next
    case (Some t)
    then show ?thesis using gid
      by (subst within_cong [of "keep_xudp env dest payload" st "when_data payload (\<lambda>d.
            act_bind (act_lift (resolve_udp_dest env dest)) (\<lambda>upstream.
              perform env (\<lambda>_. Transport ''xudp UDP send'') (Udp_send_to t upstream d)))"])
         (auto simp: keep_xudp_def xudp_tasks_def intro!: within_when within_send_to)
  qed
qed

lemma within_keep_udp: "within (fst ` set_option (map_of (udp_sessions st) sid)) (keep_udp env sid dest payload) st"
proof (cases "map_of (udp_sessions st) sid")
  case None
  then show ?thesis using within_cong [of "keep_udp env sid dest payload" st "act_ret ()"]
    by (simp add: keep_udp_def)
next
  case (Some x)
  then obtain t dest0 where x: "map_of (udp_sessions st) sid = Some (t, dest0)" by (cases x) auto
  then show ?thesis
    by (subst within_cong [of "keep_udp env sid dest payload" st "when_data payload (\<lambda>d.
          if dest = dest0 then perform env (\<lambda>_. Transport ''mux UDP send'') (Udp_send t d)
          else act_bind (act_lift (resolve_udp_dest env dest)) (\<lambda>upstream.
            perform env (\<lambda>_. Transport ''mux UDP send'') (Udp_send_to t upstream d)))"])
       (auto simp: keep_udp_def intro!: within_when within_send_to within_perform)
qed

lemma within_session:
  assumes "map_of (sessions st) sid = Some t"
  shows "within (session_tasks sid st) (when_data payload (\<lambda>d. perform env c (Upstream_write t d))) st"
  using assms by (auto simp: session_tasks_def intro!: within_when within_perform)

lemma within_udp_session:
  assumes "map_of (udp_sessions st) sid = Some (t, a)"
  shows "within (session_tasks sid st) (when_data payload (\<lambda>d. perform env c (Udp_send t d))) st"
  using assms by (force simp: session_tasks_def intro!: within_when within_perform)

lemma within_keep: "within (session_tasks (fm_session_id meta) st) (handle_keep env meta payload) st"
proof -
  let ?sid = "fm_session_id meta"
  have x: "within (session_tasks 0 st) (keep_xudp env dest payload) st" for dest
    by (rule within_mono [OF within_keep_xudp]) (auto simp: session_tasks_def)
  have u: "within (session_tasks ?sid st) (keep_udp env ?sid dest payload) st" for dest
    by (rule within_mono [OF within_keep_udp]) (auto simp: session_tasks_def)
  show ?thesis
    using x u within_session [of st ?sid _ payload env "\<lambda>e. e"]
      within_udp_session [of st ?sid _ _ payload env "\<lambda>_. Transport ''mux UDP send''"]
      within_ret [of "session_tasks ?sid st" "()" st]
    by (auto simp: handle_keep_def within_def split: option.splits target_network.splits)
qed

lemma within_flush_end: "within (session_tasks sid st) (flush_end env sid payload) st"
  unfolding flush_end_def
proof (rule within_when)
  fix d
  show "within (session_tasks sid st) (\<lambda>st. case map_of (sessions st) sid of
       Some t \<Rightarrow> attempt (perform env (\<lambda>e. e) (Upstream_write t d)) st
     | None \<Rightarrow> (case map_of (udp_sessions st) sid of
         Some (t, _) \<Rightarrow> attempt (perform env (\<lambda>e. e) (Udp_send t d)) st
       | None \<Rightarrow> act_ret () st)) st"
    by (auto simp: within_def attempt_def perform_def act_ret_def session_tasks_def
        split: option.splits)
qed

lemma within_close_tcp: "within (session_tasks sid st) (close_tcp env sid) st"
  by (auto simp: within_def close_tcp_def attempt_def perform_def act_ret_def session_tasks_def
      split: option.splits)

lemma session_tasks_core: "session_tasks sid (core st) = session_tasks sid st"
  by (simp add: core_def session_tasks_def xudp_tasks_def split: option.splits)

lemma core_fields: "core a = core b \<Longrightarrow> session_tasks sid a = session_tasks sid b"
  by (metis session_tasks_core)

lemma within_end: "within (session_tasks (fm_session_id meta) st) (handle_end env meta payload) st"
  unfolding handle_end_def
proof (rule within_bind [OF within_flush_end])
  let ?sid = "fm_session_id meta"
  fix u st' assume "flush_end env ?sid payload st = (Inr u, st')"
  then have "session_tasks ?sid st' = session_tasks ?sid st"
    using silentD [OF silent_flush_end, of env ?sid payload st] core_fields by (metis snd_conv)
  then show "within (session_tasks ?sid st) (act_bind (close_tcp env ?sid) (\<lambda>_.
     act_bind (act_upd (close_udp ?sid)) (\<lambda>_.
       if ?sid = XUDP_SESSION_ID then act_upd close_active_xudp else act_ret ()))) st'"
    using within_close_tcp [of ?sid st' env]
    by (intro within_bind within_upd) (auto intro: within_upd)
qed

lemma within_frame: "within (frame_tasks meta st) (handle_frame env meta payload) st"
  using within_keep within_end within_new [of "next_task st"]
  by (auto simp: handle_frame_def frame_tasks_def handle_new_def within_def act_ret_def
      split: session_status.splits option.splits target_network.splits)


text \<open>The table entries of another session, followed through a frame.\<close>

definition other_tasks :: "u16 \<Rightarrow> task set \<Rightarrow> mux_state \<Rightarrow> bool" where
  "other_tasks sid T st \<longleftrightarrow> session_tasks sid st = T"

lemma other_tasks_trace [simp]: "other_tasks sid T (st\<lparr>trace := tr\<rparr>) = other_tasks sid T st"
  by (simp add: other_tasks_def session_tasks_def xudp_tasks_def split: option.splits)

lemma other_silent: "silent m \<Longrightarrow> hoare (other_tasks sid T) m (other_tasks sid T)"
  by (metis hoareI other_tasks_def core_fields silentD)

lemma other_perform: "hoare (other_tasks sid T) (perform env c e) (other_tasks sid T)"
  by (rule other_silent) simp

lemma other_send_to:
  "hoare (other_tasks sid T) (act_bind (act_lift r) (\<lambda>up. perform env c (Udp_send_to t up d))) (other_tasks sid T)"
  by (rule other_silent) (intro silent_bind; simp)

lemma other_new_tcp:
  assumes "sid \<noteq> k"
  shows "hoare (other_tasks sid T) (new_tcp env t k dest payload) (other_tasks sid T)"
  unfolding new_tcp_def
  by (intro hoare_bind [where R = "other_tasks sid T"] hoare_when other_perform hoare_upd)
     (use assms in \<open>auto simp: other_tasks_def session_tasks_def xudp_tasks_def spawn_def update_conv'
        split: option.splits\<close>)

lemma other_new_udp:
  assumes "sid \<noteq> k"
  shows "hoare (other_tasks sid T) (new_udp env t k dest payload) (other_tasks sid T)"
  unfolding new_udp_def
  by (intro hoare_bind [where R = "other_tasks sid T"] hoare_when other_perform hoare_lift hoare_upd)
     (use assms in \<open>auto simp: other_tasks_def session_tasks_def xudp_tasks_def spawn_def update_conv'
        split: option.splits\<close>)

lemma other_new_xudp:
  assumes "sid \<noteq> XUDP_SESSION_ID"
  shows "hoare (other_tasks sid T) (new_xudp env t dest gid payload) (other_tasks sid T)"
  unfolding new_xudp_def
  by (intro hoare_bind [where R = "other_tasks sid T"] hoare_when other_perform other_send_to hoare_upd)
     (use assms in \<open>auto simp: other_tasks_def session_tasks_def spawn_def drop_xudp_def
        split: option.splits\<close>)

lemma other_handle_new:
  assumes "sid \<noteq> fm_session_id meta"
  shows "hoare (other_tasks sid T) (handle_new env meta payload) (other_tasks sid T)"
proof (rule hoareI)
  fix st assume "other_tasks sid T st"
  moreover have "sid \<noteq> XUDP_SESSION_ID" if "is_xudp_metadata meta"
    using that assms by (simp add: is_xudp_metadata_def)
  ultimately show "other_tasks sid T (snd (handle_new env meta payload st))"
    using hoareD [OF other_new_tcp [OF assms]] hoareD [OF other_new_udp [OF assms]]
      hoareD [OF other_new_xudp]
    by (auto simp: handle_new_def split: option.splits target_network.splits)
qed

lemma other_close:
  assumes "sid \<noteq> k" and "other_tasks sid T st"
  shows "other_tasks sid T (close_udp k st)"
    and "other_tasks sid T (st\<lparr>sessions := AList.delete k (sessions st), running := r\<rparr>)"
    and "k = XUDP_SESSION_ID \<Longrightarrow> other_tasks sid T (close_active_xudp st)"
  using assms
  by (auto simp: other_tasks_def session_tasks_def xudp_tasks_def close_udp_def close_active_xudp_def
      drop_xudp_def delete_conv' split: option.splits)

lemma other_close_tcp:
  assumes "sid \<noteq> k"
  shows "hoare (other_tasks sid T) (close_tcp env k) (other_tasks sid T)"
proof (rule hoareI)
  fix st assume st: "other_tasks sid T st"
  show "other_tasks sid T (snd (close_tcp env k st))"
  proof (cases "map_of (sessions st) k")
    case (Some t)
    have "other_tasks sid T (st\<lparr>sessions := AList.delete k (sessions st), running := running st - {t}\<rparr>)"
      using assms st by (rule other_close)
    then show ?thesis using hoareD [OF hoare_attempt [OF other_perform]] Some by (simp add: close_tcp_def)
  qed (simp add: close_tcp_def act_ret_def st)
qed

lemma other_handle_end:
  assumes "sid \<noteq> fm_session_id meta"
  shows "hoare (other_tasks sid T) (handle_end env meta payload) (other_tasks sid T)"
  unfolding handle_end_def
  by (intro hoare_bind [where R = "other_tasks sid T"] other_silent [OF silent_flush_end] other_close_tcp [OF assms])
     (auto simp: hoare_ret hoare_upd other_close [OF assms])

lemma other_handle_frame:
  assumes "sid \<noteq> fm_session_id meta"
  shows "hoare (other_tasks sid T) (handle_frame env meta payload) (other_tasks sid T)"
  using other_handle_new [OF assms] other_handle_end [OF assms]
  by (auto simp: handle_frame_def hoare_ret other_silent [OF silent_handle_keep] split: session_status.splits)

lemma session_tasks_subset:
  "session_tasks sid st \<subseteq> set (all_tasks st)"
  by (auto simp: session_tasks_def xudp_tasks_def set_all_tasks dest: map_of_vals split: if_splits option.splits)

lemma map_of_inj:
  "map_of al j = Some t \<Longrightarrow> map_of al k = Some t \<Longrightarrow> distinct (map snd al) \<Longrightarrow> j = k"
  "map_of al2 j = Some (t, a) \<Longrightarrow> map_of al2 k = Some (t, b) \<Longrightarrow> distinct (map (fst \<circ> snd) al2) \<Longrightarrow> j = k"
  by (force simp: distinct_map inj_on_def dest!: map_of_SomeD)+

lemma disjoint_parts:
  assumes "A \<inter> A' = {}" "B \<inter> B' = {}" "C = {} \<or> C' = {}" "A \<subseteq> S" "A' \<subseteq> S" "B \<subseteq> U" "B' \<subseteq> U"
    "C \<subseteq> X" "C' \<subseteq> X" "S \<inter> U = {}" "S \<inter> X = {}" "U \<inter> X = {}"
  shows "(A \<union> B \<union> C) \<inter> (A' \<union> B' \<union> C') = {}"
  using assms by blast

lemma session_tasks_disjoint:
  assumes "mux_inv st" and "i \<noteq> j"
  shows "session_tasks i st \<inter> session_tasks j st = {}"
proof -
  note inv = assms(1) [unfolded mux_inv_def table_inv_def]
  let ?X = "xudp_tasks st"
  have x: "?X \<subseteq> vals1 (xudp_sessions st)"
    by (auto simp: xudp_tasks_def dest: map_of_vals split: option.splits)
  have s: "set_option (map_of (sessions st) k) \<subseteq> vals1 (sessions st)" for k
    by (auto dest: map_of_vals)
  have u: "fst ` set_option (map_of (udp_sessions st) k) \<subseteq> vals2 (udp_sessions st)" for k
    by (auto dest: map_of_vals)
  have "set_option (map_of (sessions st) i) \<inter> set_option (map_of (sessions st) j) = {}"
    using inv assms(2) map_of_inj(1) [of "sessions st"] by auto
  moreover have "fst ` set_option (map_of (udp_sessions st) i) \<inter> fst ` set_option (map_of (udp_sessions st) j) = {}"
    using inv assms(2) map_of_inj(2) [of "udp_sessions st"] by auto
  ultimately show ?thesis
    unfolding session_tasks_def
    by (rule disjoint_parts [OF _ _ _ s s u u, where X = "vals1 (xudp_sessions st)"])
       (use x inv assms(2) in auto)
qed

section \<open>No panic\<close>

definition no_panic :: "'a act \<Rightarrow> bool" where
  "no_panic m \<longleftrightarrow> (\<forall>st. fst (m st) \<noteq> Inl Panic)"

lemma no_panic_basic [simp]:
  "no_panic (act_ret a)" "no_panic (act_upd f)" "no_panic (perform env c e)" "no_panic (attempt u)"
  by (simp_all add: no_panic_def act_ret_def act_upd_def perform_def attempt_def split: option.splits)

lemma no_panic_lift: "r \<noteq> Inl Panic \<Longrightarrow> no_panic (act_lift r)"
  by (simp add: no_panic_def act_lift_def)

lemma no_panic_resolve [simp]: "no_panic (act_lift (resolve_udp_dest env dest))"
  by (rule no_panic_lift) (simp add: resolve_udp_dest_def split: address.splits option.splits list.splits)

lemma no_panic_bind: "no_panic m \<Longrightarrow> (\<And>a. no_panic (f a)) \<Longrightarrow> no_panic (act_bind m f)"
  unfolding no_panic_def
proof (intro allI)
  fix st assume m: "\<forall>st. fst (m st) \<noteq> Inl Panic" and f: "\<And>a. \<forall>st. fst (f a st) \<noteq> Inl Panic"
  obtain r st' where r: "m st = (r, st')" by fastforce
  then have "r \<noteq> Inl Panic" using m by (metis fst_conv)
  then show "fst (act_bind m f st) \<noteq> Inl Panic" using f r by (cases r) (simp_all add: act_bind_def)
qed

lemma no_panic_when: "(\<And>d. no_panic (f d)) \<Longrightarrow> no_panic (when_data payload f)"
  by (simp add: when_data_def split: option.splits)

lemma no_panic_send_to [simp]:
  "no_panic (act_bind (act_lift (resolve_udp_dest env dest)) (\<lambda>up. perform env c (Udp_send_to t up d)))"
  by (intro no_panic_bind) simp_all

lemma no_panic_new [simp]:
  "no_panic (new_tcp env t sid dest payload)" "no_panic (new_udp env t sid dest payload)"
  "no_panic (new_xudp env t dest gid payload)"
  unfolding new_tcp_def new_udp_def new_xudp_def by (intro no_panic_bind no_panic_when; simp)+

lemma no_panic_handle_new:
  assumes "fm_status meta = St_New"
  shows "no_panic (handle_new env meta payload)"
  using no_panic_new assms
  by (auto simp: no_panic_def handle_new_def is_xudp_metadata_def split: option.splits target_network.splits)

lemma no_panic_keep_parts [simp]:
  "no_panic (keep_xudp env dest payload)" "no_panic (keep_udp env sid dest payload)"
proof -
  have "fst (when_data payload (\<lambda>d. act_bind (act_lift (resolve_udp_dest env dest)) (\<lambda>up. perform env c (Udp_send_to t up d))) st) \<noteq> Inl Panic" for c t st
    using no_panic_when [OF no_panic_send_to] by (simp add: no_panic_def)
  then show "no_panic (keep_xudp env dest payload)"
    by (simp add: no_panic_def keep_xudp_def act_ret_def split: option.splits)
  have "no_panic (when_data payload (\<lambda>d. if dest = dest0 then perform env c (Udp_send t d)
      else act_bind (act_lift (resolve_udp_dest env dest)) (\<lambda>up. perform env c (Udp_send_to t up d))))" for c t dest0
    by (rule no_panic_when) simp
  then show "no_panic (keep_udp env sid dest payload)"
    by (simp add: no_panic_def keep_udp_def act_ret_def split: option.splits)
qed

lemma no_panic_handle_keep: "no_panic (handle_keep env meta payload)"
proof -
  have w: "fst (when_data payload (\<lambda>d. perform env c (E d)) st) \<noteq> Inl Panic" for c E st
    using no_panic_when [of "\<lambda>d. perform env c (E d)" payload, OF no_panic_basic(3)] by (simp add: no_panic_def)
  show ?thesis using no_panic_keep_parts
    by (auto simp: no_panic_def handle_keep_def act_ret_def w split: option.splits target_network.splits)
qed

lemma no_panic_handle_end: "no_panic (handle_end env meta payload)"
  unfolding handle_end_def
proof (intro no_panic_bind)
  show "no_panic (flush_end env (fm_session_id meta) payload)"
    unfolding flush_end_def
    by (rule no_panic_when) (simp add: no_panic_def attempt_def act_ret_def split: option.splits)
  show "no_panic (close_tcp env (fm_session_id meta))"
    by (simp add: no_panic_def close_tcp_def attempt_def act_ret_def split: option.splits)
qed simp_all

lemma no_panic_handle_frame: "no_panic (handle_frame env meta payload)"
  by (simp add: handle_frame_def no_panic_handle_new no_panic_handle_keep no_panic_handle_end
      split: session_status.splits)

lemma relay_loop_no_panic: "fst (relay_loop env bs st) \<noteq> Inl Panic"
proof (induction env bs st rule: relay_loop.induct)
  case (1 env bs st)
  show ?case
  proof (cases "read_mux_frame bs")
    case (Inl f)
    then show ?thesis using wf_reader_no_panic [OF wf_read_mux_frame, of bs]
      by (subst relay_loop.simps) (auto split: failure.splits proxy_error.splits)
  next
    case (Inr x)
    then obtain meta payload rest where x: "read_mux_frame bs = Inr ((meta, payload), rest)"
      by (cases x) auto
    obtain r st' where h: "handle_frame env meta payload st = (r, st')" by fastforce
    then have "r \<noteq> Inl Panic" using no_panic_handle_frame by (metis fst_conv no_panic_def)
    then show ?thesis using "1.IH" [OF x refl refl] x h
      by (subst relay_loop.simps) (auto split: sum.splits)
  qed
qed

section \<open>Session properties\<close>


text \<open>
  Property C6. A frame of one session does no I/O on the connections of any other session and leaves
  the other session's table entries as they were.
\<close>

theorem handle_frame_isolates:
  assumes "mux_inv st" and "sid \<noteq> fm_session_id meta" and "handle_frame env meta payload st = (r, st')"
  shows "(\<exists>es. trace st' = trace st @ es \<and> effect_task ` set es \<inter> session_tasks sid st = {})
    \<and> session_tasks sid st' = session_tasks sid st"
proof -
  have "frame_tasks meta st \<inter> session_tasks sid st = {}"
  proof (cases "fm_status meta")
    case St_New
    have "next_task st \<notin> set (all_tasks st)"
      using assms(1) by (auto simp: mux_inv_def table_inv_def set_all_tasks)
    then show ?thesis using St_New session_tasks_subset [of sid st] by (auto simp: frame_tasks_def)
  qed (use session_tasks_disjoint [OF assms(1,2)] in \<open>auto simp: frame_tasks_def\<close>)
  then have "\<exists>es. trace st' = trace st @ es \<and> effect_task ` set es \<inter> session_tasks sid st = {}"
    using within_frame [of meta st env payload] assms(3) by (auto simp: within_def)
  moreover have "other_tasks sid (session_tasks sid st) st'"
    using hoareD [OF other_handle_frame [OF assms(2)], of "session_tasks sid st" st env payload] assms(3)
    by (simp add: other_tasks_def)
  ultimately show ?thesis by (simp add: other_tasks_def)
qed

theorem handle_frame_isolates_witness:
  "\<exists>st' r. handle_frame \<lparr>io_result = \<lambda>_ _. None, lookup_host = \<lambda>_ _. None\<rparr>
      \<lparr>fm_session_id = 2, fm_status = St_End, fm_option = 0, fm_target = None, fm_global_id = None\<rparr> None
      (mux_init\<lparr>sessions := [(1, 0), (2, 1)], running := {0, 1}, next_task := 2\<rparr>) = (r, st')
    \<and> session_tasks 1 st' = {0}"
proof -
  let ?st = "mux_init\<lparr>sessions := [(1, 0), (2, 1)], running := {0, 1}, next_task := 2\<rparr>"
  let ?e = "\<lparr>io_result = \<lambda>_ _. None, lookup_host = \<lambda>_ _. None\<rparr>"
  let ?m = "\<lparr>fm_session_id = 2, fm_status = St_End, fm_option = 0, fm_target = None, fm_global_id = None\<rparr>"
  have "mux_inv ?st" by (auto simp: mux_inv_def table_inv_def mux_init_def vals1_def vals2_def)
  moreover have "session_tasks 1 ?st = {0}" by (simp add: session_tasks_def mux_init_def)
  moreover obtain r st' where "handle_frame ?e ?m None ?st = (r, st')" by fastforce
  ultimately show ?thesis using handle_frame_isolates [of ?st 1 ?m ?e None r st'] by simp
qed


section \<open>Reader tasks that are never aborted\<close>

definition table_tight :: "(u16 \<times> task) list \<Rightarrow> (u16 \<times> task \<times> address) list \<Rightarrow> (bytes \<times> task) list
    \<Rightarrow> task set \<Rightarrow> task \<Rightarrow> bool" where
  "table_tight ss us xs run n \<longleftrightarrow> table_inv ss us xs run n \<and> run = vals1 ss \<union> vals2 us \<union> vals1 xs"

definition tight :: "mux_state \<Rightarrow> bool" where
  "tight st = table_tight (sessions st) (udp_sessions st) (xudp_sessions st) (running st) (next_task st)"

lemma tight_trace [simp]: "tight (st\<lparr>trace := tr\<rparr>) = tight st"
  by (simp add: tight_def)

lemma tight_core: "tight (core st) = tight st"
  by (simp add: core_def)

lemma tight_silent: "silent m \<Longrightarrow> hoare tight m tight"
  by (metis hoareI tight_core silentD)

lemma union_remove:
  "t \<in> A \<Longrightarrow> A \<inter> B = {} \<Longrightarrow> A \<inter> C = {} \<Longrightarrow> (A \<union> B \<union> C) - {t} = (A - {t}) \<union> B \<union> C"
  "t \<in> B \<Longrightarrow> A \<inter> B = {} \<Longrightarrow> B \<inter> C = {} \<Longrightarrow> (A \<union> B \<union> C) - {t} = A \<union> (B - {t}) \<union> C"
  "t \<in> C \<Longrightarrow> A \<inter> C = {} \<Longrightarrow> B \<inter> C = {} \<Longrightarrow> (A \<union> B \<union> C) - {t} = A \<union> B \<union> (C - {t})"
  by blast+

lemma table_inv_parts:
  assumes "table_inv ss us xs run n"
  shows "distinct (map fst ss)" "distinct (map fst us)" "distinct (map fst xs)"
    "distinct (map snd ss)" "distinct (map (fst \<circ> snd) us)" "distinct (map snd xs)"
    "vals1 ss \<inter> vals2 us = {}" "vals1 ss \<inter> vals1 xs = {}" "vals2 us \<inter> vals1 xs = {}"
  using assms by (simp_all add: table_inv_def)

lemma table_tight_delete:
  assumes "table_tight ss us xs run n"
  shows "map_of ss k = Some t \<Longrightarrow> table_tight (AList.delete k ss) us xs (run - {t}) n"
    and "map_of us k = Some (t, a) \<Longrightarrow> table_tight ss (AList.delete k us) xs (run - {t}) n"
    and "map_of xs g = Some t \<Longrightarrow> table_tight ss us (AList.delete g xs) (run - {t}) n"
proof -
  have inv: "table_inv ss us xs run n" and run: "run = vals1 ss \<union> vals2 us \<union> vals1 xs"
    using assms unfolding table_tight_def by blast+
  note p = table_inv_parts [OF inv]
  show "table_tight (AList.delete k ss) us xs (run - {t}) n" if m: "map_of ss k = Some t"
    unfolding table_tight_def run
    using table_inv_delete(1) [OF inv m] vals1_delete [OF m p(1,4)]
      union_remove(1) [OF map_of_vals(1) [OF m] p(7,8)] run by simp
  show "table_tight ss (AList.delete k us) xs (run - {t}) n" if m: "map_of us k = Some (t, a)"
    unfolding table_tight_def run
    using table_inv_delete(2) [OF inv m] vals2_delete [OF m p(2,5)]
      union_remove(2) [OF map_of_vals(2) [OF m] p(7,9)] run by simp
  show "table_tight ss us (AList.delete g xs) (run - {t}) n" if m: "map_of xs g = Some t"
    unfolding table_tight_def run
    using table_inv_delete(3) [OF inv m] vals1_delete [OF m p(3,6)]
      union_remove(3) [OF map_of_vals(1) [OF m] p(8,9)] run by simp
qed

lemma vals_update_new:
  "k \<notin> fst ` set al \<Longrightarrow> vals1 (AList.update k v al) = insert v (vals1 al)"
  "k \<notin> fst ` set al2 \<Longrightarrow> vals2 (AList.update k (v, a) al2) = insert v (vals2 al2)"
  by (simp_all add: update_append vals1_def vals2_def)

lemma table_tight_update:
  assumes "table_tight ss us xs run n"
  shows "k \<notin> fst ` set ss \<Longrightarrow> table_tight (AList.update k n ss) us xs (insert n run) (Suc n)"
    and "k \<notin> fst ` set us \<Longrightarrow> table_tight ss (AList.update k (n, a) us) xs (insert n run) (Suc n)"
    and "g \<notin> fst ` set xs \<Longrightarrow> table_tight ss us (AList.update g n xs) (insert n run) (Suc n)"
proof -
  have inv: "table_inv ss us xs run n" and run: "run = vals1 ss \<union> vals2 us \<union> vals1 xs"
    using assms unfolding table_tight_def by blast+
  show "k \<notin> fst ` set ss \<Longrightarrow> table_tight (AList.update k n ss) us xs (insert n run) (Suc n)"
    using table_inv_update(1) [OF inv] by (simp add: table_tight_def vals_update_new run)
  show "k \<notin> fst ` set us \<Longrightarrow> table_tight ss (AList.update k (n, a) us) xs (insert n run) (Suc n)"
    using table_inv_update(2) [OF inv] by (simp add: table_tight_def vals_update_new run)
  show "g \<notin> fst ` set xs \<Longrightarrow> table_tight ss us (AList.update g n xs) (insert n run) (Suc n)"
    using table_inv_update(3) [OF inv] by (simp add: table_tight_def vals_update_new run)
qed

lemma tight_drop_xudp: "tight st \<Longrightarrow> tight (drop_xudp gid st)"
  by (simp add: drop_xudp_def tight_def table_tight_delete(3) split: option.splits)

lemma tight_close_udp: "tight st \<Longrightarrow> tight (close_udp sid st)"
  by (simp add: close_udp_def tight_def table_tight_delete(2) split: option.splits)

lemma tight_close_tcp: "hoare tight (close_tcp env sid) tight"
proof (rule hoareI)
  fix st assume st: "tight st"
  show "tight (snd (close_tcp env sid st))"
  proof (cases "map_of (sessions st) sid")
    case (Some t)
    then have "tight (st\<lparr>sessions := AList.delete sid (sessions st), running := running st - {t}\<rparr>)"
      using st by (simp add: tight_def table_tight_delete(1))
    then show ?thesis using hoareD [OF hoare_attempt [OF tight_silent [OF silent_perform]]] Some
      by (simp add: close_tcp_def)
  qed (simp add: close_tcp_def act_ret_def st)
qed

lemma tight_close_active: "tight st \<Longrightarrow> tight (close_active_xudp st)"
  using tight_drop_xudp [of "st\<lparr>active_xudp := None\<rparr>"]
  by (auto simp: close_active_xudp_def tight_def split: option.splits)

lemma tight_handle_end: "hoare tight (handle_end env meta payload) tight"
  unfolding handle_end_def
  by (intro hoare_bind [where R = tight] tight_silent [OF silent_flush_end] tight_close_tcp)
     (auto simp: hoare_ret hoare_upd tight_close_active tight_close_udp)

text \<open>Opening a session under an unused key.\<close>

definition ready :: "(mux_state \<Rightarrow> bool) \<Rightarrow> task \<Rightarrow> mux_state \<Rightarrow> bool" where
  "ready U t st \<longleftrightarrow> tight st \<and> next_task st = t \<and> U st"

lemma ready_perform:
  assumes "\<And>st tr. U (st\<lparr>trace := tr\<rparr>) = U st"
  shows "hoare (ready U t) (perform env c e) (ready U t)"
  using assms by (intro hoare_perform) (simp add: ready_def)

definition free_tcp :: "u16 \<Rightarrow> mux_state \<Rightarrow> bool" where
  "free_tcp sid st \<longleftrightarrow> sid \<notin> fst ` set (sessions st)"

definition free_udp :: "u16 \<Rightarrow> mux_state \<Rightarrow> bool" where
  "free_udp sid st \<longleftrightarrow> sid \<notin> fst ` set (udp_sessions st)"

definition free_xudp :: "bytes \<Rightarrow> mux_state \<Rightarrow> bool" where
  "free_xudp gid st \<longleftrightarrow> gid \<notin> fst ` set (xudp_sessions st)"

lemma free_trace [simp]:
  "free_tcp sid (st\<lparr>trace := tr\<rparr>) = free_tcp sid st"
  "free_udp sid (st\<lparr>trace := tr\<rparr>) = free_udp sid st"
  "free_xudp gid (st\<lparr>trace := tr\<rparr>) = free_xudp gid st"
  by (simp_all add: free_tcp_def free_udp_def free_xudp_def)

lemma tight_new_tcp: "hoare (ready (free_tcp sid) t) (new_tcp env t sid dest payload) tight"
  unfolding new_tcp_def
  by (intro hoare_bind [where R = "ready (free_tcp sid) t"] hoare_when ready_perform hoare_upd)
     (auto simp: ready_def tight_def spawn_def table_tight_update free_tcp_def)

lemma tight_new_udp: "hoare (ready (free_udp sid) t) (new_udp env t sid dest payload) tight"
  unfolding new_udp_def
  by (intro hoare_bind [where R = "ready (free_udp sid) t"] hoare_when ready_perform hoare_lift hoare_upd)
     (auto simp: ready_def tight_def spawn_def table_tight_update free_udp_def)

lemma free_drop_xudp: "free_xudp gid (drop_xudp gid st)"
  by (auto simp: free_xudp_def drop_xudp_def map_of_eq_None_iff AList.delete_eq split: option.splits)

lemma ready_drop_xudp: "tight st \<Longrightarrow> next_task st = t \<Longrightarrow> ready (free_xudp gid) t (drop_xudp gid st)"
  using tight_drop_xudp [of st gid] free_drop_xudp [of gid st]
  by (simp add: ready_def) (simp add: drop_xudp_def split: option.splits)

lemma tight_add_xudp:
  assumes "ready (free_xudp gid) t st"
  shows "tight ((spawn t st)\<lparr>xudp_sessions := AList.update gid t (xudp_sessions st), active_xudp := ac\<rparr>)"
  using assms
  by (auto simp: ready_def tight_def spawn_def table_tight_update free_xudp_def)

lemma ready_tight: "ready U t st \<Longrightarrow> tight st"
  by (simp add: ready_def)

lemma tight_new_xudp: "hoare (ready (\<lambda>_. True) t) (new_xudp env t dest gid payload) tight"
proof -
  have first: "hoare (ready (\<lambda>_. True) t) (act_upd (drop_xudp gid)) (ready (free_xudp gid) t)"
    by (rule hoare_upd) (simp add: ready_drop_xudp ready_def [of "\<lambda>_. True"])
  have io: "hoare (ready (free_xudp gid) t) (perform env c e) (ready (free_xudp gid) t)" for c e
    by (rule ready_perform) simp
  have send: "hoare (ready (free_xudp gid) t) (when_data payload (\<lambda>d. act_bind (act_lift (resolve_udp_dest env dest))
      (\<lambda>up. perform env c (Udp_send_to t up d)))) (ready (free_xudp gid) t)" for c
    by (intro hoare_when hoare_bind [where R = "ready (free_xudp gid) t"] io hoare_lift)
  show ?thesis
    unfolding new_xudp_def
    by (intro hoare_bind [OF first] hoare_bind [OF io] hoare_bind [OF send] hoare_upd tight_add_xudp)
       (auto intro: ready_tight)
qed

definition reopens :: "frame_metadata \<Rightarrow> mux_state \<Rightarrow> bool" where
  "reopens meta st \<longleftrightarrow> fm_status meta = St_New \<and> \<not> is_xudp_metadata meta
     \<and> (case fm_target meta of
          Some (Net_Tcp, _) \<Rightarrow> \<not> free_tcp (fm_session_id meta) st
        | Some (Net_Udp, _) \<Rightarrow> \<not> free_udp (fm_session_id meta) st
        | None \<Rightarrow> False)"

lemma tight_handle_new:
  assumes "tight st" and "fm_status meta = St_New" and "\<not> reopens meta st"
  shows "tight (snd (handle_new env meta payload st))"
proof -
  have r: "ready U (next_task st) st \<longleftrightarrow> U st" for U using assms(1) by (simp add: ready_def)
  show ?thesis
    using assms hoareD [OF tight_new_tcp, of "fm_session_id meta" "next_task st" st]
      hoareD [OF tight_new_udp, of "fm_session_id meta" "next_task st" st]
      hoareD [OF tight_new_xudp, of "next_task st" st]
    by (auto simp: handle_new_def reopens_def r split: option.splits target_network.splits)
qed

lemma tight_handle_frame:
  assumes "tight st" and "\<not> reopens meta st"
  shows "tight (snd (handle_frame env meta payload st))"
proof (cases "fm_status meta")
  case St_New
  then show ?thesis using tight_handle_new [OF assms(1) St_New assms(2)] by (simp add: handle_frame_def)
next
  case St_Keep
  then show ?thesis using hoareD [OF tight_silent [OF silent_handle_keep] assms(1)] by (simp add: handle_frame_def)
next
  case St_End
  then show ?thesis using hoareD [OF tight_handle_end assms(1)] by (simp add: handle_frame_def)
qed (simp add: handle_frame_def act_ret_def assms(1))

text \<open>Along the run on \<open>bs\<close>, no \<^verbatim>\<open>New\<close> frame names a session that is still open.\<close>

function never_reopens :: "env \<Rightarrow> bytes \<Rightarrow> mux_state \<Rightarrow> bool" where
  "never_reopens env bs st = (case read_mux_frame bs of
      Inl _ \<Rightarrow> True
    | Inr ((meta, payload), rest) \<Rightarrow> \<not> reopens meta st \<and>
        (case handle_frame env meta payload st of
           (Inl _, _) \<Rightarrow> True
         | (Inr _, st') \<Rightarrow> never_reopens env rest st'))"
  by pat_completeness auto
termination
  by (relation "measure (\<lambda>(env, bs, st). length bs)") (auto dest: read_mux_frame_shorter)

declare never_reopens.simps [simp del]

lemma tight_relay_loop: "tight st \<Longrightarrow> never_reopens env bs st \<Longrightarrow> tight (snd (relay_loop env bs st))"
proof (induction env bs st rule: relay_loop.induct)
  case (1 env bs st)
  show ?case
  proof (cases "read_mux_frame bs")
    case (Inl f)
    then show ?thesis using "1.prems"
      by (subst relay_loop.simps) (simp split: failure.splits proxy_error.splits)
  next
    case (Inr x)
    then obtain meta payload rest where x: "read_mux_frame bs = Inr ((meta, payload), rest)"
      by (cases x) auto
    obtain r st' where h: "handle_frame env meta payload st = (r, st')" by fastforce
    have n: "\<not> reopens meta st" "\<And>u. r = Inr u \<Longrightarrow> never_reopens env rest st'"
      using "1.prems"(2) x h by (auto simp: never_reopens.simps [of env bs st] split: sum.splits)
    then have "tight st'" using tight_handle_frame [OF "1.prems"(1)] h by (metis snd_conv)
    then show ?thesis using "1.IH" [OF x refl refl] x h n(2)
      by (subst relay_loop.simps) (auto split: sum.splits)
  qed
qed

text \<open>
  Property C15. When the client's stream ends and the relay returns normally, every reader task it
  spawned has been aborted, provided the client never sent \<^verbatim>\<open>New\<close> for a session that was still open.
\<close>

theorem relay_mux_cool_no_leak:
  assumes "relay_mux_cool env bs = (Inr (), st)" and "never_reopens env bs mux_init"
  shows "running st = {}"
proof -
  obtain r s where l: "relay_loop env bs mux_init = (r, s)" by fastforce
  then have st: "st = s\<lparr>running := running s - set (all_tasks s)\<rparr>"
    using assms(1) by (cases r) (simp_all add: relay_mux_cool_def)
  have "vals1 (sessions mux_init) = {}" "vals2 (udp_sessions mux_init) = {}" "vals1 (xudp_sessions mux_init) = {}"
    "running mux_init = {}" by (simp_all add: mux_init_def vals1_def vals2_def)
  then have "tight mux_init" using mux_inv_init by (simp add: tight_def table_tight_def mux_inv_def)
  from tight_relay_loop [OF this assms(2)] have "tight s" by (simp add: l)
  then have "running s = set (all_tasks s)" by (simp add: tight_def table_tight_def set_all_tasks)
  then show ?thesis unfolding st by simp
qed

definition quiet_env :: env where
  "quiet_env = \<lparr>io_result = \<lambda>_ _. None, lookup_host = \<lambda>_ _. None\<rparr>"

text \<open>\<^verbatim>\<open>New\<close> for UDP session 1 towards 8.8.8.8:53, as it is on the wire.\<close>

definition open_udp :: bytes where
  "open_udp = [0, 12, 0, 1, 1, 0, 2, 0, 53, 1, 8, 8, 8, 8]"

theorem relay_mux_cool_no_leak_witness:
  "\<exists>st. relay_mux_cool quiet_env open_udp = (Inr (), st) \<and> trace st \<noteq> [] \<and> running st = {}"
proof -
  have "fst (relay_mux_cool quiet_env open_udp) = Inr ()" by code_simp
  then obtain st where st: "relay_mux_cool quiet_env open_udp = (Inr (), st)" by (cases "relay_mux_cool quiet_env open_udp") simp
  moreover have "never_reopens quiet_env open_udp mux_init" by code_simp
  moreover have "trace (snd (relay_mux_cool quiet_env open_udp)) \<noteq> []" by code_simp
  ultimately show ?thesis using relay_mux_cool_no_leak [of quiet_env open_udp st] by simp
qed


section \<open>The lock between the relay loop and a TCP reader task\<close>

text \<open>
  \<^verbatim>\<open>mux_upstream_to_client\<close> holds the mutex of the upstream connection while it waits in
  \<^verbatim>\<open>read\<close>; the relay loop needs the same mutex to write the payload of a \<^verbatim>\<open>Keep\<close> frame. The upstream
  server is a parameter: what it sends next after the messages it received, if anything.
\<close>

datatype reader_pc = R_lock | R_read | R_emit bytes

record pump =
  lock_held :: bool
  reader_at :: reader_pc
  to_write :: "bytes list"
  written :: "bytes list"
  sent :: nat
  unread :: "bytes list"
  emitted :: "bytes list"

definition pump_init :: "bytes list \<Rightarrow> pump" where
  "pump_init ds = \<lparr>lock_held = False, reader_at = R_lock, to_write = ds, written = [], sent = 0,
     unread = [], emitted = []\<rparr>"

inductive pump_step :: "(bytes list \<Rightarrow> nat \<Rightarrow> bytes option) \<Rightarrow> pump \<Rightarrow> pump \<Rightarrow> bool" for srv where
  reader_locks: "\<not> lock_held s \<Longrightarrow> reader_at s = R_lock \<Longrightarrow>
     pump_step srv s (s\<lparr>lock_held := True, reader_at := R_read\<rparr>)"
| reader_reads: "reader_at s = R_read \<Longrightarrow> unread s = c # cs \<Longrightarrow>
     pump_step srv s (s\<lparr>lock_held := False, reader_at := R_emit c, unread := cs\<rparr>)"
| reader_emits: "reader_at s = R_emit c \<Longrightarrow>
     pump_step srv s (s\<lparr>reader_at := R_lock, emitted := emitted s @ [c]\<rparr>)"
| relay_writes: "\<not> lock_held s \<Longrightarrow> to_write s = d # ds \<Longrightarrow>
     pump_step srv s (s\<lparr>to_write := ds, written := written s @ [d]\<rparr>)"
| server_sends: "srv (written s) (sent s) = Some c \<Longrightarrow>
     pump_step srv s (s\<lparr>unread := unread s @ [c], sent := Suc (sent s)\<rparr>)"

inductive_cases pump_stepE: "pump_step srv s s'"



section \<open>Reader tasks\<close>

text \<open>
  The bytes a reader task writes to the client, given what its reads return (the list ends where the
  connection ends or fails). \<open>ok\<close> tells whether a write succeeds; a failed write adds nothing.
\<close>

definition write_end :: "(bytes \<Rightarrow> bool) \<Rightarrow> u16 \<Rightarrow> bytes \<Rightarrow> bytes" where
  "write_end ok sid out = (case write_mux_frame out (encode_end_metadata sid 0) None of
      Inr out' \<Rightarrow> if ok out' then out' else out | Inl _ \<Rightarrow> out)"

fun mux_upstream_to_client :: "(bytes \<Rightarrow> bool) \<Rightarrow> u16 \<Rightarrow> bytes list \<Rightarrow> bytes \<Rightarrow> bytes" where
  "mux_upstream_to_client ok sid [] out = write_end ok sid out"
| "mux_upstream_to_client ok sid (c # cs) out =
     (if c = [] then write_end ok sid out
      else (case write_mux_frame out (encode_keep_metadata sid OPT_DATA) (Some c) of
        Inr out' \<Rightarrow> if ok out' then mux_upstream_to_client ok sid cs out' else write_end ok sid out
      | Inl _ \<Rightarrow> write_end ok sid out))"

text \<open>The UDP task frames datagrams from \<^verbatim>\<open>recv\<close> with the same loop, without the lock.\<close>

fun mux_udp_to_client :: "(bytes \<Rightarrow> bool) \<Rightarrow> u16 \<Rightarrow> bytes list \<Rightarrow> bytes \<Rightarrow> bytes" where
  "mux_udp_to_client ok sid [] out = write_end ok sid out"
| "mux_udp_to_client ok sid (c # cs) out =
     (if c = [] then write_end ok sid out
      else (case write_mux_frame out (encode_keep_metadata sid OPT_DATA) (Some c) of
        Inr out' \<Rightarrow> if ok out' then mux_udp_to_client ok sid cs out' else write_end ok sid out
      | Inl _ \<Rightarrow> write_end ok sid out))"

fun mux_xudp_to_client :: "(bytes \<Rightarrow> bool) \<Rightarrow> u16 \<Rightarrow> (bytes \<times> socket_addr) list \<Rightarrow> bytes \<Rightarrow> bytes" where
  "mux_xudp_to_client ok sid [] out = write_end ok sid out"
| "mux_xudp_to_client ok sid ((c, peer) # cs) out =
     (if c = [] then write_end ok sid out
      else (case encode_keep_metadata_udp sid (socket_addr_to_address peer) OPT_DATA of
        Inl _ \<Rightarrow> write_end ok sid out
      | Inr meta \<Rightarrow> (case write_mux_frame out meta (Some c) of
          Inr out' \<Rightarrow> if ok out' then mux_xudp_to_client ok sid cs out' else write_end ok sid out
        | Inl _ \<Rightarrow> write_end ok sid out)))"

text \<open>All frames of a finished stream.\<close>

function read_frames :: "bytes \<Rightarrow> (frame_metadata \<times> bytes option) list result" where
  "read_frames bs = (if bs = [] then Inr [] else (case read_mux_frame bs of
      Inl f \<Rightarrow> Inl f
    | Inr (x, rest) \<Rightarrow> bindE (read_frames rest) (\<lambda>xs. Inr (x # xs))))"
  by pat_completeness auto
termination
  by (relation "measure length") (auto dest: read_mux_frame_shorter)

declare read_frames.simps [simp del]

lemma read_frames_Nil: "read_frames [] = Inr []"
  by (simp add: read_frames.simps)

lemma read_mux_frame_encoded:
  assumes "encode_frame md payload = Inr w" and "parse_metadata md = Inr meta"
    and "payload \<noteq> None \<longleftrightarrow> fm_option meta AND OPT_DATA \<noteq> 0"
    and "\<forall>d. payload = Some d \<longrightarrow> length d \<le> 65535"
  shows "w \<noteq> [] \<and> read_mux_frame (w @ rest) = Inr ((meta, payload), rest)"
proof -
  have "frame_layout (w @ rest) meta payload rest"
    using assms by (cases payload) (auto simp: frame_layout_def encode_frame_def Let_def split: if_splits)
  moreover have "w \<noteq> []" using assms(1) by (auto simp: encode_frame_def Let_def split: if_splits option.splits)
  ultimately show ?thesis by (simp add: read_mux_frame_layout)
qed

lemma read_frames_step:
  assumes "w \<noteq> [] \<and> read_mux_frame (w @ rest) = Inr (x, rest)"
  shows "read_frames (w @ rest) = bindE (read_frames rest) (\<lambda>xs. Inr (x # xs))"
  using assms by (simp add: read_frames.simps [of "w @ rest"])

definition keep_meta :: "u16 \<Rightarrow> (target_network \<times> address) option \<Rightarrow> frame_metadata" where
  "keep_meta sid t = \<lparr>fm_session_id = sid, fm_status = St_Keep, fm_option = OPT_DATA, fm_target = t, fm_global_id = None\<rparr>"

definition end_meta :: "u16 \<Rightarrow> frame_metadata" where
  "end_meta sid = \<lparr>fm_session_id = sid, fm_status = St_End, fm_option = 0, fm_target = None, fm_global_id = None\<rparr>"

lemma parse_keep_meta: "parse_metadata (encode_keep_metadata sid OPT_DATA) = Inr (keep_meta sid None)"
  using parse_metadata_layout [of sid "status_byte St_Keep" OPT_DATA "[]"]
  by (simp add: encode_keep_metadata_def parse_keep_target_def keep_meta_def)

lemma parse_end_meta: "parse_metadata (encode_end_metadata sid 0) = Inr (end_meta sid)"
  using parse_metadata_layout [of sid "status_byte St_End" 0 "[]"]
  by (simp add: encode_end_metadata_def end_meta_def)

lemma encode_frame_total:
  "length md \<le> MAX_META_LEN \<Longrightarrow> (\<And>d. payload = Some d \<Longrightarrow> length d \<le> 65535) \<Longrightarrow> \<exists>w. encode_frame md payload = Inr w"
  by (cases payload) (auto simp: encode_frame_def Let_def)

lemma write_end_appends:
  "\<exists>w. write_end (\<lambda>_. True) sid out = out @ w \<and> read_frames w = Inr [(end_meta sid, None)]"
proof -
  obtain w where w: "encode_frame (encode_end_metadata sid 0) None = Inr w"
    using encode_frame_total [of "encode_end_metadata sid 0" None] by (auto simp: encode_end_metadata_def)
  have "w \<noteq> [] \<and> read_mux_frame (w @ []) = Inr ((end_meta sid, None), [])"
    by (rule read_mux_frame_encoded [OF w parse_end_meta]) (simp_all add: end_meta_def)
  from read_frames_step [OF this] have "read_frames w = Inr [(end_meta sid, None)]"
    by (simp add: read_frames_Nil)
  then show ?thesis using w by (simp add: write_end_def write_mux_frame_def)
qed

lemma reader_frame:
  assumes "encode_frame md (Some c) = Inr w" and "parse_metadata md = Inr (keep_meta sid t)" and "length c \<le> 65535"
  shows "read_frames (w @ rest) = bindE (read_frames rest) (\<lambda>xs. Inr ((keep_meta sid t, Some c) # xs))"
  by (rule read_frames_step, rule read_mux_frame_encoded [OF assms(1,2)])
     (use assms(3) in \<open>simp_all add: keep_meta_def\<close>)

lemma mux_upstream_output:
  assumes "\<forall>c\<in>set cs. c \<noteq> [] \<and> length c \<le> 65535"
  shows "\<exists>w. mux_upstream_to_client (\<lambda>_. True) sid cs out = out @ w
    \<and> read_frames w = Inr (map (\<lambda>c. (keep_meta sid None, Some c)) cs @ [(end_meta sid, None)])"
  using assms
proof (induction cs arbitrary: out)
  case Nil
  then show ?case using write_end_appends [of sid out] by simp
next
  case (Cons c cs)
  obtain f where f: "encode_frame (encode_keep_metadata sid OPT_DATA) (Some c) = Inr f"
    using encode_frame_total [of "encode_keep_metadata sid OPT_DATA" "Some c"] Cons.prems
    by (auto simp: encode_keep_metadata_def)
  obtain w where w: "mux_upstream_to_client (\<lambda>_. True) sid cs (out @ f) = (out @ f) @ w"
    "read_frames w = Inr (map (\<lambda>c. (keep_meta sid None, Some c)) cs @ [(end_meta sid, None)])"
    using Cons.IH [of "out @ f"] Cons.prems by auto
  have "read_frames (f @ w) = Inr (map (\<lambda>c. (keep_meta sid None, Some c)) (c # cs) @ [(end_meta sid, None)])"
    using reader_frame [OF f parse_keep_meta] Cons.prems w(2) by simp
  moreover have "mux_upstream_to_client (\<lambda>_. True) sid (c # cs) out = out @ (f @ w)"
    using f w(1) Cons.prems by (simp add: write_mux_frame_def)
  ultimately show ?case by blast
qed

lemma mux_udp_same: "mux_udp_to_client ok sid cs out = mux_upstream_to_client ok sid cs out"
  by (induction ok sid cs out rule: mux_udp_to_client.induct) (auto split: sum.splits)

lemma parse_keep_udp_meta:
  assumes "wire_ok a" and "encode_keep_metadata_udp sid a OPT_DATA = Inr md"
  shows "parse_metadata md = Inr (keep_meta sid (Some (Net_Udp, a))) \<and> length md \<le> MAX_META_LEN"
proof -
  from assms(2) obtain ab where ab: "encode_address_port a = Inr ab"
    and md: "md = to_be 2 sid @ [status_byte St_Keep, OPT_DATA] @ (network_byte Net_Udp # ab)"
    by (auto simp: encode_keep_metadata_udp_def bindE_eq_Inr)
  show ?thesis
    using parse_metadata_layout [of sid "status_byte St_Keep" OPT_DATA "network_byte Net_Udp # ab"]
      parse_keep_target_encode [OF assms(1) ab] length_encode_address_port [OF ab]
    by (simp add: md keep_meta_def)
qed

lemma wire_ok_socket_addr: "wire_ok (socket_addr_to_address peer)"
  by (cases peer) (simp add: socket_addr_to_address_def split: ip_addr.splits)

lemma mux_xudp_output:
  assumes "\<forall>(c, peer)\<in>set cs. c \<noteq> [] \<and> length c \<le> 65535"
  shows "\<exists>w. mux_xudp_to_client (\<lambda>_. True) sid cs out = out @ w
    \<and> read_frames w = Inr (map (\<lambda>(c, peer). (keep_meta sid (Some (Net_Udp, socket_addr_to_address peer)), Some c)) cs
        @ [(end_meta sid, None)])"
  using assms
proof (induction cs arbitrary: out)
  case Nil
  then show ?case using write_end_appends [of sid out] by simp
next
  case (Cons x cs)
  obtain c peer where x: "x = (c, peer)" by (cases x)
  let ?a = "socket_addr_to_address peer"
  obtain md where md: "encode_keep_metadata_udp sid ?a OPT_DATA = Inr md"
    using vless.enc_total [OF wire_ok_socket_addr, of peer] by (auto simp: encode_keep_metadata_udp_def)
  note pm = parse_keep_udp_meta [OF wire_ok_socket_addr md]
  obtain f where f: "encode_frame md (Some c) = Inr f"
    using encode_frame_total [of md "Some c"] Cons.prems pm x by auto
  let ?out = "\<lambda>cs. map (\<lambda>(c, peer). (keep_meta sid (Some (Net_Udp, socket_addr_to_address peer)), Some c)) cs @ [(end_meta sid, None)]"
  obtain w where w: "mux_xudp_to_client (\<lambda>_. True) sid cs (out @ f) = (out @ f) @ w" "read_frames w = Inr (?out cs)"
    using Cons.IH [of "out @ f"] Cons.prems by auto
  have "read_frames (f @ w) = Inr (?out (x # cs))"
    using reader_frame [OF f conjunct1 [OF pm]] Cons.prems w(2) x by simp
  moreover have "mux_xudp_to_client (\<lambda>_. True) sid (x # cs) out = out @ (f @ w)"
    using f md w(1) Cons.prems x by (simp add: write_mux_frame_def)
  ultimately show ?case by blast
qed

text \<open>
  Property C34. As long as the client can be written to, it receives what a reader task read from
  the upstream connection unchanged and in order, one \<^verbatim>\<open>Keep\<close> frame per read (with the sender's address for
  XUDP), followed by exactly one \<^verbatim>\<open>End\<close> frame. Reads return between 1 and 65535 bytes.
\<close>

theorem reader_tasks_deliver:
  assumes "\<forall>c\<in>set cs. c \<noteq> [] \<and> length c \<le> 65535" and "\<forall>(c, peer)\<in>set ps. c \<noteq> [] \<and> length c \<le> 65535"
  shows "read_frames (mux_upstream_to_client (\<lambda>_. True) sid cs []) =
      Inr (map (\<lambda>c. (keep_meta sid None, Some c)) cs @ [(end_meta sid, None)])
    \<and> read_frames (mux_udp_to_client (\<lambda>_. True) sid cs []) =
      Inr (map (\<lambda>c. (keep_meta sid None, Some c)) cs @ [(end_meta sid, None)])
    \<and> read_frames (mux_xudp_to_client (\<lambda>_. True) sid ps []) =
      Inr (map (\<lambda>(c, peer). (keep_meta sid (Some (Net_Udp, socket_addr_to_address peer)), Some c)) ps
        @ [(end_meta sid, None)])"
  using mux_upstream_output [OF assms(1), of sid "[]"] mux_xudp_output [OF assms(2), of sid "[]"]
  by (auto simp: mux_udp_same)

theorem reader_tasks_deliver_witness:
  "read_frames (mux_upstream_to_client (\<lambda>_. True) 3 [[1, 2], [3]] []) =
     Inr [(keep_meta 3 None, Some [1, 2]), (keep_meta 3 None, Some [3]), (end_meta 3, None)]"
proof -
  have "\<forall>c\<in>set [[1, 2], [3 :: u8]]. c \<noteq> [] \<and> length c \<le> 65535"
    "\<forall>(c, peer)\<in>set [([7 :: u8], SocketAddr (V4 1) 53)]. c \<noteq> [] \<and> length c \<le> 65535" by simp_all
  from conjunct1 [OF reader_tasks_deliver [OF this, of 3]] show ?thesis by (simp only: list.map append.simps)
qed

end
