(* ===== verification/Trojan.thy ===== *)
theory Trojan
  imports Address
begin

text \<open>
  The Trojan protocol (\<^verbatim>\<open>crates/blackwire-protocol/src/trojan/codec.rs\<close> and the reassembly loop
  of \<^verbatim>\<open>trojan/udp.rs\<close>). The hash and the hex encoder of the token are third-party code and
  parameters. The datagram format is a \<open>framing\<close>; the relay loop is verified through that interface.
\<close>

section \<open>Requests\<close>

abbreviation (input) "TOKEN_LEN \<equiv> (56 :: nat)"
abbreviation (input) "CMD_CONNECT \<equiv> (1 :: u8)"
abbreviation (input) "CMD_UDP_ASSOCIATE \<equiv> (3 :: u8)"
abbreviation (input) "MAX_UDP_PAYLOAD_LEN \<equiv> (8192 :: nat)"
abbreviation (input) "CRLF \<equiv> [13 :: u8, 10]"

definition compute_token :: "(bytes \<Rightarrow> bytes) \<Rightarrow> (bytes \<Rightarrow> rstr) \<Rightarrow> rstr \<Rightarrow> rstr" where
  "compute_token sha224 hex_encode password = hex_encode (sha224 password)"

record trojan_request =
  tr_token :: bytes
  tr_command :: u8
  tr_dest :: address

definition expect_crlf :: "string \<Rightarrow> unit reader" where
  "expect_crlf ctx = rbind (read_exact 2) (\<lambda>crlf.
     if crlf \<noteq> CRLF then rfail (Protocol (''Trojan: expected CRLF '' @ ctx)) else rret ())"

definition trojan_decode_request :: "trojan_request reader" where
  "trojan_decode_request =
     rbind (read_exact TOKEN_LEN) (\<lambda>token.
     rbind (expect_crlf ''after token'') (\<lambda>_.
     rbind read_u8 (\<lambda>command.
       if command \<noteq> CMD_CONNECT \<and> command \<noteq> CMD_UDP_ASSOCIATE
       then rfail (Protocol ''Trojan: unsupported command'')
       else rbind read_u8 (\<lambda>atyp.
         rbind (read_socks5_address atyp) (\<lambda>dest.
         rbind (expect_crlf ''after address'') (\<lambda>_.
           rret \<lparr>tr_token = token, tr_command = command, tr_dest = dest\<rparr>))))))"

definition trojan_encode_request :: "rstr \<Rightarrow> u8 \<Rightarrow> address \<Rightarrow> bytes result" where
  "trojan_encode_request token command dest =
     bindE (write_socks5_address (token @ CRLF @ [command]) dest) (\<lambda>buf. Inr (buf @ CRLF))"

section \<open>UDP datagrams\<close>

definition trojan_parse_udp :: "bytes \<Rightarrow> (address \<times> bytes \<times> nat) result" where
  "trojan_parse_udp buf =
     (if length buf < 4 then Inl (Err (Protocol ''Trojan UDP datagram too short''))
      else bindE (idx buf 0) (\<lambda>atyp. bindE (rslice buf 1 (length buf)) (\<lambda>data.
        bindE (decode_socks5_address data atyp) (\<lambda>(dest, consumed).
          let pos = 1 + consumed in
          if pos + 4 > length buf then Inl (Err (Protocol ''Trojan UDP truncated length''))
          else bindE (rslice buf pos (pos + 2)) (\<lambda>lb.
            let payload_len = unat (from_be lb :: u16) in
            if payload_len > MAX_UDP_PAYLOAD_LEN then Inl (Err (Protocol ''Trojan UDP payload length exceeds''))
            else bindE (idx buf (pos + 2)) (\<lambda>c. bindE (idx buf (pos + 3)) (\<lambda>l.
              if c \<noteq> 13 \<or> l \<noteq> 10 then Inl (Err (Protocol ''Trojan UDP missing CRLF after length''))
              else let data_off = pos + 4 in
                if data_off + payload_len > length buf then Inl (Err (Protocol ''Trojan UDP truncated payload''))
                else bindE (rslice buf data_off (data_off + payload_len)) (\<lambda>payload.
                  Inr (dest, payload, data_off + payload_len)))))))))"

definition trojan_encode_udp :: "address \<Rightarrow> bytes \<Rightarrow> bytes result" where
  "trojan_encode_udp dest payload =
     (if length payload > MAX_UDP_PAYLOAD_LEN then Inl (Err (Protocol ''Trojan UDP payload length exceeds''))
      else bindE (write_socks5_address [] dest) (\<lambda>buf.
        Inr (buf @ to_be 2 (of_nat (length payload) :: u16) @ CRLF @ payload)))"

section \<open>The relay loop\<close>

lemma trojan_parse_udp_shape:
  assumes "trojan_parse_udp buf = Inr (dest, payload, n)"
  obtains atyp ab k rest where "buf = atyp # ab @ to_be 2 (k :: u16) @ CRLF @ payload @ rest"
    and "decode_socks5_address (tl buf) atyp = Inr (dest, length ab)"
    and "length payload = unat k" and "unat k \<le> MAX_UDP_PAYLOAD_LEN"
    and "n = 1 + length ab + 4 + length payload"
proof -
  have l4: "4 \<le> length buf" using assms by (auto simp: trojan_parse_udp_def split: if_splits)
  then obtain atyp data where buf: "buf = atyp # data" by (cases buf) auto
  with assms l4 obtain c where dec: "decode_socks5_address data atyp = Inr (dest, c)"
    by (auto simp: trojan_parse_udp_def bindE_eq_Inr Let_def split: if_splits prod.splits)
  let ?ab = "take c data" and ?r = "drop c data"
  have c: "c \<le> length data" using decode_socks5_address_bound [OF dec] by simp
  have p: "4 \<le> length ?r" "unat (from_be (take 2 ?r) :: u16) \<le> MAX_UDP_PAYLOAD_LEN"
    "?r ! 2 = 13" "?r ! 3 = 10" "4 + unat (from_be (take 2 ?r) :: u16) \<le> length ?r"
    "payload = take (unat (from_be (take 2 ?r) :: u16)) (drop 4 ?r)"
    "n = 5 + c + unat (from_be (take 2 ?r) :: u16)"
    using assms l4 c
    by (auto simp: trojan_parse_udp_def buf dec Let_def nth_append drop_Cons' add.commute add.left_commute
        split: if_splits)
  define k :: u16 where "k = from_be (take 2 ?r)"
  have "to_be 2 k = take 2 ?r" unfolding k_def using p(1) by (intro to_be_from_be) auto
  moreover have "?r = take 2 ?r @ [?r ! 2, ?r ! 3] @ drop 4 ?r"
    using p(1) by (rule split_2_4)
  moreover define rest where "rest = drop (unat k) (drop 4 ?r)"
  have "drop 4 ?r = payload @ rest"
    unfolding p(6) k_def rest_def by (rule append_take_drop_id [symmetric])
  ultimately have "?r = to_be 2 k @ [13, 10] @ payload @ rest" using p(3,4) by metis
  moreover have "data = ?ab @ ?r" by simp
  ultimately have "buf = atyp # ?ab @ to_be 2 k @ CRLF @ payload @ rest"
    unfolding buf by metis
  moreover have "length payload = unat k" using p(5,6) by (simp add: k_def)
  ultimately show ?thesis
    using that [of atyp ?ab k rest] dec c p(2,7) by (simp add: buf k_def)
qed

lemma trojan_parse_udp_layout:
  assumes "decode_socks5_address (ab @ to_be 2 (k :: u16) @ CRLF @ payload @ rest) atyp = Inr (dest, length ab)"
    and "length payload = unat k" and "unat k \<le> MAX_UDP_PAYLOAD_LEN"
  shows "trojan_parse_udp (atyp # ab @ to_be 2 k @ CRLF @ payload @ rest) =
    Inr (dest, payload, 1 + length ab + 4 + length payload)"
  using assms by (simp add: trojan_parse_udp_def Let_def nth_append drop_Cons')

lemma trojan_parse_udp_encode:
  assumes "wire_ok dest" and "trojan_encode_udp dest payload = Inr w"
  shows "trojan_parse_udp (w @ rest) = Inr (dest, payload, length w)"
proof -
  from assms(2) obtain a where a: "write_socks5_address [] dest = Inr a" and len: "length payload \<le> MAX_UDP_PAYLOAD_LEN"
    and w: "w = a @ to_be 2 (of_nat (length payload) :: u16) @ CRLF @ payload"
    by (auto simp: trojan_encode_udp_def bindE_eq_Inr split: if_splits)
  let ?k = "of_nat (length payload) :: u16"
  have d: "a \<noteq> []" "decode_socks5_address (tl a @ to_be 2 ?k @ CRLF @ payload @ rest) (hd a) = Inr (dest, length (tl a))"
    using decode_write_socks5 [OF assms(1) a] by auto
  have k: "unat ?k = length payload" using len by simp
  have "trojan_parse_udp (hd a # tl a @ to_be 2 ?k @ CRLF @ payload @ rest) = Inr (dest, payload, 1 + length (tl a) + 4 + length payload)"
    by (rule trojan_parse_udp_layout [OF d(2)]) (use k len in simp_all)
  moreover have "w @ rest = hd a # tl a @ to_be 2 ?k @ CRLF @ payload @ rest" using d(1) by (simp add: w)
  moreover have "length w = 1 + length (tl a) + 4 + length payload" using d(1) by (cases a) (simp_all add: w)
  ultimately show ?thesis by simp
qed

lemma trojan_parse_udp_extend:
  assumes "trojan_parse_udp buf = Inr (dest, payload, n)"
  shows "trojan_parse_udp (buf @ extra) = Inr (dest, payload, n)"
proof -
  from assms obtain atyp ab and k :: u16 and rest where s: "buf = atyp # ab @ to_be 2 k @ CRLF @ payload @ rest"
    "decode_socks5_address (tl buf) atyp = Inr (dest, length ab)" "length payload = unat k"
    "unat k \<le> MAX_UDP_PAYLOAD_LEN" "n = 1 + length ab + 4 + length payload"
    by (rule trojan_parse_udp_shape)
  have "decode_socks5_address (ab @ to_be 2 k @ CRLF @ payload @ (rest @ extra)) atyp = Inr (dest, length ab)"
    using decode_socks5_address_extend [OF s(2), of extra] by (simp add: s(1))
  from trojan_parse_udp_layout [OF this s(3,4)] show ?thesis by (simp add: s(1,5))
qed

lemma trojan_parse_udp_consumes:
  assumes "trojan_parse_udp buf = Inr (dest, payload, n)"
  shows "0 < n \<and> n \<le> length buf \<and> wire_ok dest \<and> length payload \<le> MAX_UDP_PAYLOAD_LEN"
  using assms
proof (rule trojan_parse_udp_shape)
  fix atyp ab and k :: u16 and rest
  assume "buf = atyp # ab @ to_be 2 k @ CRLF @ payload @ rest"
    "decode_socks5_address (tl buf) atyp = Inr (dest, length ab)" "length payload = unat k"
    "unat k \<le> MAX_UDP_PAYLOAD_LEN" "n = 1 + length ab + 4 + length payload"
  then show ?thesis using decode_socks5_address_wire_ok by auto
qed

text \<open>Every refusal of the parser is a protocol error.\<close>

lemma decode_socks5_address_Inl: "decode_socks5_address data atyp = Inl f \<Longrightarrow> \<exists>m. f = Err (Protocol m)"
  by (cases data) (auto simp: decode_socks5_address_def Let_def split: if_splits)

lemma trojan_parse_udp_Inl:
  assumes "trojan_parse_udp buf = Inl f"
  shows "\<exists>m. f = Err (Protocol m)"
proof (cases "length buf < 4")
  case False
  then obtain atyp data where buf: "buf = atyp # data" by (cases buf) auto
  show ?thesis
  proof (cases "decode_socks5_address data atyp")
    case (Inl g)
    then show ?thesis using decode_socks5_address_Inl [OF Inl] assms False by (simp add: trojan_parse_udp_def buf)
  next
    case (Inr x)
    then show ?thesis using assms False
      by (cases x) (auto simp: trojan_parse_udp_def buf Let_def split: if_splits)
  qed
qed (use assms in \<open>auto simp: trojan_parse_udp_def\<close>)

text \<open>The datagram format is a framing.\<close>

definition trojan_udp_ok :: "address \<times> bytes \<Rightarrow> bool" where
  "trojan_udp_ok d \<longleftrightarrow> wire_ok (fst d) \<and> length (snd d) \<le> MAX_UDP_PAYLOAD_LEN"

definition trojan_udp_enc :: "address \<times> bytes \<Rightarrow> bytes result" where
  "trojan_udp_enc d = trojan_encode_udp (fst d) (snd d)"

definition trojan_udp_dec :: "bytes \<Rightarrow> ((address \<times> bytes) \<times> nat) result" where
  "trojan_udp_dec buf = bindE (trojan_parse_udp buf) (\<lambda>(a, p, n). Inr ((a, p), n))"

lemma trojan_udp_dec_eq: "trojan_udp_dec buf = Inr (d, n) \<longleftrightarrow> trojan_parse_udp buf = Inr (fst d, snd d, n)"
  by (cases d) (auto simp: trojan_udp_dec_def bindE_eq_Inr)

interpretation trojan_udp: framing trojan_udp_ok trojan_udp_enc trojan_udp_dec
proof
  fix d assume "trojan_udp_ok d"
  then show "\<exists>w. trojan_udp_enc d = Inr w"
    using write_socks5_address_total by (force simp: trojan_udp_ok_def trojan_udp_enc_def trojan_encode_udp_def)
next
  fix d w rest assume "trojan_udp_ok d" "trojan_udp_enc d = Inr w"
  then show "trojan_udp_dec (w @ rest) = Inr (d, length w)"
    by (simp add: trojan_udp_dec_eq trojan_udp_ok_def trojan_udp_enc_def trojan_parse_udp_encode)
next
  fix bs d n more assume "trojan_udp_dec bs = Inr (d, n)"
  then show "n \<le> length bs" "trojan_udp_dec (bs @ more) = Inr (d, n)"
    using trojan_parse_udp_consumes trojan_parse_udp_extend by (auto simp: trojan_udp_dec_eq)
qed

type_synonym trojan_out = "(address \<times> bytes) list \<times> bytes list"

text \<open>
  The inner loop of \<^verbatim>\<open>relay_trojan_udp\<close>: \<open>k\<close> is \<^verbatim>\<open>consumed_total\<close>. The exchange with the upstream
  socket (resolve, send, wait for one reply) is a parameter that may depend on the datagrams sent before.
  The output is the datagrams sent upstream and the replies queued for the client.
\<close>

function trojan_drain :: "((address \<times> bytes) list \<Rightarrow> address \<Rightarrow> bytes \<Rightarrow> bytes option result)
    \<Rightarrow> bytes \<Rightarrow> nat \<Rightarrow> trojan_out \<Rightarrow> (nat \<times> trojan_out) result" where
  "trojan_drain ex acc k out =
     (if acc = [] then Inr (k, out)
      else (case trojan_parse_udp (drop k acc) of
        Inr (dest, payload, consumed) \<Rightarrow>
          if payload = [] then trojan_drain ex acc (k + consumed) out
          else bindE (ex (fst out) dest payload) (\<lambda>r. case r of
              None \<Rightarrow> trojan_drain ex acc (k + consumed) (fst out @ [(dest, payload)], snd out)
            | Some reply_payload \<Rightarrow> bindE (trojan_encode_udp dest reply_payload) (\<lambda>reply.
                trojan_drain ex acc (k + consumed) (fst out @ [(dest, payload)], snd out @ [reply])))
      | Inl (Err (Protocol _)) \<Rightarrow>
          if length acc > 65507 then Inl (Err (Protocol ''Trojan UDP datagram buffer overflow''))
          else Inr (k, out)
      | Inl f \<Rightarrow> Inl f))"
  by pat_completeness auto
termination
proof (relation "measure (\<lambda>(ex, acc, k, out). length acc - k)")
qed (auto dest!: trojan_parse_udp_consumes)

declare trojan_drain.simps [simp del]

text \<open>The read loop: \<open>chunks\<close> is what successive reads return.\<close>

fun trojan_relay :: "((address \<times> bytes) list \<Rightarrow> address \<Rightarrow> bytes \<Rightarrow> bytes option result)
    \<Rightarrow> bytes \<Rightarrow> bytes list \<Rightarrow> trojan_out \<Rightarrow> (bytes \<times> trojan_out) result" where
  "trojan_relay ex acc [] out = Inr (acc, out)"
| "trojan_relay ex acc (c # cs) out =
     (if c = [] then Inr (acc, out)
      else bindE (trojan_drain ex (acc @ c) 0 out) (\<lambda>(k, out').
        trojan_relay ex (drop k (acc @ c)) cs out'))"

section \<open>Requests round trip\<close>

lemma expect_crlf_run: "expect_crlf ctx (CRLF @ rest) = Inr ((), rest)"
  by (simp add: expect_crlf_def wire_simps) (simp add: rbind_def read_exact_def rret_def)

lemma wf_expect_crlf: "wf_reader (expect_crlf ctx)"
  unfolding expect_crlf_def by (intro wf_rbind wf_read_exact wf_reader_if wf_rfail wf_rret)

text \<open>
  The server reads back the token, command and destination the client wrote and
  leaves exactly the payload; decoding never panics whatever the client sends.
\<close>

theorem trojan_decode_encode_request:
  assumes "length token = TOKEN_LEN" and "command = CMD_CONNECT \<or> command = CMD_UDP_ASSOCIATE"
    and "wire_ok dest" and "trojan_encode_request token command dest = Inr w"
  shows "trojan_decode_request (w @ rest) = Inr (\<lparr>tr_token = token, tr_command = command, tr_dest = dest\<rparr>, rest)
    \<and> trojan_decode_request bs \<noteq> Inl Panic"
proof
  from assms(4) obtain a where a: "write_socks5_address [] dest = Inr a"
    and w: "w = token @ CRLF @ [command] @ a @ CRLF"
    by (subst (asm) trojan_encode_request_def, subst (asm) write_socks5_address_append)
       (auto simp: bindE_eq_Inr)
  have d: "a \<noteq> []" "read_socks5_address (hd a) (tl a @ CRLF @ rest) = Inr (dest, CRLF @ rest)"
    using read_write_socks5 [OF assms(3) a] by auto
  then obtain t ts where "a = t # ts" by (cases a) auto
  then show "trojan_decode_request (w @ rest) = Inr (\<lparr>tr_token = token, tr_command = command, tr_dest = dest\<rparr>, rest)"
    using assms(1,2) d(2) expect_crlf_run [of "''after token''" "command # a @ CRLF @ rest"]
      expect_crlf_run [of "''after address''" rest]
    by (auto simp: w trojan_decode_request_def wire_simps)
  have "wf_reader trojan_decode_request"
    unfolding trojan_decode_request_def
    by (intro wf_rbind wf_read_exact wf_expect_crlf wf_read_u8 wf_reader_if wf_rfail wf_rret wf_read_socks5_address)
  then show "trojan_decode_request bs \<noteq> Inl Panic" by (rule wf_reader_no_panic)
qed

lemma trojan_encode_request_total: "wire_ok dest \<Longrightarrow> \<exists>w. trojan_encode_request token command dest = Inr w"
  using write_socks5_address_total [of dest]
  by (subst trojan_encode_request_def, subst write_socks5_address_append) auto

theorem trojan_decode_encode_request_witness:
  "\<exists>w. trojan_encode_request (replicate 56 97) 1 (Domain (ascii ''a.io'') 443) = Inr w
     \<and> trojan_decode_request (w @ [5]) =
         Inr (\<lparr>tr_token = replicate 56 97, tr_command = 1, tr_dest = Domain (ascii ''a.io'') 443\<rparr>, [5])"
proof -
  have ok: "wire_ok (Domain (ascii ''a.io'') 443)" by code_simp
  obtain w where "trojan_encode_request (replicate 56 97) 1 (Domain (ascii ''a.io'') 443) = Inr w"
    using trojan_encode_request_total [OF ok] by blast
  with trojan_decode_encode_request [OF _ _ ok this, of "[5]"] show ?thesis by simp
qed

section \<open>Reassembly\<close>

text \<open>Cutting a concatenation of nonempty words at any point.\<close>

lemma split_concat:
  assumes "xs @ ys = concat ws" and "[] \<notin> set ws"
  obtains ws1 ws2 p where "ws = ws1 @ ws2" "xs = concat ws1 @ p" "p @ ys = concat ws2"
    "ws2 \<noteq> [] \<longrightarrow> length p < length (hd ws2)"
  using assms
proof (induction ws arbitrary: xs thesis)
  case Nil
  then show ?case by (metis append_is_Nil_conv append_Nil2 concat.simps(1))
next
  case (Cons w ws)
  show ?case
  proof (cases "length xs < length w")
    case True
    show ?thesis by (rule Cons.prems(1) [of "[]" "w # ws" xs]) (use Cons.prems True in auto)
  next
    case False
    then obtain xs' where xs: "xs = w @ xs'"
      using Cons.prems(2) by (auto simp: append_eq_append_conv2)
    then have "xs' @ ys = concat ws" using Cons.prems(2) by simp
    then obtain ws1 ws2 p where "ws = ws1 @ ws2" "xs' = concat ws1 @ p" "p @ ys = concat ws2"
      "ws2 \<noteq> [] \<longrightarrow> length p < length (hd ws2)"
      using Cons.IH [of xs'] Cons.prems(3) by (metis list.set_intros(2))
    then show ?thesis using Cons.prems(1) [of "w # ws1" ws2 p] xs by simp
  qed
qed

definition encodes :: "(address \<times> bytes) list \<Rightarrow> bytes list \<Rightarrow> bool" where
  "encodes ds ws \<longleftrightarrow> list_all2 (\<lambda>d w. trojan_udp_ok d \<and> trojan_udp_enc d = Inr w) ds ws"

text \<open>The exchange answers, with a reply of at most 8192 bytes if any.\<close>

definition answers :: "((address \<times> bytes) list \<Rightarrow> address \<Rightarrow> bytes \<Rightarrow> bytes option result) \<Rightarrow> bool" where
  "answers ex \<longleftrightarrow> (\<forall>h a p. \<exists>r. ex h a p = Inr r \<and> (\<forall>b. r = Some b \<longrightarrow> length b \<le> MAX_UDP_PAYLOAD_LEN))"

lemma trojan_encode_udp_length:
  assumes "trojan_encode_udp dest payload = Inr w"
  shows "0 < length w \<and> length w \<le> 8455"
proof -
  from assms obtain a where a: "write_socks5_address [] dest = Inr a" "length payload \<le> MAX_UDP_PAYLOAD_LEN"
    "w = a @ to_be 2 (of_nat (length payload) :: u16) @ CRLF @ payload"
    by (auto simp: trojan_encode_udp_def bindE_eq_Inr split: if_splits)
  moreover have "length a \<le> 259"
    using a(1) by (cases dest) (auto simp: write_socks5_address_def domain_wire_len_def split: if_splits)
  ultimately show ?thesis by simp
qed

definition nonempty :: "(address \<times> bytes) list \<Rightarrow> (address \<times> bytes) list" where
  "nonempty ds = filter (\<lambda>d. snd d \<noteq> []) ds"

abbreviation (input) "OVERFLOW \<equiv> Err (Protocol ''Trojan UDP datagram buffer overflow'')"

lemma nonempty_Cons: "nonempty (d # ds) = (if snd d \<noteq> [] then [d] else []) @ nonempty ds"
  by (simp add: nonempty_def)

lemma trojan_drain_stop:
  assumes "acc \<noteq> []" and "trojan_udp_dec (drop k acc) = Inl f"
  shows "trojan_drain ex acc k out = (if length acc > 65507 then Inl OVERFLOW else Inr (k, out))"
proof -
  have "trojan_parse_udp (drop k acc) = Inl f"
    using assms(2) by (auto simp: trojan_udp_dec_def bindE_eq_Inl)
  moreover from this obtain m where "f = Err (Protocol m)" using trojan_parse_udp_Inl by blast
  ultimately show ?thesis using assms by (subst trojan_drain.simps) simp
qed

lemma trojan_drain_run:
  assumes "answers ex" and "encodes ds ws" and "drop k acc = concat ws @ p" and "acc \<noteq> []"
    and "trojan_udp_dec p = Inl f" and "k \<le> length acc"
  shows "\<exists>rs. trojan_drain ex acc k out = (if length acc > 65507 then Inl OVERFLOW
    else Inr (k + length (concat ws), fst out @ nonempty ds, snd out @ rs))"
  using assms(2,3,6)
proof (induction ds arbitrary: ws k out)
  case Nil
  then have "ws = []" by (simp add: encodes_def)
  then show ?case using Nil trojan_drain_stop [OF assms(4), of k f ex out] assms(5)
    by (auto simp: nonempty_def intro: exI [of _ "[]"])
next
  case (Cons d ds)
  then obtain w ws' where ws: "ws = w # ws'" and d: "trojan_udp_ok d" "trojan_udp_enc d = Inr w" and e: "encodes ds ws'"
    by (auto simp: encodes_def list_all2_Cons1)
  have "drop k acc = w @ (concat ws' @ p)" using Cons.prems(2) ws by simp
  with trojan_udp.dec_enc [OF d, of "concat ws' @ p"]
  have parse: "trojan_parse_udp (drop k acc) = Inr (fst d, snd d, length w)" by (simp add: trojan_udp_dec_eq)
  have eq: "drop k acc = w @ (concat ws' @ p)" using Cons.prems(2) ws by simp
  have "drop (length w) (drop k acc) = concat ws' @ p" by (simp add: eq)
  moreover have "length (drop k acc) = length w + length (concat ws' @ p)" by (simp add: eq)
  ultimately have next_k: "drop (k + length w) acc = concat ws' @ p" "k + length w \<le> length acc"
    using Cons.prems(3) by (simp_all add: add.commute)
  note IH = Cons.IH [OF e next_k]
  show ?case
  proof (cases "snd d = []")
    case True
    then show ?thesis using IH [of out] parse assms(4)
      by (subst trojan_drain.simps) (auto simp: ws nonempty_Cons add.assoc)
  next
    case False
    obtain r where r: "ex (fst out) (fst d) (snd d) = Inr r" "\<And>b. r = Some b \<Longrightarrow> length b \<le> MAX_UDP_PAYLOAD_LEN"
      using assms(1) unfolding answers_def by blast
    show ?thesis
    proof (cases r)
      case None
      then show ?thesis using IH [of "(fst out @ [d], snd out)"] parse assms(4) False r(1)
        by (subst trojan_drain.simps) (auto simp: ws nonempty_Cons add.assoc)
    next
      case (Some b)
      then obtain q where q: "trojan_encode_udp (fst d) b = Inr q"
        using trojan_udp.enc_total [of "(fst d, b)"] r(2) d(1) by (auto simp: trojan_udp_ok_def trojan_udp_enc_def)
      obtain rs where "trojan_drain ex acc (k + length w) (fst out @ [d], snd out @ [q]) =
          (if length acc > 65507 then Inl OVERFLOW else
             Inr (k + length w + length (concat ws'), (fst out @ [d]) @ nonempty ds, (snd out @ [q]) @ rs))"
        using IH [of "(fst out @ [d], snd out @ [q])"] unfolding fst_conv snd_conv by blast
      then have "trojan_drain ex acc k out = (if length acc > 65507 then Inl OVERFLOW
          else Inr (k + length (concat ws), fst out @ nonempty (d # ds), snd out @ (q # rs)))"
        using Some q parse assms(4) False r(1) by (subst trojan_drain.simps) (auto simp: ws nonempty_Cons add.assoc)
      then show ?thesis by blast
    qed
  qed
qed


lemma encodes_app:
  "encodes ds (ws1 @ ws2) \<Longrightarrow> \<exists>ds1 ds2. ds = ds1 @ ds2 \<and> encodes ds1 ws1 \<and> encodes ds2 ws2"
  by (auto simp: encodes_def list_all2_append2)

lemma encodes_word:
  assumes "encodes ds ws" and "w \<in> set ws"
  shows "0 < length w \<and> length w \<le> 8455"
proof -
  obtain i where "i < length ws" "w = ws ! i" using assms(2) by (auto simp: in_set_conv_nth)
  then have "trojan_udp_enc (ds ! i) = Inr w" using assms(1) by (simp add: encodes_def list_all2_conv_all_nth)
  then show ?thesis using trojan_encode_udp_length unfolding trojan_udp_enc_def by blast
qed

text \<open>What is left at the end of a buffer is not a datagram.\<close>

lemma pending_not_datagram:
  assumes "encodes ds ws" and "p @ ys = concat ws" and "ws \<noteq> [] \<longrightarrow> length p < length (hd ws)"
  shows "\<exists>f. trojan_udp_dec p = Inl f"
proof (cases ws)
  case Nil
  then show ?thesis using assms(2) by (simp add: trojan_udp_dec_def trojan_parse_udp_def)
next
  case (Cons w ws')
  then obtain d where d: "trojan_udp_ok d" "trojan_udp_enc d = Inr w"
    using assms(1) by (auto simp: encodes_def list_all2_Cons2)
  have l: "length p < length w" using assms(3) Cons by simp
  moreover have "p @ ys = w @ concat ws'" using assms(2) Cons by simp
  ultimately obtain q where "w = p @ q" "q \<noteq> []" by (auto simp: append_eq_append_conv2)
  then show ?thesis using trojan_udp.dec_strict_prefix d by metis
qed

lemma nonempty_append [simp]: "nonempty (xs @ ys) = nonempty xs @ nonempty ys"
  by (simp add: nonempty_def)

lemma trojan_relay_run:
  assumes "answers ex" and "encodes ds ws" and "p @ concat cs = concat ws" and "ws \<noteq> [] \<longrightarrow> length p < length (hd ws)"
    and "\<forall>c\<in>set cs. 0 < length c \<and> length c \<le> 57000"
  shows "\<exists>rs. trojan_relay ex p cs out = Inr ([], fst out @ nonempty ds, snd out @ rs)"
  using assms(2-5)
proof (induction cs arbitrary: p ws ds out)
  case Nil
  then have "ws = []" by (cases ws) auto
  then show ?case using Nil by (auto simp: encodes_def nonempty_def intro: exI [of _ "[]"])
next
  case (Cons c cs)
  have "(p @ c) @ concat cs = concat ws" using Cons.prems(2) by simp
  moreover have "[] \<notin> set ws" using encodes_word [OF Cons.prems(1)] by fastforce
  ultimately obtain ws1 ws2 q where s: "ws = ws1 @ ws2" "p @ c = concat ws1 @ q" "q @ concat cs = concat ws2"
      "ws2 \<noteq> [] \<longrightarrow> length q < length (hd ws2)"
    by (rule split_concat)
  obtain ds1 ds2 where e: "ds = ds1 @ ds2" "encodes ds1 ws1" "encodes ds2 ws2"
    using encodes_app Cons.prems(1) s(1) by blast
  obtain f where f: "trojan_udp_dec q = Inl f" using pending_not_datagram [OF e(3) s(3,4)] by blast
  have "length p \<le> 8455"
  proof (cases ws)
    case Nil
    then show ?thesis using Cons.prems(2) by simp
  next
    case (Cons w ws')
    then show ?thesis using Cons.prems(3) encodes_word [OF Cons.prems(1), of w] by simp
  qed
  then have len: "length (p @ c) \<le> 65507" "p @ c \<noteq> []" using Cons.prems(4) by auto
  obtain rs where d: "trojan_drain ex (p @ c) 0 out = Inr (length (concat ws1), fst out @ nonempty ds1, snd out @ rs)"
    using trojan_drain_run [OF assms(1) e(2) _ len(2) f, of 0 out] s(2) len(1) by auto
  have "drop (length (concat ws1)) (p @ c) = q" by (simp add: s(2))
  moreover obtain rs' where "trojan_relay ex q cs (fst out @ nonempty ds1, snd out @ rs) =
      Inr ([], (fst out @ nonempty ds1) @ nonempty ds2, (snd out @ rs) @ rs')"
    using Cons.IH [OF e(3) s(3,4), of "(fst out @ nonempty ds1, snd out @ rs)"] Cons.prems(4) by auto
  ultimately have "trojan_relay ex p (c # cs) out = Inr ([], fst out @ nonempty ds, snd out @ (rs @ rs'))"
    using d Cons.prems(4) by (simp add: e(1))
  then show ?case by blast
qed



definition sample_payload :: "nat \<Rightarrow> bytes" where
  "sample_payload n = replicate n 0"

definition sample_word :: "nat \<Rightarrow> bytes" where
  "sample_word n = [1, 0, 0, 0, 1, 0, 53] @ to_be 2 (of_nat n :: u16) @ CRLF @ sample_payload n"

lemma length_sample [simp]: "length (sample_payload n) = n" "length (sample_word n) = n + 11"
  by (simp_all add: sample_word_def sample_payload_def)

lemma sample_encodes: "n \<le> MAX_UDP_PAYLOAD_LEN \<Longrightarrow> trojan_udp_ok (Ipv4 1 53, sample_payload n)
    \<and> trojan_udp_enc (Ipv4 1 53, sample_payload n) = Inr (sample_word n)"
  by (simp add: trojan_udp_ok_def trojan_udp_enc_def trojan_encode_udp_def write_socks5_address_def
      sample_word_def to_be_eval)


text \<open>
  A single read of between 65508 and 65535 bytes that consists of complete, valid
  datagrams ends the relay with a buffer-overflow error: the buffer is only drained after the inner loop, so
  the loop's last look at an empty remainder is taken for an incomplete datagram in an overfull buffer.
\<close>

theorem trojan_relay_overflow:
  assumes "answers ex" and "encodes ds ws" and "65507 < length (concat ws)" and "length (concat ws) \<le> 65535"
  shows "trojan_relay ex [] [concat ws] ([], []) = Inl OVERFLOW"
proof -
  have ne: "concat ws \<noteq> []" using assms(3) by (metis list.size(3) not_less_zero)
  have "trojan_udp_dec [] = Inl (Err (Protocol ''Trojan UDP datagram too short''))"
    by (simp add: trojan_udp_dec_def trojan_parse_udp_def)
  then have "trojan_drain ex (concat ws) 0 ([], []) = Inl OVERFLOW"
    using trojan_drain_run [OF assms(1,2), of 0 "concat ws" "[]" _ "([], [])"] ne assms(3) by auto
  then show ?thesis using ne by simp
qed

theorem trojan_relay_overflow_witness:
  "trojan_relay (\<lambda>_ _ _. Inr None) [] [concat (replicate 7 (sample_word 8192) @ [sample_word 8100])] ([], []) = Inl OVERFLOW"
proof (rule trojan_relay_overflow)
  show "answers (\<lambda>_ _ _. Inr None)" by (simp add: answers_def)
  let ?d = "\<lambda>n. (Ipv4 1 53, sample_payload n) :: address \<times> bytes"
  have "encodes (replicate 7 (?d 8192)) (replicate 7 (sample_word 8192))" "encodes [?d 8100] [sample_word 8100]"
    by (simp_all add: encodes_def sample_encodes list_all2_conv_all_nth)
  then show "encodes (replicate 7 (?d 8192) @ [?d 8100]) (replicate 7 (sample_word 8192) @ [sample_word 8100])"
    unfolding encodes_def by (rule list_all2_appendI)
  have "length (concat (replicate 7 (sample_word 8192) @ [sample_word 8100])) = 65532"
    by (simp add: length_concat sum_list_replicate)
  then show "65507 < length (concat (replicate 7 (sample_word 8192) @ [sample_word 8100]))"
    "length (concat (replicate 7 (sample_word 8192) @ [sample_word 8100])) \<le> 65535" by simp_all
qed

end
