(* ===== verification/Datagrams.thy ===== *)
theory Datagrams
  imports Address
begin

text \<open>
  Two further users of the SOCKS5 address form: the SOCKS5 UDP ASSOCIATE datagram
  (\<^verbatim>\<open>socks5_udp.rs\<close>) and the SIP022 variable header of Shadowsocks 2022
  (\<^verbatim>\<open>ss2022/variable_header.rs\<close>).
\<close>

section \<open>SOCKS5 UDP datagrams\<close>

abbreviation (input) "SOCKS_UDP_HEADER \<equiv> (3 :: nat)"

definition socks_parse_udp :: "bytes \<Rightarrow> (address \<times> bytes) result" where
  "socks_parse_udp buf =
     (if length buf < SOCKS_UDP_HEADER then Inl (Err (Protocol ''SOCKS5 UDP datagram too short''))
      else bindE (idx buf 0) (\<lambda>r0. bindE (idx buf 1) (\<lambda>r1.
        if r0 \<noteq> 0 \<or> r1 \<noteq> 0 then Inl (Err (Protocol ''SOCKS5 UDP RSV must be zero''))
        else bindE (idx buf 2) (\<lambda>frag.
          if frag \<noteq> 0 then Inl (Err (Protocol ''SOCKS5 UDP fragment not supported''))
          else bindE (idx buf 3) (\<lambda>atyp. bindE (rslice buf 4 (length buf)) (\<lambda>data.
            bindE (decode_socks5_address data atyp) (\<lambda>(dest, consumed).
              let off = 4 + consumed in
              if off > length buf then Inl (Err (Protocol ''SOCKS5 UDP truncated payload''))
              else bindE (rslice buf off (length buf)) (\<lambda>payload. Inr (dest, payload)))))))))"

definition socks_encode_udp :: "address \<Rightarrow> bytes \<Rightarrow> bytes result" where
  "socks_encode_udp dest payload =
     bindE (write_socks5_address [0, 0, 0] dest) (\<lambda>buf. Inr (buf @ payload))"

datatype udp_verdict = Forward address bytes | Ignore

text \<open>
  The checks of \<^verbatim>\<open>relay_socks5_udp\<close> on a datagram received from \<open>peer\<close>, up to the point where it is
  resolved and sent. \<open>None\<close> is a panic of the relay task.
\<close>

definition socks_relay_accept :: "ip_addr \<Rightarrow> ip_addr \<Rightarrow> bytes \<Rightarrow> udp_verdict option" where
  "socks_relay_accept client_ip peer_ip dgram =
     (if peer_ip \<noteq> client_ip then Some Ignore
      else if length dgram < SOCKS_UDP_HEADER + 4 then Some Ignore
      else (case socks_parse_udp dgram of
          Inr (dest, payload) \<Rightarrow> if payload = [] then Some Ignore else Some (Forward dest payload)
        | Inl (Err _) \<Rightarrow> Some Ignore
        | Inl Panic \<Rightarrow> None))"

section \<open>SIP022 variable header\<close>

definition build_request_variable_header :: "address \<Rightarrow> bytes result" where
  "build_request_variable_header dest = bindE (write_socks5_address [] dest) (\<lambda>buf. Inr (buf @ to_be 2 (0 :: u16)))"

definition parse_variable_header :: "bytes \<Rightarrow> (address \<times> bytes) result" where
  "parse_variable_header data =
     (if data = [] then Inl (Err (Protocol ''SS-2022: empty variable header''))
      else bindE (idx data 0) (\<lambda>atyp. bindE (rslice data 1 (length data)) (\<lambda>d1.
        bindE (decode_socks5_address d1 atyp) (\<lambda>(dest, consumed).
          let pos = 1 + consumed in
          if pos + 2 > length data then Inl (Err (Protocol ''SS-2022: truncated padding length''))
          else bindE (rslice data pos (pos + 2)) (\<lambda>lb.
            let pad_len = unat (from_be lb :: u16); pos2 = pos + 2 in
            if pos2 + pad_len > length data then Inl (Err (Protocol ''SS-2022: truncated padding''))
            else bindE (rslice data (pos2 + pad_len) (length data)) (\<lambda>rest. Inr (dest, rest)))))))"

section \<open>Properties\<close>

lemma socks_parse_udp_layout:
  "socks_parse_udp (0 # 0 # 0 # atyp # data) =
     bindE (decode_socks5_address data atyp) (\<lambda>(dest, consumed). Inr (dest, drop consumed data))"
proof (cases "decode_socks5_address data atyp")
  case (Inr x)
  then obtain a n where x: "decode_socks5_address data atyp = Inr (a, n)" by (cases x) auto
  then show ?thesis using decode_socks5_address_bound [OF x]
    by (simp add: socks_parse_udp_def Let_def numeral_eq_Suc)
qed (simp add: socks_parse_udp_def Let_def numeral_eq_Suc)

lemma socks_parse_udp_no_panic:
  assumes "4 \<le> length buf"
  shows "socks_parse_udp buf \<noteq> Inl Panic"
proof -
  obtain a b c t data where buf: "buf = a # b # c # t # data"
    using assms by (auto simp: numeral_eq_Suc Suc_le_length_iff)
  show ?thesis
  proof (cases "a = 0 \<and> b = 0 \<and> c = 0")
    case True
    then show ?thesis using decode_socks5_address_no_panic [of data t]
      by (auto simp: buf socks_parse_udp_layout bindE_eq_Inl)
  next
    case False
    then show ?thesis by (auto simp: buf socks_parse_udp_def numeral_eq_Suc)
  qed
qed

text \<open>
  A SOCKS5 UDP datagram for a destination is read back as that destination and the whole
  payload, and the relay task survives every datagram. The parser alone does not: three zero bytes pass its
  length check and the read of the address type is out of bounds.
\<close>

theorem socks_udp_datagrams:
  assumes "wire_ok dest" and "socks_encode_udp dest payload = Inr w"
  shows "socks_parse_udp w = Inr (dest, payload) \<and> socks_relay_accept client peer d \<noteq> None
    \<and> socks_parse_udp [0, 0, 0] = Inl Panic"
proof (intro conjI)
  from assms(2) obtain a where a: "write_socks5_address [] dest = Inr a" and w: "w = [0, 0, 0] @ a @ payload"
    by (subst (asm) socks_encode_udp_def, subst (asm) write_socks5_address_append) (auto simp: bindE_eq_Inr)
  obtain t ts where "a = t # ts" using decode_write_socks5 [OF assms(1) a] by (cases a) auto
  then show "socks_parse_udp w = Inr (dest, payload)"
    using decode_write_socks5 [OF assms(1) a, of payload] by (simp add: w socks_parse_udp_layout)
  have "socks_parse_udp d \<noteq> Inl Panic" if "\<not> length d < SOCKS_UDP_HEADER + 4"
    using that by (intro socks_parse_udp_no_panic) simp
  then show "socks_relay_accept client peer d \<noteq> None"
    by (auto simp: socks_relay_accept_def split: sum.splits failure.splits)
  show "socks_parse_udp [0, 0, 0] = Inl Panic" by (simp add: socks_parse_udp_def idx_def numeral_eq_Suc)
qed

theorem socks_udp_datagrams_witness:
  "\<exists>w. socks_encode_udp (Ipv4 5 53) [1] = Inr w \<and> socks_parse_udp w = Inr (Ipv4 5 53, [1])"
proof -
  obtain w where "socks_encode_udp (Ipv4 5 53) [1] = Inr w"
    by (auto simp: socks_encode_udp_def write_socks5_address_def)
  with socks_udp_datagrams [of "Ipv4 5 53" "[1]" w] show ?thesis by simp
qed

lemma variable_header_layout:
  assumes "decode_socks5_address (ab @ to_be 2 (k :: u16) @ pad @ payload) atyp = Inr (dest, length ab)"
    and "length pad = unat k"
  shows "parse_variable_header (atyp # ab @ to_be 2 k @ pad @ payload) = Inr (dest, payload)"
  using assms by (simp add: parse_variable_header_def Let_def drop_Cons')

text \<open>
  The variable header of a request is parsed to its destination and to the initial
  payload after the padding, whatever padding a peer chose; the client's own header has none.
\<close>

theorem variable_header_round_trip:
  assumes "wire_ok dest" and "write_socks5_address [] dest = Inr a" and "length pad \<le> 65535"
  shows "parse_variable_header (a @ to_be 2 (of_nat (length pad) :: u16) @ pad @ payload) = Inr (dest, payload)
    \<and> build_request_variable_header dest = Inr (a @ to_be 2 (of_nat (length ([] :: bytes)) :: u16))"
proof
  let ?k = "of_nat (length pad) :: u16"
  have d: "a \<noteq> []" "decode_socks5_address (tl a @ to_be 2 ?k @ pad @ payload) (hd a) = Inr (dest, length (tl a))"
    using decode_write_socks5 [OF assms(1,2)] by auto
  then show "parse_variable_header (a @ to_be 2 ?k @ pad @ payload) = Inr (dest, payload)"
    using variable_header_layout [OF d(2)] assms(3) by (cases a) auto
  show "build_request_variable_header dest = Inr (a @ to_be 2 (of_nat (length ([] :: bytes)) :: u16))"
    using assms(2) by (simp add: build_request_variable_header_def)
qed

theorem variable_header_round_trip_witness:
  "\<exists>a. write_socks5_address [] (Ipv4 5 53) = Inr a
     \<and> parse_variable_header (a @ to_be 2 (of_nat (length [0, 0 :: u8]) :: u16) @ [0, 0] @ [7]) = Inr (Ipv4 5 53, [7])"
proof -
  obtain a where "write_socks5_address [] (Ipv4 5 53) = Inr a" by (auto simp: write_socks5_address_def)
  with variable_header_round_trip [of "Ipv4 5 53" a "[0, 0]" "[7]"] show ?thesis by auto
qed

end
