(* ===== verification/Kcp.thy ===== *)
theory Kcp
  imports Framing
begin

text \<open>
  The KCP engine of the mKCP transport (\<^verbatim>\<open>crates/blackwire-transport/src/mkcp/segment.rs\<close> and
  \<^verbatim>\<open>kcp.rs\<close>): the segment codec, the whole engine state and every operation of \<^verbatim>\<open>impl Kcp\<close>. Sequence
  numbers, timers and windows are words of the width the code uses, so every sum wraps the way an
  unchecked release build does. Return codes are integers as in the code.
\<close>

section \<open>Segments\<close>

abbreviation (input) "OVERHEAD \<equiv> (24 :: nat)"
abbreviation (input) "CMD_PUSH \<equiv> (81 :: u8)"
abbreviation (input) "CMD_ACK \<equiv> (82 :: u8)"
abbreviation (input) "CMD_WASK \<equiv> (83 :: u8)"
abbreviation (input) "CMD_WINS \<equiv> (84 :: u8)"

record segment =
  s_conv :: u32
  s_cmd :: u8
  s_frg :: u8
  s_wnd :: u16
  s_ts :: u32
  s_sn :: u32
  s_una :: u32
  s_data :: bytes
  s_resendts :: u32
  s_rto :: u32
  s_fastack :: u32
  s_xmit :: u32

definition seg_new :: "u32 \<Rightarrow> u8 \<Rightarrow> segment" where
  "seg_new conv cmd = \<lparr>s_conv = conv, s_cmd = cmd, s_frg = 0, s_wnd = 0, s_ts = 0, s_sn = 0, s_una = 0,
     s_data = [], s_resendts = 0, s_rto = 200, s_fastack = 0, s_xmit = 0\<rparr>"

definition seg_encode :: "segment \<Rightarrow> bytes" where
  "seg_encode s = to_le 4 (s_conv s) @ [s_cmd s, s_frg s] @ to_le 2 (s_wnd s) @ to_le 4 (s_ts s)
     @ to_le 4 (s_sn s) @ to_le 4 (s_una s) @ to_le 4 (of_nat (length (s_data s)) :: u32) @ s_data s"

text \<open>\<^verbatim>\<open>Segment::decode\<close>: the segment and the rest of the slice.\<close>

definition seg_decode :: "bytes \<Rightarrow> (segment \<times> bytes) option" where
  "seg_decode src =
     (if length src < OVERHEAD then None
      else let len = unat (from_le (take 4 (drop 20 src)) :: u32); rest = drop 24 src in
        if length rest < len then None
        else Some (\<lparr>s_conv = from_le (take 4 src), s_cmd = src ! 4, s_frg = src ! 5,
               s_wnd = from_le (take 2 (drop 6 src)), s_ts = from_le (take 4 (drop 8 src)),
               s_sn = from_le (take 4 (drop 12 src)), s_una = from_le (take 4 (drop 16 src)),
               s_data = take len rest, s_resendts = 0, s_rto = 200, s_fastack = 0, s_xmit = 0\<rparr>,
             drop len rest))"

section \<open>The engine\<close>

abbreviation (input) "RTO_NDL \<equiv> (30 :: u32)"
abbreviation (input) "RTO_MIN \<equiv> (100 :: u32)"
abbreviation (input) "RTO_DEF \<equiv> (200 :: u32)"
abbreviation (input) "RTO_MAX \<equiv> (60000 :: u32)"
abbreviation (input) "THRESH_MIN \<equiv> (2 :: u16)"
abbreviation (input) "PROBE_INIT \<equiv> (7000 :: u32)"
abbreviation (input) "PROBE_LIMIT \<equiv> (120000 :: u32)"

record kcp =
  k_conv :: u32
  k_mss :: u32
  k_state :: int
  snd_una :: u32
  snd_nxt :: u32
  rcv_nxt :: u32
  ssthresh :: u16
  rx_rttval :: u32
  rx_srtt :: u32
  rx_rto :: u32
  rx_minrto :: u32
  snd_wnd :: u16
  rcv_wnd :: u16
  rmt_wnd :: u16
  k_cwnd :: u16
  k_probe :: u32
  k_current :: u32
  ts_flush :: u32
  k_xmit :: u32
  k_nodelay :: bool
  k_updated :: bool
  ts_probe :: u32
  probe_wait :: u32
  dead_link :: u32
  k_incr :: u32
  snd_queue :: "segment list"
  rcv_queue :: "segment list"
  snd_buf :: "segment list"
  rcv_buf :: "segment list"
  acklist :: "(u32 \<times> u32) list"
  fastresend :: u32
  nocwnd :: bool

definition kcp_new :: "u32 \<Rightarrow> kcp" where
  "kcp_new conv = \<lparr>k_conv = conv, k_mss = 1376, k_state = 0, snd_una = 0, snd_nxt = 0, rcv_nxt = 0,
     ssthresh = 2, rx_rttval = 0, rx_srtt = 0, rx_rto = RTO_DEF, rx_minrto = RTO_MIN, snd_wnd = 32,
     rcv_wnd = 128, rmt_wnd = 128, k_cwnd = 0, k_probe = 0, k_current = 0, ts_flush = 100, k_xmit = 0,
     k_nodelay = False, k_updated = False, ts_probe = 0, probe_wait = 0, dead_link = 20, k_incr = 0,
     snd_queue = [], rcv_queue = [], snd_buf = [], rcv_buf = [], acklist = [], fastresend = 0,
     nocwnd = False\<rparr>"

definition set_nodelay :: "bool \<Rightarrow> kcp \<Rightarrow> kcp" where
  "set_nodelay nd k = k\<lparr>k_nodelay := nd, rx_minrto := (if nd then RTO_NDL else RTO_MIN)\<rparr>"

definition set_wndsize :: "u16 \<Rightarrow> u16 \<Rightarrow> kcp \<Rightarrow> kcp" where
  "set_wndsize sw rw k =
     (let k1 = (if sw > 0 then k\<lparr>snd_wnd := sw\<rparr> else k)
      in if rw > 0 then k1\<lparr>rcv_wnd := rw\<rparr> else k1)"

definition is_dead :: "kcp \<Rightarrow> bool" where
  "is_dead k \<longleftrightarrow> k_state k = -1"

subsection \<open>Receiving\<close>

definition i32 :: "nat \<Rightarrow> int" where
  "i32 n = sint (of_nat n :: u32)"

definition queue_bytes :: "segment list \<Rightarrow> nat" where
  "queue_bytes q = sum_list (map (\<lambda>s. length (s_data s)) q)"

definition peeksize :: "kcp \<Rightarrow> int" where
  "peeksize k = (case rcv_queue k of
      [] \<Rightarrow> -1
    | s # _ \<Rightarrow>
        if s_frg s = 0 then i32 (length (s_data s))
        else if length (rcv_queue k) < unat (s_frg s + 1) then -1
        else i32 (queue_bytes (rcv_queue k)))"

definition wnd_unused :: "kcp \<Rightarrow> u16" where
  "wnd_unused k = (let used = of_nat (length (rcv_queue k)) :: u16
     in if rcv_wnd k \<le> used then 0 else rcv_wnd k - used)"

fun move_loop :: "nat \<Rightarrow> segment list \<Rightarrow> u32 \<Rightarrow> segment list \<Rightarrow> segment list \<times> u32 \<times> segment list" where
  "move_loop wnd [] nxt q = ([], nxt, q)"
| "move_loop wnd (s # buf) nxt q =
     (if s_sn s = nxt \<and> length q < wnd then move_loop wnd buf (nxt + 1) (q @ [s]) else (s # buf, nxt, q))"

definition move_rcv_buf :: "kcp \<Rightarrow> kcp" where
  "move_rcv_buf k = (case move_loop (unat (rcv_wnd k)) (rcv_buf k) (rcv_nxt k) (rcv_queue k) of
      (buf, nxt, q) \<Rightarrow> k\<lparr>rcv_buf := buf, rcv_nxt := nxt, rcv_queue := q\<rparr>)"

text \<open>The position \<^verbatim>\<open>rposition(|s| s.sn < sn) + 1\<close>, zero when there is none.\<close>

fun insert_pos :: "u32 \<Rightarrow> segment list \<Rightarrow> nat" where
  "insert_pos sn [] = 0"
| "insert_pos sn (s # buf) =
     (let p = insert_pos sn buf in if p > 0 then Suc p else if s_sn s < sn then 1 else 0)"

definition insert_at :: "nat \<Rightarrow> 'a \<Rightarrow> 'a list \<Rightarrow> 'a list" where
  "insert_at i x xs = take i xs @ [x] @ drop i xs"

definition parse_data :: "segment \<Rightarrow> kcp \<Rightarrow> kcp" where
  "parse_data seg k =
     (if s_sn seg \<ge> rcv_nxt k + ucast (rcv_wnd k) \<or> s_sn seg < rcv_nxt k then k
      else if \<exists>s\<in>set (rcv_buf k). s_sn s = s_sn seg then k
      else move_rcv_buf (k\<lparr>rcv_buf := insert_at (insert_pos (s_sn seg) (rcv_buf k)) seg (rcv_buf k)\<rparr>))"

text \<open>
  \<^verbatim>\<open>recv\<close> into a buffer of \<open>cap\<close> bytes: the return code and the bytes written. Copying past the
  end of the buffer is a panic.
\<close>

fun recv_loop :: "nat \<Rightarrow> segment list \<Rightarrow> bytes \<Rightarrow> (bytes \<times> segment list) result" where
  "recv_loop cap [] out = Inr (out, [])"
| "recv_loop cap (s # q) out =
     (if length out + length (s_data s) > cap then Inl Panic
      else if s_frg s = 0 then Inr (out @ s_data s, q)
      else recv_loop cap q (out @ s_data s))"

definition recv :: "nat \<Rightarrow> kcp \<Rightarrow> (int \<times> bytes \<times> kcp) result" where
  "recv cap k =
     (if rcv_queue k = [] then Inr (-1, [], k)
      else if peeksize k < 0 then Inr (-1, [], k)
      else if peeksize k > i32 cap then Inr (-2, [], k)
      else bindE (recv_loop cap (rcv_queue k) []) (\<lambda>(out, q).
        let recover = length (rcv_queue k) \<ge> unat (rcv_wnd k);
            k1 = move_rcv_buf (k\<lparr>rcv_queue := q\<rparr>);
            k2 = (if recover \<and> length (rcv_queue k1) < unat (rcv_wnd k1)
                  then k1\<lparr>k_probe := k_probe k1 OR 2\<rparr> else k1)
        in Inr (i32 (length out), out, k2)))"

subsection \<open>Sending\<close>

fun fragments :: "u32 \<Rightarrow> nat \<Rightarrow> nat \<Rightarrow> bytes \<Rightarrow> segment list" where
  "fragments conv mss 0 buf = []"
| "fragments conv mss (Suc n) buf =
     (seg_new conv CMD_PUSH)\<lparr>s_frg := of_nat n, s_data := take mss buf\<rparr> # fragments conv mss n (drop mss buf)"

definition frag_count :: "nat \<Rightarrow> nat \<Rightarrow> nat" where
  "frag_count len mss = (len + mss - 1) div mss"

definition send :: "bytes \<Rightarrow> kcp \<Rightarrow> int \<times> kcp" where
  "send buf k =
     (if buf = [] then (-1, k)
      else let mss = unat (k_mss k); count = frag_count (length buf) mss in
        if count \<ge> 256 then (-2, k)
        else (0, k\<lparr>snd_queue := snd_queue k @ fragments (k_conv k) mss count buf\<rparr>))"

subsection \<open>Acknowledgements\<close>

definition parse_una :: "u32 \<Rightarrow> kcp \<Rightarrow> kcp" where
  "parse_una una k = k\<lparr>snd_buf := filter (\<lambda>s. s_sn s \<ge> una) (snd_buf k)\<rparr>"

definition shrink_buf :: "kcp \<Rightarrow> kcp" where
  "shrink_buf k = k\<lparr>snd_una := (case snd_buf k of [] \<Rightarrow> snd_nxt k | s # _ \<Rightarrow> s_sn s)\<rparr>"

definition update_ack :: "u32 \<Rightarrow> kcp \<Rightarrow> kcp" where
  "update_ack rtt k =
     (let k1 = (if rx_srtt k = 0 then k\<lparr>rx_srtt := rtt, rx_rttval := rtt div 2\<rparr>
        else let delta = (if rtt < rx_srtt k then rx_srtt k - rtt else rtt - rx_srtt k);
                 srtt = (7 * rx_srtt k + rtt) div 8
             in k\<lparr>rx_rttval := (3 * rx_rttval k + delta) div 4, rx_srtt := (if srtt < 1 then 1 else srtt)\<rparr>)
      in k1\<lparr>rx_rto := min (max (rx_srtt k1 + 4 * rx_rttval k1) (rx_minrto k1)) RTO_MAX\<rparr>)"

definition parse_ack :: "u32 \<Rightarrow> kcp \<Rightarrow> kcp" where
  "parse_ack sn k =
     (if sn < snd_una k \<or> sn \<ge> snd_nxt k then k
      else k\<lparr>snd_buf := filter (\<lambda>s. s_sn s \<noteq> sn) (snd_buf k)\<rparr>)"

fun bump_fastack :: "u32 \<Rightarrow> segment list \<Rightarrow> segment list" where
  "bump_fastack sn [] = []"
| "bump_fastack sn (s # buf) =
     (if s_sn s < sn then s\<lparr>s_fastack := s_fastack s + 1\<rparr> # bump_fastack sn buf else s # buf)"

definition parse_fastack :: "u32 \<Rightarrow> kcp \<Rightarrow> kcp" where
  "parse_fastack sn k =
     (if sn < snd_una k \<or> sn \<ge> snd_nxt k then k
      else k\<lparr>snd_buf := bump_fastack sn (snd_buf k)\<rparr>)"

subsection \<open>Input\<close>

record input_state =
  i_kcp :: kcp
  i_maxack :: u32
  i_flag :: bool

text \<open>One segment of a datagram; \<open>Some code\<close> is an early return.\<close>

definition input_seg :: "segment \<Rightarrow> input_state \<Rightarrow> int option \<times> input_state" where
  "input_seg seg i =
     (if s_conv seg \<noteq> k_conv (i_kcp i) then (Some (-1), i)
      else let k = shrink_buf (parse_una (s_una seg) ((i_kcp i)\<lparr>rmt_wnd := s_wnd seg\<rparr>)) in
        if s_cmd seg = CMD_ACK then
          (let k1 = shrink_buf (parse_ack (s_sn seg) (update_ack (k_current k - s_ts seg) k))
           in if \<not> i_flag i \<or> s_sn seg > i_maxack i
              then (None, i\<lparr>i_kcp := k1, i_flag := True, i_maxack := s_sn seg\<rparr>)
              else (None, i\<lparr>i_kcp := k1\<rparr>))
        else if s_cmd seg = CMD_PUSH then
          (if s_sn seg < rcv_nxt k + ucast (rcv_wnd k)
           then let k1 = k\<lparr>acklist := acklist k @ [(s_sn seg, s_ts seg)]\<rparr>
                in (None, i\<lparr>i_kcp := (if s_sn seg \<ge> rcv_nxt k1 then parse_data seg k1 else k1)\<rparr>)
           else (None, i\<lparr>i_kcp := k\<rparr>))
        else if s_cmd seg = CMD_WASK then (None, i\<lparr>i_kcp := k\<lparr>k_probe := k_probe k OR 2\<rparr>\<rparr>)
        else if s_cmd seg = CMD_WINS then (None, i\<lparr>i_kcp := k\<rparr>)
        else (Some (-3), i\<lparr>i_kcp := k\<rparr>))"

lemma seg_decode_shorter: "seg_decode src = Some (s, rest) \<Longrightarrow> length rest < length src"
  by (auto simp: seg_decode_def Let_def split: if_splits)

function input_loop :: "bytes \<Rightarrow> input_state \<Rightarrow> int option \<times> input_state" where
  "input_loop cursor i =
     (if cursor = [] then (None, i)
      else (case seg_decode cursor of
        None \<Rightarrow> (Some (-1), i)
      | Some (seg, rest) \<Rightarrow> (case input_seg seg i of
          (Some code, i') \<Rightarrow> (Some code, i')
        | (None, i') \<Rightarrow> input_loop rest i')))"
  by pat_completeness auto
termination
  by (relation "measure (\<lambda>(cursor, i). length cursor)") (auto dest: seg_decode_shorter)

declare input_loop.simps [simp del]

definition grow_cwnd :: "u32 \<Rightarrow> kcp \<Rightarrow> kcp" where
  "grow_cwnd prev_una k =
     (if snd_una k > prev_una \<and> k_cwnd k < rmt_wnd k then
        let mss = k_mss k;
            k1 = (if (ucast (k_cwnd k) :: u32) < ucast (ssthresh k)
                  then k\<lparr>k_cwnd := k_cwnd k + 1, k_incr := k_incr k + mss\<rparr>
                  else let incr0 = (if k_incr k < mss then mss else k_incr k);
                           incr1 = incr0 + ((mss * mss) div incr0 + mss div 16)
                       in if (ucast (k_cwnd k) + 1) * mss \<le> incr1
                          then k\<lparr>k_incr := incr1, k_cwnd := k_cwnd k + 1\<rparr> else k\<lparr>k_incr := incr1\<rparr>)
        in if k_cwnd k1 > rmt_wnd k1 then k1\<lparr>k_cwnd := rmt_wnd k1, k_incr := ucast (rmt_wnd k1) * mss\<rparr> else k1
      else k)"

definition input :: "bytes \<Rightarrow> kcp \<Rightarrow> int \<times> kcp" where
  "input dgram k =
     (case input_loop dgram \<lparr>i_kcp = k, i_maxack = 0, i_flag = False\<rparr> of
        (Some code, i) \<Rightarrow> (code, i_kcp i)
      | (None, i) \<Rightarrow>
          let k1 = (if i_flag i then parse_fastack (i_maxack i) (i_kcp i) else i_kcp i)
          in (0, grow_cwnd (snd_una k) k1))"

definition update_clock :: "u32 \<Rightarrow> kcp \<Rightarrow> kcp" where
  "update_clock current k =
     (let k1 = k\<lparr>k_current := current\<rparr>
      in if \<not> k_updated k1 then k1\<lparr>k_updated := True, ts_flush := current\<rparr> else k1)"

subsection \<open>Flush\<close>

definition make_ctrl :: "u8 \<Rightarrow> kcp \<Rightarrow> segment" where
  "make_ctrl cmd k = (seg_new (k_conv k) cmd)\<lparr>s_wnd := wnd_unused k, s_una := rcv_nxt k\<rparr>"

definition ack_segment :: "kcp \<Rightarrow> u32 \<times> u32 \<Rightarrow> segment" where
  "ack_segment k = (\<lambda>(sn, ts). (seg_new (k_conv k) CMD_ACK)\<lparr>s_wnd := wnd_unused k, s_ts := ts, s_sn := sn, s_una := rcv_nxt k\<rparr>)"

definition probe_window :: "kcp \<Rightarrow> kcp" where
  "probe_window k =
     (if rmt_wnd k = 0 then
        if probe_wait k = 0 then k\<lparr>probe_wait := PROBE_INIT, ts_probe := k_current k + PROBE_INIT\<rparr>
        else if k_current k \<ge> ts_probe k then
          let w0 = (if probe_wait k < PROBE_INIT then PROBE_INIT else probe_wait k);
              w1 = w0 + w0 div 2;
              w2 = (if w1 > PROBE_LIMIT then PROBE_LIMIT else w1)
          in k\<lparr>probe_wait := w2, ts_probe := k_current k + w2, k_probe := k_probe k OR 1\<rparr>
        else k
      else k\<lparr>ts_probe := 0, probe_wait := 0\<rparr>)"

definition send_window :: "kcp \<Rightarrow> u16" where
  "send_window k = (let c = min (snd_wnd k) (rmt_wnd k) in if nocwnd k then c else min c (k_cwnd k))"

fun fill_loop :: "u32 \<Rightarrow> (u32 \<Rightarrow> segment \<Rightarrow> segment) \<Rightarrow> segment list \<Rightarrow> u32 \<Rightarrow> segment list
    \<Rightarrow> segment list \<times> u32 \<times> segment list" where
  "fill_loop limit stamp [] nxt buf = ([], nxt, buf)"
| "fill_loop limit stamp (s # q) nxt buf =
     (if nxt < limit then fill_loop limit stamp q (nxt + 1) (buf @ [stamp nxt s]) else (s # q, nxt, buf))"

definition stamp_segment :: "kcp \<Rightarrow> u32 \<Rightarrow> segment \<Rightarrow> segment" where
  "stamp_segment k sn s = s\<lparr>s_conv := k_conv k, s_cmd := CMD_PUSH, s_wnd := wnd_unused k, s_ts := k_current k,
     s_sn := sn, s_una := rcv_nxt k, s_resendts := k_current k, s_rto := rx_rto k, s_xmit := 0\<rparr>"

definition fill_window :: "u16 \<Rightarrow> kcp \<Rightarrow> kcp" where
  "fill_window cwnd k = (case fill_loop (snd_una k + ucast cwnd) (stamp_segment k) (snd_queue k) (snd_nxt k) (snd_buf k) of
      (q, nxt, buf) \<Rightarrow> k\<lparr>snd_queue := q, snd_nxt := nxt, snd_buf := buf\<rparr>)"

datatype send_reason = First | Timed_out | Fast_resend | Not_sent

definition resent_limit :: "kcp \<Rightarrow> u32" where
  "resent_limit k = (if fastresend k > 0 then fastresend k else 0xFFFFFFFF)"

definition why_send :: "kcp \<Rightarrow> segment \<Rightarrow> send_reason" where
  "why_send k s =
     (if s_xmit s = 0 then First
      else if k_current k \<ge> s_resendts s then Timed_out
      else if s_fastack s \<ge> resent_limit k \<and> s_xmit s \<le> fastresend k then Fast_resend
      else Not_sent)"

definition resend_segment :: "kcp \<Rightarrow> segment \<Rightarrow> segment" where
  "resend_segment k s =
     (let rtomin = (if \<not> k_nodelay k then drop_bit 3 (rx_rto k) else 0);
          s1 = (case why_send k s of
              First \<Rightarrow> s\<lparr>s_xmit := s_xmit s + 1, s_rto := rx_rto k, s_resendts := k_current k + rx_rto k + rtomin\<rparr>
            | Timed_out \<Rightarrow>
                let rto = s_rto s + (if \<not> k_nodelay k then max (rx_rto k) (s_rto s) else rx_rto k div 2)
                in s\<lparr>s_xmit := s_xmit s + 1, s_rto := rto, s_resendts := k_current k + rto\<rparr>
            | Fast_resend \<Rightarrow> s\<lparr>s_xmit := s_xmit s + 1, s_fastack := 0, s_resendts := k_current k + s_rto s\<rparr>
            | Not_sent \<Rightarrow> s)
      in if why_send k s = Not_sent then s
         else s1\<lparr>s_ts := k_current k, s_wnd := wnd_unused k, s_una := rcv_nxt k\<rparr>)"

definition resend_all :: "kcp \<Rightarrow> kcp \<times> bytes list" where
  "resend_all k =
     (let sent = filter (\<lambda>s. why_send k s \<noteq> Not_sent) (snd_buf k);
          sent' = map (resend_segment k) sent;
          timeouts = filter (\<lambda>s. why_send k s = Timed_out) (snd_buf k)
      in (k\<lparr>snd_buf := map (resend_segment k) (snd_buf k),
            k_xmit := k_xmit k + of_nat (length timeouts),
            k_state := (if \<exists>s\<in>set sent'. s_xmit s \<ge> dead_link k then -1 else k_state k)\<rparr>,
          map seg_encode sent'))"

definition adjust_cwnd :: "bool \<Rightarrow> bool \<Rightarrow> u16 \<Rightarrow> kcp \<Rightarrow> kcp" where
  "adjust_cwnd change lost cwnd k =
     (let k1 = (if change then
            let inflight = snd_nxt k - snd_una k;
                ss = max (ucast (inflight div 2)) THRESH_MIN;
                cw = ss + ucast (resent_limit k)
            in k\<lparr>ssthresh := ss, k_cwnd := cw, k_incr := ucast cw * k_mss k\<rparr>
          else k);
          k2 = (if lost then k1\<lparr>ssthresh := max (cwnd div 2) THRESH_MIN, k_cwnd := 1, k_incr := k_mss k1\<rparr> else k1)
      in if k_cwnd k2 < 1 then k2\<lparr>k_cwnd := 1, k_incr := k_mss k2\<rparr> else k2)"

definition flush :: "kcp \<Rightarrow> bytes list \<times> kcp" where
  "flush k =
     (if \<not> k_updated k then ([], k)
      else
        let acks = map (\<lambda>a. seg_encode (ack_segment k a)) (acklist k);
            k1 = probe_window (k\<lparr>acklist := []\<rparr>);
            wask = (if k_probe k1 AND 1 \<noteq> 0 then [seg_encode (make_ctrl CMD_WASK k1)] else []);
            wins = (if k_probe k1 AND 2 \<noteq> 0 then [seg_encode (make_ctrl CMD_WINS k1)] else []);
            k2 = k1\<lparr>k_probe := 0\<rparr>;
            cwnd = send_window k2;
            k3 = fill_window cwnd k2;
            lost = (\<exists>s\<in>set (snd_buf k3). why_send k3 s = Timed_out);
            change = (\<exists>s\<in>set (snd_buf k3). why_send k3 s = Fast_resend);
            (k4, out) = resend_all k3
        in (acks @ wask @ wins @ out, adjust_cwnd change lost cwnd k4))"

section \<open>The segment codec\<close>

text \<open>What the wire carries of a segment: the retransmission bookkeeping is reset.\<close>

definition seg_wire :: "segment \<Rightarrow> segment" where
  "seg_wire s = s\<lparr>s_resendts := 0, s_rto := 200, s_fastack := 0, s_xmit := 0\<rparr>"

lemma seg_decode_encode:
  assumes "length (s_data s) < 2 ^ 32"
  shows "seg_decode (seg_encode s @ rest) = Some (seg_wire s, rest)"
proof -
  have l: "unat (of_nat (length (s_data s)) :: u32) = length (s_data s)"
    using assms by (simp add: unat_of_nat)
  define h1 where "h1 = to_le 4 (s_conv s)"
  define h2 where "h2 = to_le 2 (s_wnd s)"
  define h3 where "h3 = to_le 4 (s_ts s)"
  define h4 where "h4 = to_le 4 (s_sn s)"
  define h5 where "h5 = to_le 4 (s_una s)"
  define h6 where "h6 = to_le 4 (of_nat (length (s_data s)) :: u32)"
  have len: "length h1 = 4" "length h2 = 2" "length h3 = 4" "length h4 = 4" "length h5 = 4" "length h6 = 4"
    by (simp_all add: h1_def h2_def h3_def h4_def h5_def h6_def)
  have inv6: "from_le h1 = s_conv s" "from_le h2 = s_wnd s" "from_le h3 = s_ts s" "from_le h4 = s_sn s"
    "from_le h5 = s_una s" "(from_le h6 :: u32) = of_nat (length (s_data s))"
    by (simp_all add: h1_def h2_def h3_def h4_def h5_def h6_def)
  have e: "seg_encode s @ rest = h1 @ [s_cmd s, s_frg s] @ h2 @ h3 @ h4 @ h5 @ h6 @ s_data s @ rest"
    by (simp add: seg_encode_def h1_def h2_def h3_def h4_def h5_def h6_def)
  show ?thesis
    unfolding e seg_decode_def Let_def
    by (simp add: len inv6 l nth_append seg_wire_def)
qed

lemma seg_decode_extend:
  assumes "seg_decode src = Some (s, rest)"
  shows "seg_decode (src @ extra) = Some (s, rest @ extra)"
proof -
  have "24 \<le> length src" "unat (from_le (take 4 (drop 20 src)) :: u32) \<le> length src - 24"
    using assms by (auto simp: seg_decode_def Let_def split: if_splits)
  then show ?thesis using assms by (auto simp: seg_decode_def Let_def nth_append split: if_splits)
qed

definition seg_ok :: "segment \<Rightarrow> bool" where
  "seg_ok s \<longleftrightarrow> length (s_data s) < 2 ^ 32 \<and> seg_wire s = s"

definition seg_dec :: "bytes \<Rightarrow> (segment \<times> nat) result" where
  "seg_dec src = (case seg_decode src of
      None \<Rightarrow> Inl (Err (Protocol ''truncated segment''))
    | Some (s, rest) \<Rightarrow> Inr (s, length src - length rest))"

interpretation kcp_seg: framing seg_ok "\<lambda>s. Inr (seg_encode s)" seg_dec
proof
  fix d w rest assume "seg_ok d" "Inr (seg_encode d) = (Inr w :: bytes result)"
  then show "seg_dec (w @ rest) = Inr (d, length w)"
    using seg_decode_encode [of d rest] by (auto simp: seg_ok_def seg_dec_def)
next
  fix bs d n more assume sd: "seg_dec bs = Inr (d, n)"
  then show "n \<le> length bs" by (auto simp: seg_dec_def split: option.splits)
  from sd obtain rest where r: "seg_decode bs = Some (d, rest)" "n = length bs - length rest"
    by (auto simp: seg_dec_def split: option.splits)
  then have "length rest < length bs" by (auto dest: seg_decode_shorter)
  then show "seg_dec (bs @ more) = Inr (d, n)"
    using seg_decode_extend [OF r(1), of more] r(2) by (simp add: seg_dec_def)
qed simp

end
