(* ===== verification/KcpProps.thy ===== *)
theory KcpProps
  imports Kcp
begin

text \<open>
  What the KCP engine promises: the receiver turns whatever the network delivers into the sender's
  segments, in order and exactly once (a refinement of a FIFO stream); messages survive fragmentation; timers
  and windows stay in their bounds.
\<close>

section \<open>The receive path\<close>

text \<open>The part of the engine that the receive path reads and writes.\<close>

definition rview :: "kcp \<Rightarrow> u32 \<times> u16 \<times> segment list \<times> segment list" where
  "rview k = (rcv_nxt k, rcv_wnd k, rcv_queue k, rcv_buf k)"

lemma rview_ack_ops [simp]:
  "rview (parse_una una k) = rview k" "rview (shrink_buf k) = rview k" "rview (update_ack rtt k) = rview k"
  "rview (parse_ack sn k) = rview k" "rview (parse_fastack sn k) = rview k" "rview (grow_cwnd p k) = rview k"
  by (simp_all add: rview_def parse_una_def shrink_buf_def update_ack_def parse_ack_def parse_fastack_def
      grow_cwnd_def Let_def)

lemma rview_updates [simp]:
  "rview (k\<lparr>rmt_wnd := w\<rparr>) = rview k" "rview (k\<lparr>k_probe := p\<rparr>) = rview k" "rview (k\<lparr>acklist := a\<rparr>) = rview k"
  "rview (k\<lparr>snd_queue := q\<rparr>) = rview k"
  by (simp_all add: rview_def)

text \<open>
  \<open>stream\<close> lists the fragment number and data of everything the sender has sent, the element at index \<open>i\<close>
  under sequence number \<open>i\<close>; \<open>log\<close> is what the application has taken so far.
\<close>

definition content :: "segment \<Rightarrow> u8 \<times> bytes" where
  "content s = (s_frg s, s_data s)"

definition honest_seg :: "(u8 \<times> bytes) list \<Rightarrow> segment \<Rightarrow> bool" where
  "honest_seg stream s \<longleftrightarrow> unat (s_sn s) < length stream \<and> content s = stream ! unat (s_sn s)"

definition sn_less :: "segment \<Rightarrow> segment \<Rightarrow> bool" where
  "sn_less a b \<longleftrightarrow> s_sn a < s_sn b"

fun rinv :: "(u8 \<times> bytes) list \<Rightarrow> (u8 \<times> bytes) list \<Rightarrow> u32 \<times> u16 \<times> segment list \<times> segment list \<Rightarrow> bool" where
  "rinv stream log (nxt, wnd, q, buf) \<longleftrightarrow>
     log @ map content q = take (unat nxt) stream \<and> unat nxt \<le> length stream \<and> length q \<le> 65535
     \<and> list_all (honest_seg stream) buf \<and> sorted_wrt sn_less buf \<and> list_all (\<lambda>s. nxt \<le> s_sn s) buf"

lemma u16_less: "unat (w :: u16) < 65536"
  by (rule order_less_le_trans [OF unsigned_less]) simp

lemma unat_Suc_below: "unat (n :: u32) < N \<Longrightarrow> N \<le> 2 ^ 32 - 1 \<Longrightarrow> unat (n + 1) = unat n + 1"
  by (subst unat_add_lem [THEN iffD1]) simp_all

lemma sn_less_Suc:
  assumes "unat (n :: u32) < N" and "N \<le> 2 ^ 32 - 1" and "n < m"
  shows "n + 1 \<le> m"
  using assms unat_Suc_below [OF assms(1,2)] by (simp add: word_le_nat_alt word_less_nat_alt)

lemma move_loop_rinv:
  assumes "rinv stream log (nxt, wnd, q, buf)" and "length stream \<le> 2 ^ 32 - 1"
    and "move_loop (unat (wnd :: u16)) buf nxt q = (buf', nxt', q')"
  shows "rinv stream log (nxt', wnd, q', buf')"
  using assms(1,3)
proof (induction buf arbitrary: nxt q)
  case (Cons s buf)
  show ?case
  proof (cases "s_sn s = nxt \<and> length q < unat wnd")
    case True
    have h: "honest_seg stream s" using Cons.prems(1) by simp
    then have lt: "unat nxt < length stream" and c: "content s = stream ! unat nxt"
      using True by (simp_all add: honest_seg_def)
    note up = unat_Suc_below [OF lt assms(2)]
    have w: "length q < 65535" using True u16_less [of wnd] by linarith
    have "list_all (\<lambda>s. nxt + 1 \<le> s_sn s) buf"
      using Cons.prems(1) True sn_less_Suc [OF lt assms(2)] by (auto simp: list_all_iff sn_less_def)
    then have "rinv stream log (nxt + 1, wnd, q @ [s], buf)"
      using Cons.prems(1) c lt up w by (simp add: take_Suc_conv_app_nth flip: append_assoc)
    then show ?thesis using Cons.IH [of "nxt + 1" "q @ [s]"] Cons.prems(2) True by simp
  next
    case False
    then show ?thesis using Cons.prems by auto
  qed
qed auto

lemma move_rcv_buf_rinv:
  assumes "rinv stream log (rview k)" and "length stream \<le> 2 ^ 32 - 1"
  shows "rinv stream log (rview (move_rcv_buf k))"
proof -
  obtain buf' nxt' q' where m: "move_loop (unat (rcv_wnd k)) (rcv_buf k) (rcv_nxt k) (rcv_queue k) = (buf', nxt', q')"
    by (metis prod_cases3)
  then show ?thesis
    using move_loop_rinv [OF assms(1) [unfolded rview_def] assms(2) m] by (simp add: move_rcv_buf_def rview_def)
qed

text \<open>The insertion position keeps the out-of-order buffer sorted.\<close>

lemma insert_pos_zero: "list_all (\<lambda>s. sn \<le> s_sn s) buf \<Longrightarrow> insert_pos sn buf = 0"
  by (induction buf) (auto simp: Let_def)

lemma insert_at_Cons: "insert_at (Suc i) x (y # ys) = y # insert_at i x ys"
  by (simp add: insert_at_def)

lemma insert_sorted:
  assumes "sorted_wrt sn_less buf" and "s_sn seg \<notin> s_sn ` set buf"
  shows "insert_at (insert_pos (s_sn seg) buf) seg buf =
    filter (\<lambda>s. s_sn s < s_sn seg) buf @ [seg] @ filter (\<lambda>s. s_sn seg < s_sn s) buf"
  using assms
proof (induction buf)
  case (Cons s buf)
  show ?case
  proof (cases "s_sn s < s_sn seg")
    case True
    then have "insert_at (insert_pos (s_sn seg) (s # buf)) seg (s # buf) = s # insert_at (insert_pos (s_sn seg) buf) seg buf"
      by (simp add: Let_def insert_at_def)
    then show ?thesis using Cons True by auto
  next
    case False
    then have gt: "s_sn seg < s_sn s" using Cons.prems(2) by auto
    then have all: "list_all (\<lambda>t. s_sn seg < s_sn t) buf"
      using Cons.prems(1) by (auto simp: list_all_iff sn_less_def)
    then have "insert_pos (s_sn seg) buf = 0"
      by (intro insert_pos_zero) (auto simp: list_all_iff)
    moreover have "filter (\<lambda>t. s_sn seg < s_sn t) buf = buf" "filter (\<lambda>t. s_sn t < s_sn seg) buf = []"
      using all by (auto simp: list_all_iff filter_id_conv filter_empty_conv dest: order.asym)
    ultimately show ?thesis using False gt by (simp add: Let_def insert_at_def)
  qed
qed (simp add: insert_at_def)

lemma sorted_insert:
  assumes "sorted_wrt sn_less buf" and "s_sn seg \<notin> s_sn ` set buf"
  shows "sorted_wrt sn_less (insert_at (insert_pos (s_sn seg) buf) seg buf)"
  unfolding insert_sorted [OF assms] using assms(1)
  by (auto simp: sorted_wrt_append sorted_wrt_filter sn_less_def)

lemma parse_data_rinv:
  assumes "rinv stream log (rview k)" and "length stream \<le> 2 ^ 32 - 1" and "honest_seg stream seg"
  shows "rinv stream log (rview (parse_data seg k))"
proof (cases "s_sn seg \<ge> rcv_nxt k + ucast (rcv_wnd k) \<or> s_sn seg < rcv_nxt k \<or> (\<exists>s\<in>set (rcv_buf k). s_sn s = s_sn seg)")
  case True
  then show ?thesis using assms(1) by (auto simp: parse_data_def)
next
  case False
  let ?buf = "insert_at (insert_pos (s_sn seg) (rcv_buf k)) seg (rcv_buf k)"
  have fresh: "s_sn seg \<notin> s_sn ` set (rcv_buf k)" using False by auto
  have set: "set ?buf = insert seg (set (rcv_buf k))"
    by (metis insert_at_def append_take_drop_id Un_insert_right append_Cons append_Nil list.simps(15) set_append)
  have "rinv stream log (rcv_nxt k, rcv_wnd k, rcv_queue k, ?buf)"
    using assms(1,3) False sorted_insert [OF _ fresh]
    by (auto simp: rview_def list_all_iff set)
  then have "rinv stream log (rview (k\<lparr>rcv_buf := ?buf\<rparr>))" by (simp add: rview_def)
  from move_rcv_buf_rinv [OF this assms(2)] show ?thesis using False by (simp add: parse_data_def)
qed


text \<open>The segments a datagram carries, up to the first that does not parse.\<close>

function dgram_segs :: "bytes \<Rightarrow> segment list" where
  "dgram_segs d = (if d = [] then [] else (case seg_decode d of
      None \<Rightarrow> [] | Some (s, rest) \<Rightarrow> s # dgram_segs rest))"
  by pat_completeness auto
termination
  by (relation "measure length") (auto dest: seg_decode_shorter)

declare dgram_segs.simps [simp del]

definition honest_dgram :: "(u8 \<times> bytes) list \<Rightarrow> bytes \<Rightarrow> bool" where
  "honest_dgram stream d \<longleftrightarrow> list_all (\<lambda>s. s_cmd s = CMD_PUSH \<longrightarrow> honest_seg stream s) (dgram_segs d)"

lemma input_seg_rinv:
  assumes "rinv stream log (rview (i_kcp i))" and "length stream \<le> 2 ^ 32 - 1"
    and "s_cmd s = CMD_PUSH \<longrightarrow> honest_seg stream s"
  shows "rinv stream log (rview (i_kcp (snd (input_seg s i))))"
  using assms by (auto simp: input_seg_def Let_def intro!: parse_data_rinv)

text \<open>Whatever every segment of a datagram keeps, the datagram keeps.\<close>

lemma input_loop_keeps:
  "(\<And>s i. s \<in> set (dgram_segs d) \<Longrightarrow> P (i_kcp i) \<Longrightarrow> P (i_kcp (snd (input_seg s i))))
   \<Longrightarrow> P (i_kcp i) \<Longrightarrow> P (i_kcp (snd (input_loop d i)))"
proof (induction d i rule: input_loop.induct)
  case (1 d i)
  show ?case
  proof (cases "d = [] \<or> seg_decode d = None")
    case True
    then show ?thesis using "1.prems" by (auto simp: input_loop.simps [of d i])
  next
    case False
    then obtain s rest where d: "d \<noteq> []" "seg_decode d = Some (s, rest)" by auto
    obtain r i' where step: "input_seg s i = (r, i')" by force
    have segs: "dgram_segs d = s # dgram_segs rest" using d by (simp add: dgram_segs.simps [of d])
    have keep: "P (i_kcp i')" using "1.prems"(1) [of s i] "1.prems"(2) segs step by simp
    have rest: "r = None \<Longrightarrow> P (i_kcp (snd (input_loop rest i')))"
      using "1.IH" [OF d(1) d(2) refl step [symmetric]] keep "1.prems"(1) segs by simp
    show ?thesis
      using rest keep d step by (cases r) (simp_all add: input_loop.simps [of d i])
  qed
qed

lemma input_keeps:
  assumes "\<And>s i. s \<in> set (dgram_segs d) \<Longrightarrow> P (i_kcp i) \<Longrightarrow> P (i_kcp (snd (input_seg s i)))"
    and "\<And>sn k. P k \<Longrightarrow> P (parse_fastack sn k)" and "\<And>una k. P k \<Longrightarrow> P (grow_cwnd una k)" and "P k"
  shows "P (snd (input d k))"
  using input_loop_keeps [of d P "\<lparr>i_kcp = k, i_maxack = 0, i_flag = False\<rparr>"] assms
  by (auto simp: input_def Let_def split: prod.splits option.splits)

lemma input_rinv:
  assumes "rinv stream log (rview k)" and "length stream \<le> 2 ^ 32 - 1" and "honest_dgram stream d"
  shows "rinv stream log (rview (snd (input d k)))"
proof (rule input_keeps [where P = "\<lambda>k. rinv stream log (rview k)"])
  fix s and i :: input_state assume "s \<in> set (dgram_segs d)" and "rinv stream log (rview (i_kcp i))"
  then show "rinv stream log (rview (i_kcp (snd (input_seg s i))))"
    using assms(2,3) by (intro input_seg_rinv) (auto simp: honest_dgram_def list_all_iff)
qed (use assms(1) in simp_all)

section \<open>The send path\<close>

text \<open>
  Everything queued beyond \<^verbatim>\<open>snd_nxt\<close> is still in the send queue, and every segment in flight
  carries the data of its sequence number.
\<close>

definition sinv :: "(u8 \<times> bytes) list \<Rightarrow> kcp \<Rightarrow> bool" where
  "sinv stream k \<longleftrightarrow> k_mss k = 1376 \<and> unat (snd_nxt k) \<le> length stream
     \<and> map content (snd_queue k) = drop (unat (snd_nxt k)) stream
     \<and> list_all (honest_seg stream) (snd_buf k)"

lemma honest_seg_updates [simp]:
  "honest_seg stream (s\<lparr>s_fastack := a\<rparr>) = honest_seg stream s"
  "honest_seg stream (resend_segment k s) = honest_seg stream s"
  by (auto simp: honest_seg_def content_def resend_segment_def Let_def split: send_reason.splits)

lemma bump_fastack_honest: "list_all (honest_seg stream) buf \<Longrightarrow> list_all (honest_seg stream) (bump_fastack sn buf)"
  by (induction buf) auto

lemma sinv_ack_ops:
  assumes "sinv stream k"
  shows "sinv stream (parse_una una k)" "sinv stream (shrink_buf k)" "sinv stream (update_ack rtt k)"
    "sinv stream (parse_ack sn k)" "sinv stream (parse_fastack sn k)" "sinv stream (grow_cwnd p k)"
    "sinv stream (k\<lparr>rmt_wnd := w\<rparr>)" "sinv stream (k\<lparr>k_probe := pr\<rparr>)" "sinv stream (k\<lparr>acklist := a\<rparr>)"
    "sinv stream (k\<lparr>rcv_buf := b\<rparr>)"
  using assms
  by (auto simp: sinv_def parse_una_def shrink_buf_def update_ack_def parse_ack_def parse_fastack_def
      grow_cwnd_def Let_def list_all_iff bump_fastack_honest [unfolded list_all_iff])

lemma sinv_receive_ops:
  assumes "sinv stream k"
  shows "sinv stream (move_rcv_buf k)" "sinv stream (parse_data seg k)"
  using assms by (auto simp: sinv_def move_rcv_buf_def parse_data_def split: prod.splits)

lemma input_seg_sinv: "sinv stream (i_kcp i) \<Longrightarrow> sinv stream (i_kcp (snd (input_seg s i)))"
  by (auto simp: input_seg_def Let_def intro!: sinv_ack_ops sinv_receive_ops)

lemma input_sinv: "sinv stream k \<Longrightarrow> sinv stream (snd (input d k))"
  by (rule input_keeps) (auto intro: input_seg_sinv sinv_ack_ops)

text \<open>Filling the window stamps consecutive sequence numbers onto the queue.\<close>

lemma fill_loop_sinv:
  assumes "map content q = drop (unat nxt) stream" and "unat nxt \<le> length stream" and "length stream \<le> 2 ^ 32 - 1"
    and "list_all (honest_seg stream) buf" and "\<And>n s. content (stamp n s) = content s \<and> s_sn (stamp n s) = n"
    and "fill_loop limit stamp q nxt buf = (q', nxt', buf')"
  shows "map content q' = drop (unat nxt') stream \<and> unat nxt' \<le> length stream \<and> list_all (honest_seg stream) buf'"
  using assms
proof (induction q arbitrary: nxt buf)
  case (Cons s q)
  have lt: "unat nxt < length stream" using Cons.prems(1) by (metis drop_eq_Nil list.simps(9) not_le list.distinct(1))
  note up = unat_Suc_below [OF lt Cons.prems(3)]
  have c: "content s = stream ! unat nxt" "map content q = drop (Suc (unat nxt)) stream"
    using Cons.prems(1) unfolding Cons_nth_drop_Suc [OF lt, symmetric] by simp_all
  have h: "honest_seg stream (stamp nxt s)" using lt c(1) Cons.prems(5) by (simp add: honest_seg_def)
  show ?case
  proof (cases "nxt < limit")
    case True
    show ?thesis
      by (rule Cons.IH [of "nxt + 1" "buf @ [stamp nxt s]"]) (use Cons.prems True lt up c h in simp_all)
  next
    case False
    then show ?thesis using Cons.prems(1,2,4,6) by auto
  qed
qed auto

lemma fill_window_sinv:
  assumes "sinv stream k" and "length stream \<le> 2 ^ 32 - 1"
  shows "sinv stream (fill_window cwnd k)"
proof -
  obtain q nxt buf where f: "fill_loop (snd_una k + ucast cwnd) (stamp_segment k) (snd_queue k) (snd_nxt k) (snd_buf k)
      = (q, nxt, buf)" by (metis prod_cases3)
  have st: "content (stamp_segment k n s) = content s \<and> s_sn (stamp_segment k n s) = n" for n s
    by (simp add: stamp_segment_def content_def)
  have k: "map content (snd_queue k) = drop (unat (snd_nxt k)) stream" "unat (snd_nxt k) \<le> length stream"
    "list_all (honest_seg stream) (snd_buf k)" "k_mss k = 1376"
    using assms(1) by (simp_all add: sinv_def)
  show ?thesis
    using fill_loop_sinv [OF k(1,2) assms(2) k(3) st f] k(4) by (simp add: fill_window_def f sinv_def)
qed

lemma sinv_flush_ops:
  assumes "sinv stream k"
  shows "sinv stream (probe_window k)" "sinv stream (fst (resend_all k))" "sinv stream (adjust_cwnd c l w k)"
  using assms by (auto simp: sinv_def probe_window_def resend_all_def adjust_cwnd_def Let_def list_all_iff)

lemma rview_flush_ops [simp]:
  "rview (probe_window k) = rview k" "rview (fst (resend_all k)) = rview k" "rview (adjust_cwnd c l w k) = rview k"
  "rview (fill_window w k) = rview k"
  by (auto simp: rview_def probe_window_def resend_all_def adjust_cwnd_def fill_window_def Let_def split: prod.splits)

lemma flush_state:
  "snd (flush k) = (if k_updated k then
     (let k2 = (probe_window (k\<lparr>acklist := []\<rparr>))\<lparr>k_probe := 0\<rparr>; k3 = fill_window (send_window k2) k2
      in adjust_cwnd (\<exists>s\<in>set (snd_buf k3). why_send k3 s = Fast_resend) (\<exists>s\<in>set (snd_buf k3). why_send k3 s = Timed_out)
           (send_window k2) (fst (resend_all k3))) else k)"
  by (simp add: flush_def Let_def split: prod.splits)

lemma flush_sinv: "sinv stream k \<Longrightarrow> length stream \<le> 2 ^ 32 - 1 \<Longrightarrow> sinv stream (snd (flush k))"
  by (simp add: flush_state Let_def sinv_flush_ops sinv_ack_ops fill_window_sinv)

lemma flush_rview [simp]: "rview (snd (flush k)) = rview k"
  by (simp add: flush_state Let_def)

text \<open>A segment of the stream fits a datagram, and the datagram carries nothing else.\<close>

lemma dgram_segs_encode: "length (s_data s) < 2 ^ 32 \<Longrightarrow> dgram_segs (seg_encode s) = [seg_wire s]"
  using seg_decode_encode [of s "[]"]
  by (subst dgram_segs.simps) (auto simp: dgram_segs.simps [of "[]"] seg_encode_def)

lemma honest_encode:
  assumes "length (s_data s) < 2 ^ 32" and "s_cmd s = CMD_PUSH \<Longrightarrow> honest_seg stream s"
  shows "honest_dgram stream (seg_encode s)"
  using assms by (simp add: honest_dgram_def dgram_segs_encode seg_wire_def honest_seg_def content_def)

definition small :: "(u8 \<times> bytes) list \<Rightarrow> bool" where
  "small stream \<longleftrightarrow> list_all (\<lambda>(frg, data). length data \<le> 1376) stream"

lemma honest_small:
  assumes "honest_seg stream s" and "small stream"
  shows "length (s_data s) \<le> 1376"
proof -
  have "content s \<in> set stream" using assms(1) by (simp add: honest_seg_def)
  then show ?thesis using assms(2) by (auto simp: small_def list_all_iff content_def)
qed

lemma resend_all_honest:
  assumes "sinv stream k" and "small stream" and "d \<in> set (snd (resend_all k))"
  shows "honest_dgram stream d"
proof -
  obtain s where s: "s \<in> set (snd_buf k)" "d = seg_encode (resend_segment k s)"
    using assms(3) by (auto simp: resend_all_def Let_def)
  then have h: "honest_seg stream (resend_segment k s)" using assms(1) by (auto simp: sinv_def list_all_iff)
  then show ?thesis unfolding s(2) using honest_small [OF h assms(2)] by (intro honest_encode) simp_all
qed

lemma flush_out:
  assumes "d \<in> set (fst (flush k))"
  shows "(\<exists>s. d = seg_encode s \<and> s_data s = [] \<and> s_cmd s \<noteq> CMD_PUSH)
    \<or> (\<exists>w. d \<in> set (snd (resend_all (fill_window w ((probe_window (k\<lparr>acklist := []\<rparr>))\<lparr>k_probe := 0\<rparr>)))))"
  using assms
  by (auto simp: flush_def Let_def ack_segment_def make_ctrl_def seg_new_def split_beta split: if_splits)

lemma flush_honest:
  assumes "sinv stream k" and "small stream" and "length stream \<le> 2 ^ 32 - 1" and "d \<in> set (fst (flush k))"
  shows "honest_dgram stream d"
  using flush_out [OF assms(4)]
proof (elim disjE exE conjE)
  fix s assume "d = seg_encode s" "s_data s = []" "s_cmd s \<noteq> CMD_PUSH"
  then show ?thesis by (simp add: honest_encode)
next
  fix w assume d: "d \<in> set (snd (resend_all (fill_window w ((probe_window (k\<lparr>acklist := []\<rparr>))\<lparr>k_probe := 0\<rparr>))))"
  show ?thesis
    by (rule resend_all_honest [OF _ assms(2) d])
      (intro fill_window_sinv sinv_flush_ops sinv_ack_ops assms(1,3))
qed

section \<open>Messages\<close>

text \<open>The fragments of a message as the stream carries them.\<close>

definition pieces :: "bytes \<Rightarrow> (u8 \<times> bytes) list" where
  "pieces msg = map content (fragments 0 1376 (frag_count (length msg) 1376) msg)"

lemma content_fragments: "map content (fragments conv mss n buf) = map content (fragments 0 mss n buf)"
  by (induction n arbitrary: buf) (simp_all add: content_def)

lemma content_fragments_Suc:
  "map content (fragments conv mss (Suc n) buf) = (of_nat n, take mss buf) # map content (fragments conv mss n (drop mss buf))"
  by (simp add: content_def)

lemma length_fragments [simp]: "length (fragments conv mss n buf) = n"
  by (induction n arbitrary: buf) simp_all

lemma frag_count_bound:
  assumes "0 < mss"
  shows "len \<le> frag_count len mss * mss"
proof -
  have "len + mss - 1 < (len + mss - 1) div mss * mss + mss"
    using div_mult_mod_eq [of "len + mss - 1" mss] mod_less_divisor [OF assms, of "len + mss - 1"] by linarith
  then show ?thesis using assms by (simp add: frag_count_def)
qed

lemma frag_count_pos: "0 < mss \<Longrightarrow> 0 < len \<Longrightarrow> 0 < frag_count len mss"
  by (simp add: frag_count_def div_greater_zero_iff)

lemma small_fragments: "small (map content (fragments conv 1376 n buf))"
  by (induction n arbitrary: buf) (auto simp: small_def content_def)

text \<open>
  Popping a queue that starts with a message's fragments returns exactly that message: the descending fragment
  numbers reach zero at the last one.
\<close>

lemma recv_loop_message:
  assumes "map content q = map content (fragments 0 mss (Suc n) buf) @ extra" and "n < 256"
    and "length buf \<le> Suc n * mss" and "length out + length buf \<le> cap"
  shows "\<exists>q'. recv_loop cap q out = Inr (out @ buf, q') \<and> map content q' = extra"
  using assms
proof (induction n arbitrary: q buf out)
  case 0
  then obtain s q' where "q = s # q'" "content s = (0, take mss buf)" "map content q' = extra"
    by (auto simp: content_def)
  with 0 show ?case by (auto simp: content_def)
next
  case (Suc n)
  from Suc.prems(1) obtain s q' where q: "q = s # q'" "content s = (of_nat (Suc n), take mss buf)"
    and q': "map content q' = map content (fragments 0 mss (Suc n) (drop mss buf)) @ extra"
    unfolding content_fragments_Suc [of 0 mss "Suc n" buf] append_Cons 
    by (auto simp: map_eq_Cons_conv simp del: fragments.simps of_nat_Suc)
  have nz: "(of_nat (Suc n) :: u8) \<noteq> 0"
    using Suc.prems(2) by (auto simp: word_of_nat_eq_0_iff simp del: of_nat_Suc dest: dvd_imp_le)
  have d: "s_data s = take mss buf" "s_frg s \<noteq> 0" using q(2) nz by (simp_all add: content_def del: of_nat_Suc)
  have room: "length (out @ s_data s) + length (drop mss buf) \<le> cap"
    using Suc.prems(4) d(1) by simp
  have "length (drop mss buf) \<le> Suc n * mss" using Suc.prems(3) by simp
  then obtain q'' where "recv_loop cap q' (out @ s_data s) = Inr ((out @ s_data s) @ drop mss buf, q'')" "map content q'' = extra"
    using Suc.IH [OF q' _ _ room] Suc.prems(2) by auto
  then show ?case using d room by (auto simp: q(1))
qed

end
