(* ===== verification/KcpReliable.thy ===== *)
theory KcpReliable
  imports KcpProps
begin

text \<open>
  Two KCP engines joined by a network that loses, duplicates and reorders datagrams implement a FIFO queue of
  messages.
\<close>

section \<open>Reading messages\<close>

lemma i32_le: "i32 n \<le> int n"
  by (simp add: i32_def signed_of_nat signed_take_bit_int_less_eq_self_iff)

lemma i32_small: "n < 2 ^ 31 \<Longrightarrow> i32 n = int n"
  by (simp add: i32_def signed_of_nat signed_take_bit_int_eq_self)

definition sendable :: "bytes \<Rightarrow> bool" where
  "sendable msg \<longleftrightarrow> msg \<noteq> [] \<and> frag_count (length msg) 1376 < 256"

lemma sendable_pieces:
  assumes "sendable msg"
  obtains n where "n < 255" "pieces msg = map content (fragments 0 1376 (Suc n) msg)" "length msg \<le> Suc n * 1376"
    "length (pieces msg) = Suc n"
proof -
  obtain n where n: "frag_count (length msg) 1376 = Suc n"
    using assms frag_count_pos [of 1376 "length msg"] by (cases "frag_count (length msg) 1376") (auto simp: sendable_def)
  then show thesis
    using that [of n] assms frag_count_bound [of 1376 "length msg"] by (simp add: sendable_def pieces_def)
qed

lemma small_pieces: "small (concat (map pieces msgs))"
  using small_fragments by (induction msgs) (auto simp: small_def pieces_def)

lemma queue_bytes_content: "queue_bytes q = sum_list (map (length \<circ> snd) (map content q))"
  by (simp add: queue_bytes_def content_def comp_def)

lemma small_queue_bytes:
  assumes "small (map content q)" and "length q \<le> 65535"
  shows "queue_bytes q < 2 ^ 31"
proof -
  have "queue_bytes q \<le> length q * 1376"
    using assms(1) by (induction q) (auto simp: small_def queue_bytes_def content_def)
  then show ?thesis using assms(2) by simp
qed

lemma sum_fragments:
  "length buf \<le> n * mss \<Longrightarrow> sum_list (map (length \<circ> snd) (map content (fragments conv mss n buf))) = length buf"
  by (induction n arbitrary: buf) (auto simp: content_def)

lemma u8_frg: "n < 255 \<Longrightarrow> unat ((of_nat n :: u8) + 1) = Suc n"
proof -
  assume "n < 255"
  then have "unat (of_nat (Suc n) :: u8) = Suc n" by (simp add: unat_of_nat take_bit_nat_eq_self del: of_nat_Suc)
  then show ?thesis by (simp add: add.commute)
qed

lemma u8_frg_zero: "n < 255 \<Longrightarrow> (of_nat n :: u8) = 0 \<longleftrightarrow> n = 0"
  by (auto simp: word_of_nat_eq_0_iff dest: dvd_imp_le)

text \<open>
  A message is ready when the queue holds as many segments as the first one's fragment number asks for; then the
  queue starts with all of the message's pieces, and the peeked size covers the message.
\<close>

lemma peeksize_message:
  assumes q: "map content (rcv_queue k) = take n (pieces m @ later)" and "rcv_queue k \<noteq> []" and "sendable m"
    and ready: "\<not> peeksize k < 0" and bytes: "queue_bytes (rcv_queue k) < 2 ^ 31"
  shows "map content (rcv_queue k) = pieces m @ take (n - length (pieces m)) later \<and> int (length m) \<le> peeksize k"
proof -
  obtain j where j: "j < 255" "pieces m = map content (fragments 0 1376 (Suc j) m)" "length m \<le> Suc j * 1376"
    "length (pieces m) = Suc j" by (rule sendable_pieces [OF assms(3)])
  obtain s q' where s: "rcv_queue k = s # q'" using assms(2) by (cases "rcv_queue k") auto
  have "content s = (of_nat j, take 1376 m)"
    using q s unfolding j(2) content_fragments_Suc by (cases n) auto
  then have frg: "s_frg s = of_nat j" and data: "s_data s = take 1376 m" by (simp_all add: content_def)
  have len: "Suc j \<le> length (rcv_queue k)"
    using ready s frg u8_frg [OF j(1)] u8_frg_zero [OF j(1)]
    by (auto simp: peeksize_def split: if_splits)
  have "length (rcv_queue k) = min n (Suc j + length later)" using arg_cong [OF q, of length] j(4) by simp
  then have split: "map content (rcv_queue k) = pieces m @ take (n - Suc j) later" using q len j(4) by simp
  have "length m \<le> queue_bytes (rcv_queue k)"
    unfolding queue_bytes_content split using sum_fragments [OF j(3), of 0] by (simp add: j(2))
  moreover have "j = 0 \<Longrightarrow> s_data s = m" using j(3) data by simp
  moreover have "length (s_data s) < 2 ^ 31" using data by simp
  ultimately show ?thesis
    using split j(4) s frg bytes u8_frg_zero [OF j(1)] u8_frg [OF j(1)] len by (auto simp: peeksize_def i32_small)
qed

text \<open>A read on a queue in the invariant: it takes the next message, or leaves everything as it was.\<close>

lemma recv_message:
  assumes inv: "rinv stream log (rview k)" and bound: "length stream \<le> 2 ^ 32 - 1"
    and stream: "stream = log @ concat (map pieces msgs)" and msgs: "list_all sendable msgs" and small: "small stream"
  shows "(\<exists>code. code < 0 \<and> recv cap k = Inr (code, [], k))
    \<or> (\<exists>m ms k'. msgs = m # ms \<and> recv cap k = Inr (int (length m), m, k') \<and> rinv stream (log @ pieces m) (rview k'))"
proof (cases "rcv_queue k = [] \<or> peeksize k < 0 \<or> i32 cap < peeksize k")
  case True
  then show ?thesis by (auto simp: recv_def)
next
  case False
  let ?q = "rcv_queue k" and ?n = "unat (rcv_nxt k)"
  have lq: "log @ map content ?q = take ?n stream" "length ?q \<le> 65535"
    using inv by (simp_all add: rview_def)
  have "length log \<le> ?n" using arg_cong [OF lq(1), of length] by simp
  then have q: "map content ?q = take (?n - length log) (concat (map pieces msgs))" using lq(1) stream by simp
  then obtain m ms where m: "msgs = m # ms" using False by (cases msgs) auto
  have "set (map content ?q) \<subseteq> set stream" using lq(1) by (metis set_append set_take_subset Un_subset_iff)
  then have "small (map content ?q)" using small unfolding small_def list_all_iff by blast
  then have bytes: "queue_bytes ?q < 2 ^ 31" using lq(2) by (rule small_queue_bytes)
  have sm: "sendable m" using msgs m by simp
  define extra where "extra = take (?n - length log - length (pieces m)) (concat (map pieces ms))"
  have split: "map content ?q = pieces m @ extra" and fits: "int (length m) \<le> peeksize k"
    using peeksize_message [OF q [unfolded m list.map concat.simps] _ sm _ bytes] False by (simp_all add: extra_def)
  obtain j where j: "j < 255" "pieces m = map content (fragments 0 1376 (Suc j) m)" "length m \<le> Suc j * 1376"
    by (rule sendable_pieces [OF sm])
  have "length m \<le> cap" using fits False i32_le [of cap] by linarith
  then obtain q' where q': "recv_loop cap ?q [] = Inr (m, q')" "map content q' = extra"
    using recv_loop_message [of ?q 1376 j m extra "[]" cap] split j by auto
  have "length q' \<le> length ?q" using arg_cong [OF split, of length] arg_cong [OF q'(2), of length] by simp
  then have "rinv stream (log @ pieces m) (rview (k\<lparr>rcv_queue := q'\<rparr>))"
    using inv split q'(2) by (simp add: rview_def)
  from move_rcv_buf_rinv [OF this bound]
  have "rinv stream (log @ pieces m) (rview (move_rcv_buf (k\<lparr>rcv_queue := q'\<rparr>)))" .
  moreover have "i32 (length m) = int (length m)" using j by (simp add: i32_small)
  ultimately show ?thesis using False m q'(1) by (auto simp: recv_def Let_def)
qed

section \<open>Two engines and a network\<close>

text \<open>
  \<open>n_wire\<close> holds every datagram the sender ever put on the network; delivery picks any of them any number of
  times, so loss, duplication and reordering are all covered. Acknowledgements reaching the sender are arbitrary
  bytes, as are the times at which either side is driven.
\<close>

record net =
  n_snd :: kcp
  n_rcv :: kcp
  n_wire :: "bytes list"
  n_sent :: "bytes list"
  n_got :: "bytes list"

definition net_start :: "u32 \<Rightarrow> net" where
  "net_start conv = \<lparr>n_snd = kcp_new conv, n_rcv = kcp_new conv, n_wire = [], n_sent = [], n_got = []\<rparr>"

inductive net_step :: "net \<Rightarrow> net \<Rightarrow> bool" where
  Send: "send msg (n_snd s) = (0, k) \<Longrightarrow> net_step s (s\<lparr>n_snd := k, n_sent := n_sent s @ [msg]\<rparr>)"
| Ack: "net_step s (s\<lparr>n_snd := snd (input d (n_snd s))\<rparr>)"
| Snd_clock: "net_step s (s\<lparr>n_snd := update_clock t (n_snd s)\<rparr>)"
| Snd_config: "net_step s (s\<lparr>n_snd := set_wndsize sw rw (set_nodelay nd (n_snd s))\<rparr>)"
| Snd_flush: "flush (n_snd s) = (out, k) \<Longrightarrow> net_step s (s\<lparr>n_snd := k, n_wire := n_wire s @ out\<rparr>)"
| Deliver: "d \<in> set (n_wire s) \<Longrightarrow> net_step s (s\<lparr>n_rcv := snd (input d (n_rcv s))\<rparr>)"
| Rcv_clock: "net_step s (s\<lparr>n_rcv := update_clock t (n_rcv s)\<rparr>)"
| Rcv_config: "net_step s (s\<lparr>n_rcv := set_wndsize sw rw (set_nodelay nd (n_rcv s))\<rparr>)"
| Rcv_flush: "net_step s (s\<lparr>n_rcv := snd (flush (n_rcv s))\<rparr>)"
| Recv: "recv cap (n_rcv s) = Inr (code, msg, k) \<Longrightarrow> 0 \<le> code
    \<Longrightarrow> net_step s (s\<lparr>n_rcv := k, n_got := n_got s @ [msg]\<rparr>)"

text \<open>The specification: a queue of messages and what has been taken from it.\<close>

inductive fifo_step :: "bytes list \<times> bytes list \<Rightarrow> bytes list \<times> bytes list \<Rightarrow> bool" where
  Push: "fifo_step (q, got) (q @ [msg], got)"
| Pop: "fifo_step (msg # q, got) (q, got @ [msg])"

definition net_abs :: "net \<Rightarrow> bytes list \<times> bytes list" where
  "net_abs s = (drop (length (n_got s)) (n_sent s), n_got s)"

definition net_stream :: "net \<Rightarrow> (u8 \<times> bytes) list" where
  "net_stream s = concat (map pieces (n_sent s))"

definition ninv :: "net \<Rightarrow> bool" where
  "ninv s \<longleftrightarrow> sinv (net_stream s) (n_snd s)
     \<and> rinv (net_stream s) (concat (map pieces (n_got s))) (rview (n_rcv s))
     \<and> list_all (honest_dgram (net_stream s)) (n_wire s)
     \<and> list_all sendable (n_sent s) \<and> (\<exists>msgs. n_sent s = n_got s @ msgs)"

text \<open>A longer stream keeps everything said of its prefix.\<close>

lemma honest_seg_extend: "honest_seg stream s \<Longrightarrow> honest_seg (stream @ ext) s"
  by (auto simp: honest_seg_def nth_append)

lemma honest_dgram_extend: "honest_dgram stream d \<Longrightarrow> honest_dgram (stream @ ext) d"
  by (auto simp: honest_dgram_def list_all_iff intro: honest_seg_extend)

lemma rinv_extend: "rinv stream log v \<Longrightarrow> rinv (stream @ ext) log v"
  by (cases v) (auto simp: list_all_iff intro: honest_seg_extend)

lemma send_sinv:
  assumes "sinv stream k" and "send msg k = (0, k')"
  shows "sinv (stream @ pieces msg) k' \<and> sendable msg"
  using assms
  by (auto simp: send_def sinv_def Let_def sendable_def pieces_def content_fragments [of "k_conv k"] list_all_iff
      intro: honest_seg_extend split: if_splits)

lemma rview_send_ops [simp]: "rview (update_clock t k) = rview k" "rview (set_nodelay nd k) = rview k"
  by (simp_all add: rview_def update_clock_def set_nodelay_def Let_def)

lemma rinv_wndsize: "rinv stream log (rview k) \<Longrightarrow> rinv stream log (rview (set_wndsize sw rw k))"
  by (simp add: rview_def set_wndsize_def Let_def)

lemma sinv_config_ops:
  assumes "sinv stream k"
  shows "sinv stream (update_clock t k)" "sinv stream (set_nodelay nd k)" "sinv stream (set_wndsize sw rw k)"
  using assms by (simp_all add: sinv_def update_clock_def set_nodelay_def set_wndsize_def Let_def)

lemma ninv_start: "ninv (net_start conv)"
  by (simp add: ninv_def net_start_def net_stream_def sinv_def rview_def kcp_new_def)

lemma ninv_small: "small (net_stream s)"
  by (simp add: net_stream_def small_pieces)

lemma ninv_keep_messages:
  assumes "ninv s" and "sinv (net_stream s) k" and "list_all (honest_dgram (net_stream s)) out"
  shows "ninv (s\<lparr>n_snd := k\<rparr>)" "ninv (s\<lparr>n_snd := k, n_wire := n_wire s @ out\<rparr>)"
  using assms by (simp_all add: ninv_def net_stream_def)

lemma ninv_keep_receiver:
  assumes "ninv s" and "rinv (net_stream s) (concat (map pieces (n_got s))) (rview k)"
  shows "ninv (s\<lparr>n_rcv := k\<rparr>)"
  using assms by (simp add: ninv_def net_stream_def)

text \<open>What a step of the network does to the specification's queue, with the invariant it needs.\<close>

lemma recv_net:
  assumes "ninv s" and "length (net_stream s) \<le> 2 ^ 32 - 1"
  shows "(\<exists>code. code < 0 \<and> recv cap (n_rcv s) = Inr (code, [], n_rcv s))
    \<or> (\<exists>m ms k. n_sent s = n_got s @ m # ms \<and> recv cap (n_rcv s) = Inr (int (length m), m, k)
        \<and> ninv (s\<lparr>n_rcv := k, n_got := n_got s @ [m]\<rparr>))"
proof -
  obtain msgs where msgs: "n_sent s = n_got s @ msgs" using assms(1) by (auto simp: ninv_def)
  have "net_stream s = concat (map pieces (n_got s)) @ concat (map pieces msgs)" "list_all sendable msgs"
    "rinv (net_stream s) (concat (map pieces (n_got s))) (rview (n_rcv s))"
    using assms(1) msgs by (simp_all add: net_stream_def ninv_def)
  from recv_message [OF this(3) assms(2) this(1,2) ninv_small, of cap] show ?thesis
    using assms(1) msgs by (fastforce simp: ninv_def net_stream_def)
qed

lemma net_step_simulates:
  assumes "net_step s s'" and "ninv s" and "length (net_stream s') \<le> 2 ^ 32 - 1"
  shows "ninv s' \<and> (net_abs s' = net_abs s \<or> fifo_step (net_abs s) (net_abs s'))"
  using assms
proof (cases rule: net_step.cases)
  case (Send msg k)
  note snt = send_sinv [OF _ Send(2), of "net_stream s"]
  obtain msgs where msgs: "n_sent s = n_got s @ msgs" using assms(2) by (auto simp: ninv_def)
  have ns: "net_stream s' = net_stream s @ pieces msg" by (simp add: Send(1) net_stream_def)
  have "ninv s'" using snt assms(2) msgs unfolding ninv_def ns
    by (auto simp: Send(1) list_all_iff intro: rinv_extend honest_dgram_extend)
  then show ?thesis using msgs fifo_step.Push [of msgs "n_got s" msg] by (simp add: Send(1) net_abs_def)
next
  case (Snd_flush out k)
  have "sinv (net_stream s) k" "list_all (honest_dgram (net_stream s)) out"
    using assms(2,3) flush_sinv [of "net_stream s" "n_snd s"] flush_honest [OF _ ninv_small, of s "n_snd s"] Snd_flush
    by (auto simp: ninv_def list_all_iff net_stream_def)
  then show ?thesis using ninv_keep_messages [OF assms(2)] by (simp add: Snd_flush(1) net_abs_def)
next
  case (Recv cap code msg k)
  then show ?thesis
    using recv_net [OF assms(2), of cap] assms(3) fifo_step.Pop by (fastforce simp: net_abs_def net_stream_def)
next
  case (Deliver d)
  then have "rinv (net_stream s) (concat (map pieces (n_got s))) (rview (snd (input d (n_rcv s))))"
    using assms(2,3) by (intro input_rinv) (auto simp: ninv_def list_all_iff net_stream_def)
  then show ?thesis using ninv_keep_receiver [OF assms(2)] by (simp add: Deliver(1) net_abs_def)
qed (use assms(2) in \<open>auto simp: net_abs_def ninv_def net_stream_def intro: input_sinv sinv_config_ops rinv_wndsize\<close>)

lemma net_stream_mono: "net_step s s' \<Longrightarrow> length (net_stream s) \<le> length (net_stream s')"
  by (induction rule: net_step.induct) (simp_all add: net_stream_def)

lemma ninv_reachable:
  "net_step\<^sup>*\<^sup>* (net_start conv) s \<Longrightarrow> length (net_stream s) \<le> 2 ^ 32 - 1 \<Longrightarrow> ninv s"
proof (induction rule: rtranclp_induct)
  case base
  then show ?case by (simp add: ninv_start)
next
  case (step s s')
  then show ?case using net_stream_mono [OF step.hyps(2)] net_step_simulates [OF step.hyps(2)] by simp
qed

text \<open>A concrete exchange: one message, two flushes (the first opens the congestion window), delivery, read.\<close>

definition demo_send :: net where
  "demo_send = (net_start 7)\<lparr>n_snd := snd (send [1, 2, 3] (kcp_new 7)), n_sent := [[1, 2, 3]]\<rparr>"

definition demo_clock :: net where
  "demo_clock = demo_send\<lparr>n_snd := update_clock 5 (n_snd demo_send)\<rparr>"

definition demo_open :: net where
  "demo_open = (case flush (n_snd demo_clock) of (out, k) \<Rightarrow> demo_clock\<lparr>n_snd := k, n_wire := n_wire demo_clock @ out\<rparr>)"

definition demo_flush :: net where
  "demo_flush = (case flush (n_snd demo_open) of (out, k) \<Rightarrow> demo_open\<lparr>n_snd := k, n_wire := n_wire demo_open @ out\<rparr>)"

definition demo_deliver :: net where
  "demo_deliver = demo_flush\<lparr>n_rcv := snd (input (hd (n_wire demo_flush)) (n_rcv demo_flush))\<rparr>"

definition demo_recv :: net where
  "demo_recv = (case recv 100 (n_rcv demo_deliver) of
      Inr (code, msg, k) \<Rightarrow> demo_deliver\<lparr>n_rcv := k, n_got := n_got demo_deliver @ [msg]\<rparr> | Inl e \<Rightarrow> demo_deliver)"

lemma demo_wire: "length (n_wire demo_flush) = 1"
  by code_simp

lemma demo_got: "map_sum id (\<lambda>(code, msg, k). (code, msg)) (recv 100 (n_rcv demo_deliver)) = Inr (3, [1, 2, 3])"
  by code_simp

lemma demo_sent: "fst (send [1, 2, 3] (kcp_new 7)) = 0"
  by code_simp

lemma demo_ends: "n_got demo_deliver = []" "n_sent demo_deliver = [[1, 2, 3]]"
  by (simp_all add: demo_deliver_def demo_flush_def demo_open_def demo_clock_def demo_send_def net_start_def split: prod.splits)

lemma demo_steps:
  "net_step (net_start 7) demo_send" "net_step demo_send demo_clock" "net_step demo_clock demo_open"
  "net_step demo_open demo_flush" "net_step demo_flush demo_deliver" "net_step demo_deliver demo_recv"
proof -
  have "net_step (net_start 7) ((net_start 7)\<lparr>n_snd := snd (send [1, 2, 3] (kcp_new 7)), n_sent := n_sent (net_start 7) @ [[1, 2, 3]]\<rparr>)"
    using demo_sent by (intro net_step.Send) (simp add: net_start_def prod_eq_iff)
  then show "net_step (net_start 7) demo_send" by (simp add: demo_send_def net_start_def)
  show "net_step demo_send demo_clock" unfolding demo_clock_def by (rule Snd_clock)
  show "net_step demo_clock demo_open" unfolding demo_open_def by (auto split: prod.splits intro: Snd_flush)
  show "net_step demo_open demo_flush" unfolding demo_flush_def by (auto split: prod.splits intro: Snd_flush)
  have "hd (n_wire demo_flush) \<in> set (n_wire demo_flush)" using demo_wire by (metis length_0_conv list.set_sel(1) zero_neq_one)
  then show "net_step demo_flush demo_deliver" unfolding demo_deliver_def by (rule Deliver)
  obtain k where "recv 100 (n_rcv demo_deliver) = Inr (3, [1, 2, 3], k)"
    using demo_got by (cases "recv 100 (n_rcv demo_deliver)") auto
  then show "net_step demo_deliver demo_recv" unfolding demo_recv_def by (auto intro: Recv)
qed

lemma demo_received: "net_abs demo_deliver = ([[1, 2, 3]], [])" "net_abs demo_recv = ([], [[1, 2, 3]])"
  "length (net_stream demo_deliver) = 1" "length (net_stream demo_recv) = 1"
  using demo_got demo_ends
  by (auto simp: net_abs_def demo_recv_def net_stream_def pieces_def frag_count_def split: sum.splits prod.splits)

lemma demo_reachable: "net_step\<^sup>*\<^sup>* (net_start 7) demo_deliver"
  using demo_steps by (meson rtranclp.rtrancl_into_rtrancl rtranclp.rtrancl_refl)

text \<open>
  Property C5. Two KCP engines over a lossy, duplicating, reordering network refine a FIFO queue of messages: from
  any reachable state, and for as long as the 32-bit sequence numbers have not been used up, every step of the
  system is a push of the sent message, a pop of the oldest message not yet delivered, or invisible.
\<close>

theorem kcp_refines_fifo:
  assumes "net_step\<^sup>*\<^sup>* (net_start conv) s" and "net_step s s'" and "length (net_stream s') \<le> 2 ^ 32 - 1"
  shows "net_abs s' = net_abs s \<or> fifo_step (net_abs s) (net_abs s')"
  using net_step_simulates [OF assms(2) ninv_reachable [OF assms(1)]] net_stream_mono [OF assms(2)] assms(3) by simp

theorem kcp_refines_fifo_witness:
  "fifo_step ([[1, 2, 3]], []) ([], [[1, 2, 3]]) \<and> net_step demo_deliver demo_recv"
  using kcp_refines_fifo [OF demo_reachable demo_steps(6)] demo_steps(6) by (simp add: demo_received)

text \<open>
  The messages the receiving application has taken are always a prefix of the messages sent, whole and
  in order; the next read of any buffer size neither panics nor returns anything but the next message or a negative
  code that changes nothing.
\<close>

theorem kcp_delivers_in_order:
  assumes "net_step\<^sup>*\<^sup>* (net_start conv) s" and "length (net_stream s) \<le> 2 ^ 32 - 1"
  shows "n_got s = take (length (n_got s)) (n_sent s)
    \<and> ((\<exists>code. code < 0 \<and> recv cap (n_rcv s) = Inr (code, [], n_rcv s))
       \<or> (\<exists>k. length (n_got s) < length (n_sent s) \<and>
            recv cap (n_rcv s) = Inr (int (length (n_sent s ! length (n_got s))), n_sent s ! length (n_got s), k)))"
proof -
  note inv = ninv_reachable [OF assms]
  then have "n_got s = take (length (n_got s)) (n_sent s)" by (auto simp: ninv_def)
  with recv_net [OF inv assms(2), of cap] show ?thesis by (auto simp: nth_append)
qed

theorem kcp_delivers_in_order_witness:
  "n_got demo_recv = take (length (n_got demo_recv)) (n_sent demo_recv) \<and> net_abs demo_recv = ([], [[1, 2, 3]])"
  using kcp_delivers_in_order [OF rtranclp.rtrancl_into_rtrancl [OF demo_reachable demo_steps(6)], of 100]
  by (simp add: demo_received)

end
