(* ===== verification/Mkcp.thy ===== *)
theory Mkcp
  imports KcpReliable "HOL-Library.AList"
begin

text \<open>
  The mKCP transport around the engine (\<^verbatim>\<open>crates/blackwire-transport/src/mkcp.rs\<close>, \<^verbatim>\<open>mkcp/header.rs\<close>,
  \<^verbatim>\<open>mkcp/stream.rs\<close>): disguise headers, the client and server drivers as functions from the event the
  \<^verbatim>\<open>select!\<close> picks to the next state, the listener's session table, and the byte stream handed to callers.
\<close>

section \<open>Disguise headers\<close>

datatype header_type = HNone | Srtp | Utp | WechatVideo | Dtls | Wireguard

fun hdr_size :: "header_type \<Rightarrow> nat" where
  "hdr_size HNone = 0"
| "hdr_size Dtls = 13"
| "hdr_size Srtp = 4"
| "hdr_size Utp = 4"
| "hdr_size WechatVideo = 4"
| "hdr_size Wireguard = 4"

text \<open>\<open>r\<close> is the word the code derives from the buffer's address or from its packet counter.\<close>

fun write_header :: "header_type \<Rightarrow> u32 \<Rightarrow> bytes" where
  "write_header HNone r = []"
| "write_header Srtp r = [0x80, 0x61, ucast (drop_bit 8 r), ucast r]"
| "write_header Utp r = [0x01, 0x00, ucast (drop_bit 8 r), ucast r]"
| "write_header WechatVideo r = [0xa1, 0x08, ucast (drop_bit 8 r), ucast r]"
| "write_header Dtls r = [0x16, 0xfe, 0xff, 0, 0, 0, 0, ucast (drop_bit 24 r), ucast (drop_bit 16 r),
     ucast (drop_bit 8 r), ucast r, 0, 0]"
| "write_header Wireguard r = [0x04, 0, 0, 0]"

definition hdr_encode :: "header_type \<Rightarrow> u32 \<Rightarrow> bytes \<Rightarrow> bytes" where
  "hdr_encode h r payload = write_header h r @ payload"

definition hdr_strip :: "header_type \<Rightarrow> bytes \<Rightarrow> bytes option" where
  "hdr_strip h packet = (if length packet < hdr_size h then None else Some (drop (hdr_size h) packet))"

definition hdr_from_str :: "rstr \<Rightarrow> header_type option" where
  "hdr_from_str s =
     (if s = ascii ''none'' then Some HNone else if s = ascii ''srtp'' then Some Srtp
      else if s = ascii ''utp'' then Some Utp else if s = ascii ''wechat-video'' then Some WechatVideo
      else if s = ascii ''dtls'' then Some Dtls else if s = ascii ''wireguard'' then Some Wireguard else None)"

lemma length_write_header [simp]: "length (write_header h r) = hdr_size h"
  by (cases h) simp_all

lemma hdr_strip_encode [simp]: "hdr_strip h (hdr_encode h r payload) = Some payload"
  by (simp add: hdr_strip_def hdr_encode_def)

section \<open>The driver\<close>

text \<open>\<open>dr_user\<close> is everything handed to the application's channel, \<open>dr_net\<close> everything put on the socket.\<close>

record driver =
  dr_kcp :: kcp
  dr_pending :: "bytes list"
  dr_user :: "bytes list"
  dr_net :: "bytes list"

record mkcp_config =
  c_header :: header_type
  c_rcv_wnd :: u16
  c_snd_wnd :: u16
  c_nodelay :: bool

definition driver_new :: "mkcp_config \<Rightarrow> u32 \<Rightarrow> driver" where
  "driver_new c conv = \<lparr>dr_kcp = set_wndsize (c_snd_wnd c) (c_rcv_wnd c) (set_nodelay (c_nodelay c) (kcp_new conv)),
     dr_pending = [], dr_user = [], dr_net = []\<rparr>"

definition recv_buf_len :: nat where
  "recv_buf_len = 65535"

function drain_kcp_recv_into :: "nat \<Rightarrow> kcp \<Rightarrow> bytes list \<Rightarrow> (kcp \<times> bytes list) result" where
  "drain_kcp_recv_into limit k pending =
     (if length pending \<ge> limit then Inr (k, pending)
      else (case recv recv_buf_len k of
          Inl e \<Rightarrow> Inl e
        | Inr (n, msg, k') \<Rightarrow> if n \<le> 0 then Inr (k', pending) else drain_kcp_recv_into limit k' (pending @ [msg])))"
  by pat_completeness auto
termination
  by (relation "measure (\<lambda>(limit, k, pending). limit - length pending)") auto

declare drain_kcp_recv_into.simps [simp del]

definition drain :: "nat \<Rightarrow> driver \<Rightarrow> driver result" where
  "drain cap d = bindE (drain_kcp_recv_into cap (dr_kcp d) (dr_pending d))
     (\<lambda>(k, pending). Inr (d\<lparr>dr_kcp := k, dr_pending := pending\<rparr>))"

text \<open>The arms of the select loop. \<open>None\<close> is the driver returning.\<close>

datatype event =
    Reserve
  | Tick u32 "nat \<Rightarrow> u32"
  | User bytes
  | Udp bytes
  | Idle

definition drive_reserve :: "driver \<Rightarrow> driver" where
  "drive_reserve d = (case dr_pending d of [] \<Rightarrow> d | item # rest \<Rightarrow> d\<lparr>dr_pending := rest, dr_user := dr_user d @ [item]\<rparr>)"

definition drive_tick :: "header_type \<Rightarrow> nat \<Rightarrow> u32 \<Rightarrow> (nat \<Rightarrow> u32) \<Rightarrow> driver \<Rightarrow> driver option result" where
  "drive_tick h cap now noise d = (case flush (update_clock now (dr_kcp d)) of
      (out, k) \<Rightarrow>
        if is_dead k then Inr None
        else bindE (drain cap (d\<lparr>dr_kcp := k, dr_net := dr_net d @ map2 (\<lambda>i seg. hdr_encode h (noise i) seg) [0..<length out] out\<rparr>))
          (\<lambda>d'. Inr (Some d')))"

definition drive_input :: "nat \<Rightarrow> bytes \<Rightarrow> driver \<Rightarrow> driver option result" where
  "drive_input cap payload d =
     bindE (drain cap (d\<lparr>dr_kcp := snd (input payload (dr_kcp d))\<rparr>)) (\<lambda>d'. Inr (Some d'))"

fun run_server_driver :: "header_type \<Rightarrow> nat \<Rightarrow> event \<Rightarrow> driver \<Rightarrow> driver option result" where
  "run_server_driver h cap Reserve d = Inr (Some (drive_reserve d))"
| "run_server_driver h cap (Tick now noise) d = drive_tick h cap now noise d"
| "run_server_driver h cap (User msg) d = Inr (Some (d\<lparr>dr_kcp := snd (send msg (dr_kcp d))\<rparr>))"
| "run_server_driver h cap (Udp packet) d = drive_input cap packet d"
| "run_server_driver h cap Idle d = Inr None"

fun run_client_driver :: "header_type \<Rightarrow> nat \<Rightarrow> event \<Rightarrow> driver \<Rightarrow> driver option result" where
  "run_client_driver h cap Reserve d = Inr (Some (drive_reserve d))"
| "run_client_driver h cap (Tick now noise) d = drive_tick h cap now noise d"
| "run_client_driver h cap (User msg) d = Inr (Some (d\<lparr>dr_kcp := snd (send msg (dr_kcp d))\<rparr>))"
| "run_client_driver h cap (Udp packet) d =
     (case hdr_strip h packet of None \<Rightarrow> Inr (Some d) | Some payload \<Rightarrow> drive_input cap payload d)"
| "run_client_driver h cap Idle d = Inr (Some d)"

text \<open>Runs of a driver, stopping when it returns.\<close>

fun drive :: "(event \<Rightarrow> driver \<Rightarrow> driver option result) \<Rightarrow> event list \<Rightarrow> driver \<Rightarrow> driver option result" where
  "drive step [] d = Inr (Some d)"
| "drive step (e # es) d = bindE (step e d) (\<lambda>r. case r of None \<Rightarrow> Inr None | Some d' \<Rightarrow> drive step es d')"

section \<open>The listener's session table\<close>

text \<open>
  One entry per peer address: the conversation and the number of the driver behind it. \<open>l_drivers\<close> are the drivers
  started, in their initial state, and \<open>l_forwarded\<close> the payloads queued to them. \<open>accepted\<close> says whether the
  application still takes new sessions (the listener stops when it does not) and \<open>room\<close> whether the driver's
  bounded packet channel has a free slot.
\<close>

type_synonym peer = nat

record listener =
  sessions :: "(peer \<times> u32 \<times> nat) list"
  l_next :: nat
  l_drivers :: "(nat \<times> driver) list"
  l_forwarded :: "(nat \<times> bytes) list"

abbreviation (input) "MAX_SERVER_SESSIONS \<equiv> (1024 :: nat)"

definition peek_conv :: "bytes \<Rightarrow> u32 option" where
  "peek_conv payload = (if length payload < 4 then None else Some (from_le (take 4 payload)))"

definition start_server_session :: "mkcp_config \<Rightarrow> peer \<Rightarrow> bytes \<Rightarrow> bool \<Rightarrow> listener \<Rightarrow> listener option" where
  "start_server_session c peer payload accepted l = (case seg_decode payload of
      None \<Rightarrow> Some l
    | Some (first, rest) \<Rightarrow>
        let d = driver_new c (s_conv first);
            l1 = l\<lparr>sessions := AList.update peer (s_conv first, l_next l) (sessions l), l_next := l_next l + 1,
                   l_drivers := l_drivers l @ [(l_next l, d\<lparr>dr_kcp := snd (input payload (dr_kcp d))\<rparr>)]\<rparr>
        in if accepted then Some l1 else None)"

definition listener_packet :: "mkcp_config \<Rightarrow> peer \<Rightarrow> bytes \<Rightarrow> bool \<Rightarrow> bool \<Rightarrow> listener \<Rightarrow> listener option" where
  "listener_packet c peer packet room accepted l = (case hdr_strip (c_header c) packet of
      None \<Rightarrow> Some l
    | Some payload \<Rightarrow>
        (let fresh = (\<lambda>l. if length (sessions l) \<ge> MAX_SERVER_SESSIONS then Some l
              else start_server_session c peer payload accepted l)
         in case map_of (sessions l) peer of
            Some (stored, drv) \<Rightarrow>
              if peek_conv payload = Some stored
              then Some (if room then l\<lparr>l_forwarded := l_forwarded l @ [(drv, payload)]\<rparr> else l)
              else fresh (l\<lparr>sessions := AList.delete peer (sessions l)\<rparr>)
          | None \<Rightarrow> fresh l))"

definition listener_cleanup :: "peer \<Rightarrow> listener \<Rightarrow> listener" where
  "listener_cleanup peer l = l\<lparr>sessions := AList.delete peer (sessions l)\<rparr>"

section \<open>The byte stream\<close>

record mkcp_stream =
  ms_rx :: "bytes list"
  ms_buf :: bytes

text \<open>
  A read with room for \<open>n\<close> bytes; \<open>None\<close> is pending. An item of the channel that does not fit is kept for the next
  read.
\<close>

definition poll_read :: "nat \<Rightarrow> mkcp_stream \<Rightarrow> (bytes \<times> mkcp_stream) option" where
  "poll_read n s =
     (if ms_buf s \<noteq> [] then Some (take n (ms_buf s), s\<lparr>ms_buf := drop n (ms_buf s)\<rparr>)
      else (case ms_rx s of
          [] \<Rightarrow> None
        | item # rest \<Rightarrow> Some (take n item, s\<lparr>ms_rx := rest, ms_buf := drop n item\<rparr>)))"

fun read_all :: "nat list \<Rightarrow> mkcp_stream \<Rightarrow> bytes \<times> mkcp_stream" where
  "read_all [] s = ([], s)"
| "read_all (n # ns) s = (case poll_read n s of
      None \<Rightarrow> read_all ns s
    | Some (out, s') \<Rightarrow> (case read_all ns s' of (rest, s'') \<Rightarrow> (out @ rest, s'')))"

section \<open>The driver and a hostile peer\<close>

text \<open>
  What bounds a receive queue: its length by the window, its segments by the largest UDP datagram. Together they
  keep the total far enough below \<open>2 ^ 31\<close> that the size cast in \<^verbatim>\<open>peeksize\<close> is exact.
\<close>

fun queue_ok :: "u32 \<times> u16 \<times> segment list \<times> segment list \<Rightarrow> bool" where
  "queue_ok (nxt, wnd, q, buf) \<longleftrightarrow> unat wnd \<le> 32768 \<and> length q \<le> unat wnd
     \<and> list_all (\<lambda>s. length (s_data s) < 65536) (q @ buf)"

lemma move_loop_ok:
  assumes "move_loop w buf nxt q = (buf', nxt', q')" and "list_all P buf" and "list_all P q" and "length q \<le> w"
  shows "list_all P buf' \<and> list_all P q' \<and> length q' \<le> w"
  using assms by (induction w buf nxt q rule: move_loop.induct) (auto split: if_splits)

lemma move_rcv_buf_ok: "queue_ok (rview k) \<Longrightarrow> queue_ok (rview (move_rcv_buf k))"
  by (auto simp: move_rcv_buf_def rview_def dest: move_loop_ok split: prod.splits)

lemma set_insert_at: "set (insert_at i x xs) = insert x (set xs)"
  by (metis insert_at_def append_take_drop_id Un_insert_right append_Cons append_Nil list.simps(15) set_append)

lemma parse_data_ok:
  assumes "queue_ok (rview k)" and "length (s_data seg) < 65536"
  shows "queue_ok (rview (parse_data seg k))"
proof -
  have "queue_ok (rview (k\<lparr>rcv_buf := insert_at i seg (rcv_buf k)\<rparr>))" for i
    using assms by (auto simp: rview_def list_all_iff set_insert_at)
  from move_rcv_buf_ok [OF this] show ?thesis using assms(1) by (simp add: parse_data_def)
qed

lemma seg_decode_data: "seg_decode d = Some (s, rest) \<Longrightarrow> length (s_data s) \<le> length d \<and> length rest \<le> length d"
  by (auto simp: seg_decode_def Let_def split: if_splits)

lemma dgram_segs_data: "s \<in> set (dgram_segs d) \<Longrightarrow> length (s_data s) \<le> length d"
proof (induction d rule: dgram_segs.induct)
  case (1 d)
  from "1.prems" obtain s' rest where d: "d \<noteq> []" "seg_decode d = Some (s', rest)" "s = s' \<or> s \<in> set (dgram_segs rest)"
    by (cases "seg_decode d") (auto simp: dgram_segs.simps [of d] split: if_splits)
  show ?case using d(3) "1.IH" [OF d(1,2) refl] seg_decode_data [OF d(2)] by auto
qed

lemma input_ok:
  assumes "queue_ok (rview k)" and "length d < 65536"
  shows "queue_ok (rview (snd (input d k)))"
proof (rule input_keeps [where P = "\<lambda>k. queue_ok (rview k)"])
  fix s and i :: input_state assume s: "s \<in> set (dgram_segs d)" and i: "queue_ok (rview (i_kcp i))"
  have "length (s_data s) < 65536" using dgram_segs_data [OF s] assms(2) by simp
  then show "queue_ok (rview (i_kcp (snd (input_seg s i))))"
    using i by (auto simp: input_seg_def Let_def intro!: parse_data_ok)
qed (use assms(1) in simp_all)

text \<open>Reading pops segments off the front, within the buffer, and never past its end.\<close>

lemma recv_loop_ok:
  "length out + queue_bytes q \<le> cap \<or> (\<exists>s q'. q = s # q' \<and> s_frg s = 0 \<and> length out + length (s_data s) \<le> cap)
   \<Longrightarrow> \<exists>out' popped q'. recv_loop cap q out = Inr (out', q') \<and> q = popped @ q'"
proof (induction q arbitrary: out)
  case (Cons s q)
  show ?case
  proof (cases "s_frg s = 0")
    case True
    then show ?thesis using Cons.prems by (auto simp: queue_bytes_def intro: exI [of _ "[s]"])
  next
    case False
    then have room: "length (out @ s_data s) + queue_bytes q \<le> cap" using Cons.prems by (auto simp: queue_bytes_def)
    then obtain out' popped q' where "recv_loop cap q (out @ s_data s) = Inr (out', q')" "q = popped @ q'"
      using Cons.IH by blast
    then show ?thesis using False room by (auto intro: exI [of _ "s # popped"])
  qed
qed simp

lemma queue_bytes_bound:
  assumes "list_all (\<lambda>s. length (s_data s) < 65536) q" and "length q \<le> 32768"
  shows "queue_bytes q < 2 ^ 31"
proof -
  have "queue_bytes q \<le> length q * 65535" using assms(1) by (induction q) (auto simp: queue_bytes_def)
  also have "\<dots> \<le> 32768 * 65535" using assms(2) by simp
  finally show ?thesis by simp
qed

lemma recv_ok:
  assumes "queue_ok (rview k)"
  shows "\<exists>n msg k'. recv cap k = Inr (n, msg, k') \<and> queue_ok (rview k')"
proof (cases "rcv_queue k = [] \<or> peeksize k < 0 \<or> i32 cap < peeksize k")
  case True
  then show ?thesis using assms by (auto simp: recv_def)
next
  case False
  then obtain s q where q: "rcv_queue k = s # q" by (cases "rcv_queue k") auto
  have b: "queue_bytes (rcv_queue k) < 2 ^ 31" "length (s_data s) < 2 ^ 31"
    using assms queue_bytes_bound [of "rcv_queue k"] by (auto simp: rview_def q)
  have "queue_bytes (rcv_queue k) \<le> cap \<or> s_frg s = 0 \<and> length (s_data s) \<le> cap"
    using False q b i32_le [of cap] by (auto simp: peeksize_def i32_small split: if_splits)
  then obtain out popped q' where l: "recv_loop cap (rcv_queue k) [] = Inr (out, q')" "rcv_queue k = popped @ q'"
    using recv_loop_ok [of "[]" "rcv_queue k" cap] q by auto
  have "queue_ok (rview (k\<lparr>rcv_queue := q'\<rparr>))" using assms l(2) by (simp add: rview_def)
  from move_rcv_buf_ok [OF this] show ?thesis using False l(1) by (simp add: recv_def Let_def)
qed

lemma drain_ok:
  "queue_ok (rview k) \<Longrightarrow> \<exists>k' pending'. drain_kcp_recv_into limit k pending = Inr (k', pending') \<and> queue_ok (rview k')"
proof (induction limit k pending rule: drain_kcp_recv_into.induct)
  case (1 limit k pending)
  obtain n msg k' where r: "recv recv_buf_len k = Inr (n, msg, k')" "queue_ok (rview k')"
    using recv_ok [OF "1.prems"] by blast
  show ?case
    using "1.IH" [OF _ r(1) refl refl] "1.prems" r by (subst (1) drain_kcp_recv_into.simps) auto
qed

definition small_packets :: "event list \<Rightarrow> bool" where
  "small_packets es \<longleftrightarrow> list_all (\<lambda>e. case e of Udp packet \<Rightarrow> length packet < 65536 | _ \<Rightarrow> True) es"

text \<open>What every arm of the two select loops keeps, the loop keeps.\<close>

lemma drive_keeps:
  assumes "\<And>e d. e \<in> set es \<Longrightarrow> P d \<Longrightarrow> \<exists>r. step e d = Inr r \<and> (\<forall>d'. r = Some d' \<longrightarrow> P d')" and "P d"
  shows "\<exists>r. drive step es d = Inr r \<and> (\<forall>d'. r = Some d' \<longrightarrow> P d')"
  using assms
proof (induction es arbitrary: d)
  case (Cons e es)
  obtain r where r: "step e d = Inr r" "\<forall>d'. r = Some d' \<longrightarrow> P d'" using Cons.prems by fastforce
  show ?case
  proof (cases r)
    case (Some d')
    then show ?thesis using Cons.IH [of d'] Cons.prems(1) r by simp
  qed (simp add: r)
qed simp

lemma rview_send [simp]: "rview (snd (send msg k)) = rview k"
  by (simp add: send_def Let_def)

lemma drain_driver_ok:
  assumes "queue_ok (rview (dr_kcp d))"
  shows "\<exists>d'. drain cap d = Inr d' \<and> queue_ok (rview (dr_kcp d'))"
  using drain_ok [OF assms, of cap "dr_pending d"] by (auto simp: drain_def)

lemma drive_tick_ok:
  assumes "queue_ok (rview (dr_kcp d))"
  shows "\<exists>r. drive_tick h cap now noise d = Inr r \<and> (\<forall>d'. r = Some d' \<longrightarrow> queue_ok (rview (dr_kcp d')))"
proof -
  obtain out k where f: "flush (update_clock now (dr_kcp d)) = (out, k)" by force
  have "queue_ok (rview k)" using flush_rview [of "update_clock now (dr_kcp d)"] assms f by simp
  then have "queue_ok (rview (dr_kcp (d\<lparr>dr_kcp := k, dr_net := net\<rparr>)))" for net by simp
  from drain_driver_ok [OF this, of cap] show ?thesis
    by (clarsimp simp: drive_tick_def f) (metis bindE_simps(2) option.inject)
qed

lemma drive_input_ok:
  assumes "queue_ok (rview (dr_kcp d))" and "length payload < 65536"
  shows "\<exists>r. drive_input cap payload d = Inr r \<and> (\<forall>d'. r = Some d' \<longrightarrow> queue_ok (rview (dr_kcp d')))"
proof -
  have "\<exists>d'. drain cap (d\<lparr>dr_kcp := snd (input payload (dr_kcp d))\<rparr>) = Inr d' \<and> queue_ok (rview (dr_kcp d'))"
    using input_ok [OF assms] by (intro drain_driver_ok) simp
  then show ?thesis by (fastforce simp: drive_input_def)
qed

lemma hdr_strip_length: "hdr_strip h packet = Some payload \<Longrightarrow> length payload \<le> length packet"
  by (auto simp: hdr_strip_def split: if_splits)

lemma driver_arms_ok:
  assumes "queue_ok (rview (dr_kcp d))" and "case e of Udp packet \<Rightarrow> length packet < 65536 | _ \<Rightarrow> True"
  shows "\<exists>r. run_server_driver h cap e d = Inr r \<and> (\<forall>d'. r = Some d' \<longrightarrow> queue_ok (rview (dr_kcp d')))"
    "\<exists>r. run_client_driver h cap e d = Inr r \<and> (\<forall>d'. r = Some d' \<longrightarrow> queue_ok (rview (dr_kcp d')))"
proof -
  show "\<exists>r. run_server_driver h cap e d = Inr r \<and> (\<forall>d'. r = Some d' \<longrightarrow> queue_ok (rview (dr_kcp d')))"
    using assms drive_tick_ok [OF assms(1)] drive_input_ok [OF assms(1)]
    by (cases e) (simp_all add: drive_reserve_def split: list.splits)
  show "\<exists>r. run_client_driver h cap e d = Inr r \<and> (\<forall>d'. r = Some d' \<longrightarrow> queue_ok (rview (dr_kcp d')))"
  proof (cases e)
    case (Udp packet)
    then show ?thesis using assms drive_input_ok [OF assms(1)] hdr_strip_length [of h packet]
      by (cases "hdr_strip h packet") auto
  qed (use assms drive_tick_ok [OF assms(1)] in \<open>simp_all add: drive_reserve_def split: list.splits\<close>)
qed

lemma driver_new_ok: "unat (c_rcv_wnd c) \<le> 32768 \<Longrightarrow> queue_ok (rview (dr_kcp (driver_new c conv)))"
  by (simp add: driver_new_def rview_def set_wndsize_def set_nodelay_def kcp_new_def Let_def)

text \<open>
  Property C27. No peer can make an mKCP driver panic: whatever datagrams arrive, whatever the application writes
  and however the select loop interleaves its arms, the server driver and the client driver run to the end of the
  event sequence or return, as long as the receive window is at most 32768 segments.
\<close>

theorem mkcp_drivers_never_panic:
  assumes "unat (c_rcv_wnd c) \<le> 32768" and "small_packets es"
  shows "(\<exists>r. drive (run_server_driver (c_header c) cap) es (driver_new c conv) = Inr r)
    \<and> (\<exists>r. drive (run_client_driver (c_header c) cap) es (driver_new c conv) = Inr r)"
proof -
  have packets: "case e of Udp packet \<Rightarrow> length packet < 65536 | _ \<Rightarrow> True" if "e \<in> set es" for e
    using assms(2) that by (auto simp: small_packets_def list_all_iff)
  note arms = driver_arms_ok [OF _ packets]
  have "\<exists>r. drive (run_server_driver (c_header c) cap) es (driver_new c conv) = Inr r
      \<and> (\<forall>d'. r = Some d' \<longrightarrow> queue_ok (rview (dr_kcp d')))"
    by (rule drive_keeps) (use arms(1) driver_new_ok [OF assms(1)] in blast)+
  moreover have "\<exists>r. drive (run_client_driver (c_header c) cap) es (driver_new c conv) = Inr r
      \<and> (\<forall>d'. r = Some d' \<longrightarrow> queue_ok (rview (dr_kcp d')))"
    by (rule drive_keeps) (use arms(2) driver_new_ok [OF assms(1)] in blast)+
  ultimately show ?thesis by blast
qed

theorem mkcp_drivers_never_panic_witness:
  "\<exists>r. drive (run_client_driver Dtls 128) [User [1], Tick 7 (\<lambda>_. 0), Udp (replicate 40 255)]
     (driver_new \<lparr>c_header = Dtls, c_rcv_wnd = 128, c_snd_wnd = 128, c_nodelay = True\<rparr> 1) = Inr r"
  using mkcp_drivers_never_panic [of "\<lparr>c_header = Dtls, c_rcv_wnd = 128, c_snd_wnd = 128, c_nodelay = True\<rparr>"
      "[User [1], Tick 7 (\<lambda>_. 0), Udp (replicate 40 255)]" 128 1]
  by (simp add: small_packets_def)

section \<open>A receive queue larger than the read buffer\<close>

text \<open>
  \<^verbatim>\<open>peeksize\<close> adds up the whole queue whenever the first segment is not the last of its message. Once that total
  exceeds the 65535-byte read buffer the driver's read returns \<open>-2\<close>, and since the queue only grows at its end it
  does so for ever.
\<close>

definition stalled :: "kcp \<Rightarrow> bool" where
  "stalled k \<longleftrightarrow> rcv_queue k \<noteq> [] \<and> s_frg (hd (rcv_queue k)) \<noteq> 0
     \<and> unat (s_frg (hd (rcv_queue k)) + 1) \<le> length (rcv_queue k) \<and> recv_buf_len < queue_bytes (rcv_queue k)"

fun queue_from :: "segment list \<Rightarrow> u32 \<times> u16 \<times> segment list \<times> segment list \<Rightarrow> bool" where
  "queue_from q0 (nxt, wnd, q, buf) \<longleftrightarrow> (\<exists>ext. q = q0 @ ext)"

lemma stalled_extends: "stalled k \<Longrightarrow> queue_from (rcv_queue k) (rview k') \<Longrightarrow> stalled k'"
  by (auto simp: stalled_def rview_def queue_bytes_def)

lemma move_loop_extends: "move_loop w buf nxt q = (buf', nxt', q') \<Longrightarrow> \<exists>ext. q' = q @ ext"
  by (induction w buf nxt q rule: move_loop.induct) (auto split: if_splits)

lemma move_rcv_buf_extends: "queue_from q0 (rview k) \<Longrightarrow> queue_from q0 (rview (move_rcv_buf k))"
  using move_loop_extends by (fastforce simp: move_rcv_buf_def rview_def split: prod.splits)

lemma parse_data_extends:
  assumes "queue_from q0 (rview k)"
  shows "queue_from q0 (rview (parse_data seg k))"
proof -
  have "queue_from q0 (rview (k\<lparr>rcv_buf := b\<rparr>))" for b using assms by (simp add: rview_def)
  from move_rcv_buf_extends [OF this] show ?thesis using assms by (simp add: parse_data_def)
qed

lemma input_extends: "queue_from (rcv_queue k) (rview (snd (input d k)))"
proof (rule input_keeps [where P = "\<lambda>k'. queue_from (rcv_queue k) (rview k')"])
  show "queue_from (rcv_queue k) (rview k)" by (simp add: rview_def)
qed (auto simp: input_seg_def Let_def intro!: parse_data_extends)

lemma stalled_recv:
  assumes "stalled k" and "queue_ok (rview k)"
  shows "recv recv_buf_len k = Inr (-2, [], k)"
proof -
  have "queue_bytes (rcv_queue k) < 2 ^ 31" using assms(2) by (intro queue_bytes_bound) (simp_all add: rview_def)
  moreover have "i32 recv_buf_len = int recv_buf_len" by (simp add: i32_small recv_buf_len_def)
  ultimately show ?thesis
    using assms(1) by (cases "rcv_queue k") (auto simp: recv_def stalled_def peeksize_def i32_small)
qed

lemma stalled_drain:
  assumes "stalled (dr_kcp d)" and "queue_ok (rview (dr_kcp d))"
  shows "drain cap d = Inr d"
  using stalled_recv [OF assms] by (simp add: drain_def drain_kcp_recv_into.simps [of cap])

definition stuck :: "bytes list \<Rightarrow> driver \<Rightarrow> bool" where
  "stuck msgs d \<longleftrightarrow> stalled (dr_kcp d) \<and> queue_ok (rview (dr_kcp d)) \<and> dr_user d @ dr_pending d = msgs"

lemma stuck_rview: "stuck msgs d \<Longrightarrow> rview k = rview (dr_kcp d) \<Longrightarrow> stuck msgs (d\<lparr>dr_kcp := k, dr_net := net\<rparr>)"
  by (auto simp: stuck_def stalled_def rview_def)

lemma stuck_tick:
  assumes "stuck msgs d"
  shows "\<exists>r. drive_tick h cap now noise d = Inr r \<and> (\<forall>d'. r = Some d' \<longrightarrow> stuck msgs d')"
proof -
  obtain out k where f: "flush (update_clock now (dr_kcp d)) = (out, k)" by force
  have "rview k = rview (dr_kcp d)" using flush_rview [of "update_clock now (dr_kcp d)"] f by simp
  from stuck_rview [OF assms this] show ?thesis
    by (simp add: drive_tick_def f stuck_def stalled_drain)
qed

lemma stuck_input:
  assumes "stuck msgs d" and "length payload < 65536"
  shows "\<exists>r. drive_input cap payload d = Inr r \<and> (\<forall>d'. r = Some d' \<longrightarrow> stuck msgs d')"
proof -
  have "stuck msgs (d\<lparr>dr_kcp := snd (input payload (dr_kcp d))\<rparr>)"
    using assms stalled_extends [OF _ input_extends] input_ok by (auto simp: stuck_def)
  then show ?thesis by (simp add: drive_input_def stuck_def stalled_drain)
qed

lemma stuck_server:
  assumes "stuck msgs d" and "case e of Udp packet \<Rightarrow> length packet < 65536 | _ \<Rightarrow> True"
  shows "\<exists>r. run_server_driver h cap e d = Inr r \<and> (\<forall>d'. r = Some d' \<longrightarrow> stuck msgs d')"
proof (cases e)
  case (User msg)
  then show ?thesis using assms(1) by (simp add: stuck_def stalled_def send_def Let_def rview_def)
next
  case Reserve
  then show ?thesis using assms(1) by (auto simp: drive_reserve_def stuck_def split: list.splits)
qed (use assms stuck_tick stuck_input in auto)

text \<open>
  Property C18. A multi-fragment message at the head of a receive queue of more than 65535 bytes is never delivered,
  and nothing after it either: from such a state on, whatever arrives, is written or times out, the server driver
  hands the application nothing beyond what was already pending, until it returns. The message itself may be far
  smaller than the buffer; the rest of the queue counts against it.
\<close>

theorem mkcp_oversized_queue_stalls:
  assumes "stalled (dr_kcp d)" and "queue_ok (rview (dr_kcp d))" and "small_packets es"
    and "drive (run_server_driver h cap) es d = Inr (Some d')"
  shows "stalled (dr_kcp d') \<and> dr_user d' @ dr_pending d' = dr_user d @ dr_pending d"
proof -
  have "\<exists>r. drive (run_server_driver h cap) es d = Inr r \<and> (\<forall>d'. r = Some d' \<longrightarrow> stuck (dr_user d @ dr_pending d) d')"
  proof (rule drive_keeps)
    fix e da assume "e \<in> set es" and "stuck (dr_user d @ dr_pending d) da"
    then show "\<exists>r. run_server_driver h cap e da = Inr r \<and> (\<forall>d'. r = Some d' \<longrightarrow> stuck (dr_user d @ dr_pending d) d')"
      using assms(3) by (intro stuck_server) (simp_all add: small_packets_def list_all_iff)
  qed (simp add: stuck_def assms(1,2))
  then show ?thesis using assms(4) by (simp add: stuck_def)
qed

text \<open>
  The state after a lost segment has been retransmitted: a two-fragment message of 1377 bytes, with the full
  segments that followed it already in the queue.
\<close>

definition blocked_queue :: "segment list" where
  "blocked_queue = map (\<lambda>i. (seg_new 1 CMD_PUSH)\<lparr>s_sn := of_nat i, s_frg := (if i = 0 then 1 else 0),
     s_data := replicate (if i = 1 then 1 else 1376) 7\<rparr>) [0..<50]"

definition blocked_driver :: driver where
  "blocked_driver = \<lparr>dr_kcp = (kcp_new 1)\<lparr>rcv_queue := blocked_queue, rcv_nxt := 50\<rparr>, dr_pending = [], dr_user = [], dr_net = []\<rparr>"

lemma blocked_queue_facts:
  "hd blocked_queue = (seg_new 1 CMD_PUSH)\<lparr>s_frg := 1, s_data := replicate 1376 7\<rparr>" "length blocked_queue = 50"
  "queue_bytes blocked_queue = 67425" "list_all (\<lambda>s. length (s_data s) < 65536) blocked_queue"
  by (simp_all add: blocked_queue_def queue_bytes_def comp_def seg_new_def hd_map list_all_iff upt_conv_Cons del: replicate.simps)

lemma blocked_driver_facts: "stalled (dr_kcp blocked_driver)" "queue_ok (rview (dr_kcp blocked_driver))"
  "dr_user blocked_driver @ dr_pending blocked_driver = []"
  using blocked_queue_facts
  by (auto simp: blocked_driver_def stalled_def recv_buf_len_def rview_def kcp_new_def seg_new_def)

lemma blocked_driver_runs: "\<exists>d'. drive (run_server_driver HNone 128) [Udp [0, 1]] blocked_driver = Inr (Some d')"
  using drive_input_ok [OF blocked_driver_facts(2), of "[0, 1]" 128] by (auto simp: drive_input_def bindE_eq_Inr)

theorem mkcp_oversized_queue_stalls_witness:
  "\<exists>d'. drive (run_server_driver HNone 128) [Udp [0, 1]] blocked_driver = Inr (Some d')
     \<and> stalled (dr_kcp d') \<and> dr_user d' @ dr_pending d' = []"
  using blocked_driver_runs mkcp_oversized_queue_stalls [OF blocked_driver_facts(1,2), of "[Udp [0, 1]]" HNone 128]
  by (auto simp: small_packets_def blocked_driver_facts(3) simp del: drive.simps)

section \<open>From the application's writes to the application's reads\<close>

text \<open>
  The driver's two queues hold the messages of the stream in order, for any sequence of events whose datagrams come
  from the sender.
\<close>

definition dinv :: "bytes list \<Rightarrow> driver \<Rightarrow> bool" where
  "dinv msgs d \<longleftrightarrow> (\<exists>later. msgs = dr_user d @ dr_pending d @ later)
     \<and> rinv (concat (map pieces msgs)) (concat (map pieces (dr_user d @ dr_pending d))) (rview (dr_kcp d))"

lemma drain_in_order:
  assumes "list_all sendable msgs" and "length (concat (map pieces msgs)) \<le> 2 ^ 32 - 1"
  shows "msgs = user @ pending @ later
    \<Longrightarrow> rinv (concat (map pieces msgs)) (concat (map pieces (user @ pending))) (rview k)
    \<Longrightarrow> \<exists>k' taken later'. drain_kcp_recv_into limit k pending = Inr (k', pending @ taken)
      \<and> msgs = user @ pending @ taken @ later'
      \<and> rinv (concat (map pieces msgs)) (concat (map pieces (user @ pending @ taken))) (rview k')"
proof (induction limit k pending arbitrary: later rule: drain_kcp_recv_into.induct)
  case (1 limit k pending)
  note msgs = "1.prems"(1) and inv = "1.prems"(2)
  have later: "list_all sendable later" using assms(1) msgs by simp
  have stream: "concat (map pieces msgs) = concat (map pieces (user @ pending)) @ concat (map pieces later)"
    using msgs by simp
  have stop: "\<exists>taken later'. pending = pending @ taken \<and> msgs = user @ pending @ taken @ later'
      \<and> rinv (concat (map pieces msgs)) (concat (map pieces (user @ pending @ taken))) (rview k)"
    using msgs inv by (intro exI [of _ "[]"] exI [of _ later]) auto
  from recv_message [OF inv assms(2) stream later small_pieces, of recv_buf_len]
  consider (full) "limit \<le> length pending"
    | (wait) code where "code < 0" "recv recv_buf_len k = Inr (code, [], k)"
    | (take) m ms k' where "length pending < limit" "later = m # ms" "recv recv_buf_len k = Inr (int (length m), m, k')"
        "rinv (concat (map pieces msgs)) (concat (map pieces (user @ pending)) @ pieces m) (rview k')"
    by (cases "limit \<le> length pending") auto
  then show ?case
  proof cases
    case take
    have pos: "\<not> int (length m) \<le> 0" using later take(2) by (simp add: sendable_def)
    obtain k'' taken later' where r: "drain_kcp_recv_into limit k' (pending @ [m]) = Inr (k'', (pending @ [m]) @ taken)"
      "msgs = user @ (pending @ [m]) @ taken @ later'"
      "rinv (concat (map pieces msgs)) (concat (map pieces (user @ (pending @ [m]) @ taken))) (rview k'')"
      using "1.IH" [OF _ take(3) refl refl pos, of ms] take msgs by auto
    have "drain_kcp_recv_into limit k pending = drain_kcp_recv_into limit k' (pending @ [m])"
      using take(1,3) pos by (simp add: drain_kcp_recv_into.simps [of limit k])
    then show ?thesis using r by (intro exI [of _ k''] exI [of _ "m # taken"] exI [of _ later']) simp
  qed (use stop in \<open>auto simp: drain_kcp_recv_into.simps [of limit k]\<close>)
qed

lemma dinv_drain:
  assumes "list_all sendable msgs" and "length (concat (map pieces msgs)) \<le> 2 ^ 32 - 1" and "dinv msgs d"
  shows "\<exists>d'. drain cap d = Inr d' \<and> dinv msgs d'"
proof -
  obtain later where m: "msgs = dr_user d @ dr_pending d @ later" using assms(3) by (auto simp: dinv_def)
  have "rinv (concat (map pieces msgs)) (concat (map pieces (dr_user d @ dr_pending d))) (rview (dr_kcp d))"
    using assms(3) by (simp add: dinv_def)
  from drain_in_order [OF assms(1,2) m this, of cap] obtain k taken later' where
    "drain_kcp_recv_into cap (dr_kcp d) (dr_pending d) = Inr (k, dr_pending d @ taken)"
    "msgs = dr_user d @ dr_pending d @ taken @ later'"
    "rinv (concat (map pieces msgs)) (concat (map pieces (dr_user d @ dr_pending d @ taken))) (rview k)" by blast
  then show ?thesis by (auto simp: dinv_def drain_def)
qed

definition honest_event :: "bytes list \<Rightarrow> event \<Rightarrow> bool" where
  "honest_event msgs e = (case e of Udp packet \<Rightarrow> honest_dgram (concat (map pieces msgs)) packet | _ \<Rightarrow> True)"

lemma dinv_server:
  assumes ok: "list_all sendable msgs" "length (concat (map pieces msgs)) \<le> 2 ^ 32 - 1"
    and d: "dinv msgs d" and e: "honest_event msgs e"
  shows "\<exists>r. run_server_driver h cap e d = Inr r \<and> (\<forall>d'. r = Some d' \<longrightarrow> dinv msgs d')"
proof (cases e)
  case (Udp packet)
  have "dinv msgs (d\<lparr>dr_kcp := snd (input packet (dr_kcp d))\<rparr>)"
    using d e input_rinv [OF _ ok(2), of _ "dr_kcp d" packet] by (simp add: dinv_def honest_event_def Udp)
  from dinv_drain [OF ok this, of cap] show ?thesis by (auto simp: Udp drive_input_def)
next
  case (Tick now noise)
  obtain out k where f: "flush (update_clock now (dr_kcp d)) = (out, k)" by force
  have "rview k = rview (dr_kcp d)" using flush_rview [of "update_clock now (dr_kcp d)"] f by simp
  then have "dinv msgs (d\<lparr>dr_kcp := k, dr_net := net\<rparr>)" for net using d by (simp add: dinv_def)
  from dinv_drain [OF ok this, of cap] show ?thesis
    by (clarsimp simp: Tick drive_tick_def f) (metis bindE_simps(2) option.inject)
next
  case (User msg)
  then show ?thesis using d by (simp add: dinv_def)
next
  case Reserve
  then show ?thesis using d by (auto simp: dinv_def drive_reserve_def split: list.splits)
qed simp

lemma dinv_new: "dinv msgs (driver_new c conv)"
  by (simp add: dinv_def driver_new_def rview_def set_wndsize_def set_nodelay_def kcp_new_def Let_def)

text \<open>Reading the stream in pieces of any size yields the channel's bytes in order, losing none.\<close>

lemma poll_read_bytes:
  "poll_read n s = Some (out, s') \<Longrightarrow> out @ ms_buf s' @ concat (ms_rx s') = ms_buf s @ concat (ms_rx s)"
  by (auto simp: poll_read_def split: if_splits list.splits)

lemma read_all_bytes:
  "read_all ns s = (out, s') \<Longrightarrow> out @ ms_buf s' @ concat (ms_rx s') = ms_buf s @ concat (ms_rx s)"
proof (induction ns s arbitrary: out rule: read_all.induct)
  case (2 n ns s)
  then show ?case
    using poll_read_bytes [of n s] by (fastforce split: option.splits prod.splits)
qed simp


definition demo_events :: "event list" where
  "demo_events = [Udp [7, 0, 0, 0, 81, 0, 128, 0, 5, 0, 0, 0, 0, 0, 0, 0, 0, 0, 0, 0, 3, 0, 0, 0, 1, 2, 3], Reserve]"

definition demo_config :: mkcp_config where
  "demo_config = \<lparr>c_header = HNone, c_rcv_wnd = 128, c_snd_wnd = 128, c_nodelay = True\<rparr>"

lemma demo_driver:
  "map_sum id (map_option dr_user) (drive (run_server_driver (c_header demo_config) 8) demo_events (driver_new demo_config 7))
    = Inr (Some [[1, 2, 3]])"
proof -
  define k0 where "k0 = dr_kcp (driver_new demo_config 7)"
  define k where "k = snd (input [7, 0, 0, 0, 81, 0, 128, 0, 5, 0, 0, 0, 0, 0, 0, 0, 0, 0, 0, 0, 3, 0, 0, 0, 1, 2, 3] k0)"
  have q: "map content (rcv_queue k) = [(0, [1, 2, 3])]" "rcv_buf k = []"
    unfolding k_def k0_def by code_simp+
  then obtain sg where sg: "rcv_queue k = [sg]" "s_frg sg = 0" "s_data sg = [1, 2, 3]" by (auto simp: content_def)
  have small: "i32 (Suc (Suc (Suc 0))) = 3" "i32 recv_buf_len = 65535" by (simp_all add: i32_small recv_buf_len_def)
  have "\<exists>k'. recv recv_buf_len k = Inr (3, [1, 2, 3], k') \<and> rcv_queue k' = []"
    by (simp add: recv_def sg peeksize_def small q(2) move_rcv_buf_def Let_def) (simp add: recv_buf_len_def)
  then obtain k' where "recv recv_buf_len k = Inr (3, [1, 2, 3], k')" "rcv_queue k' = []" by blast
  then have "drain_kcp_recv_into 8 k [] = Inr (k', [[1, 2, 3]])"
    by (simp add: drain_kcp_recv_into.simps [of 8] recv_def [of _ k'])
  then show ?thesis unfolding k_def k0_def
    by (simp add: demo_events_def drive_input_def drain_def driver_new_def drive_reserve_def)
qed

lemma demo_honest: "list_all sendable [[1, 2, 3]]" "length (concat (map pieces [[1, 2, 3]])) = 1"
  "list_all (honest_event [[1, 2, 3]]) demo_events"
  by code_simp+


section \<open>The session table\<close>

datatype listener_event = Packet peer bytes bool bool | Cleanup peer

fun run_server_listener :: "mkcp_config \<Rightarrow> listener_event list \<Rightarrow> listener \<Rightarrow> listener option" where
  "run_server_listener c [] l = Some l"
| "run_server_listener c (Packet peer packet room accepted # es) l =
     Option.bind (listener_packet c peer packet room accepted l) (run_server_listener c es)"
| "run_server_listener c (Cleanup peer # es) l = run_server_listener c es (listener_cleanup peer l)"

definition listener_new :: listener where
  "listener_new = \<lparr>sessions = [], l_next = 0, l_drivers = [], l_forwarded = []\<rparr>"

text \<open>
  The table has one entry per peer and at most 1024; every entry and every forwarded payload belongs to a driver that
  was started for its conversation.
\<close>

definition driver_conv :: "listener \<Rightarrow> nat \<Rightarrow> u32 option" where
  "driver_conv l i = map_option (\<lambda>d. k_conv (dr_kcp d)) (map_of (l_drivers l) i)"

definition linv :: "listener \<Rightarrow> bool" where
  "linv l \<longleftrightarrow> distinct (map fst (sessions l)) \<and> length (sessions l) \<le> MAX_SERVER_SESSIONS
     \<and> map fst (l_drivers l) = [0..<l_next l]
     \<and> list_all (\<lambda>(peer, conv, i). driver_conv l i = Some conv) (sessions l)
     \<and> list_all (\<lambda>(i, payload). peek_conv payload \<noteq> None \<and> driver_conv l i = peek_conv payload) (l_forwarded l)"

lemma k_conv_ops [simp]:
  "k_conv (parse_una una k) = k_conv k" "k_conv (shrink_buf k) = k_conv k" "k_conv (update_ack rtt k) = k_conv k"
  "k_conv (parse_ack sn k) = k_conv k" "k_conv (parse_fastack sn k) = k_conv k" "k_conv (grow_cwnd p k) = k_conv k"
  by (simp_all add: parse_una_def shrink_buf_def update_ack_def parse_ack_def parse_fastack_def grow_cwnd_def Let_def)

lemma k_conv_receive [simp]: "k_conv (move_rcv_buf k) = k_conv k" "k_conv (parse_data seg k) = k_conv k"
  by (simp_all add: move_rcv_buf_def parse_data_def split: prod.splits)

lemma k_conv_input [simp]: "k_conv (snd (input d k)) = k_conv k"
proof (rule input_keeps [where P = "\<lambda>k'. k_conv k' = k_conv k"])
  fix s and i :: input_state assume "k_conv (i_kcp i) = k_conv k"
  then show "k_conv (i_kcp (snd (input_seg s i))) = k_conv k" by (simp add: input_seg_def Let_def)
qed simp_all

lemma k_conv_driver_new [simp]: "k_conv (dr_kcp (driver_new c conv)) = conv"
  by (simp add: driver_new_def set_wndsize_def set_nodelay_def kcp_new_def Let_def)

lemma driver_conv_updates [simp]:
  "driver_conv (l\<lparr>sessions := x\<rparr>) = driver_conv l" "driver_conv (l\<lparr>l_forwarded := y\<rparr>) = driver_conv l"
  by (simp_all add: driver_conv_def fun_eq_iff)

lemma linv_delete: "linv l \<Longrightarrow> linv (l\<lparr>sessions := AList.delete peer (sessions l)\<rparr>)"
proof -
  assume l: "linv l"
  have sub: "list_all P (AList.delete peer (sessions l))" if "list_all P (sessions l)" for P
    using that by (auto simp: AList.delete_eq list_all_iff)
  have "length (AList.delete peer (sessions l)) \<le> MAX_SERVER_SESSIONS"
    using l length_delete_le [of peer "sessions l"] by (simp add: linv_def)
  then show ?thesis using l sub by (simp add: linv_def distinct_delete)
qed

lemma length_update: "length (AList.update k v al) = (if k \<in> fst ` set al then length al else Suc (length al))"
  by (induction al) auto

lemma set_update: "set (AList.update k v al) \<subseteq> insert (k, v) (set al)"
  by (induction al) auto

lemma map_of_next: "map fst xs = [0..<n] \<Longrightarrow> map_of xs n = None"
  unfolding map_of_eq_None_iff set_map [symmetric] by simp

lemma map_of_fresh: "map fst xs = [0..<n] \<Longrightarrow> map_of (xs @ [(n, d)]) i = (if i = n then Some d else map_of xs i)"
  by (simp add: map_add_def map_of_next split: option.splits)

lemma linv_start:
  assumes "linv l" and "length (sessions l) < MAX_SERVER_SESSIONS"
    and "start_server_session c peer payload accepted l = Some l'"
  shows "linv l'"
proof (cases "seg_decode payload")
  case None
  then show ?thesis using assms by (simp add: start_server_session_def)
next
  case (Some r)
  obtain first rest where r: "r = (first, rest)" by force
  define d where "d = (driver_new c (s_conv first))\<lparr>dr_kcp := snd (input payload (dr_kcp (driver_new c (s_conv first))))\<rparr>"
  have l': "l' = l\<lparr>sessions := AList.update peer (s_conv first, l_next l) (sessions l), l_next := l_next l + 1,
      l_drivers := l_drivers l @ [(l_next l, d)]\<rparr>"
    using assms(3) by (simp add: start_server_session_def Some r Let_def d_def split: if_splits)
  have drivers: "map fst (l_drivers l) = [0..<l_next l]" using assms(1) by (simp add: linv_def)
  have conv: "driver_conv l' i = (if i = l_next l then Some (s_conv first) else driver_conv l i)" for i
    using map_of_fresh [OF drivers, of d i] by (simp add: driver_conv_def l' d_def)
  have old: "driver_conv l (l_next l) = None"
    using map_of_next [OF drivers] by (simp add: driver_conv_def)
  have upd: "(p, cv, i) = (peer, s_conv first, l_next l) \<or> (p, cv, i) \<in> set (sessions l)" if "(p, cv, i) \<in> set (sessions l')" for p cv i
    using that set_update [of peer _ "sessions l"] by (auto simp: l')
  have "length (sessions l') \<le> 1024" using assms(2) by (simp add: l' length_update)
  moreover have "distinct (map fst (sessions l'))" using assms(1) by (simp add: l' linv_def distinct_update)
  moreover have "list_all (\<lambda>(peer, conv, i). driver_conv l' i = Some conv) (sessions l')"
    using assms(1) upd old by (fastforce simp: linv_def list_all_iff conv)
  moreover have "list_all (\<lambda>(i, payload). peek_conv payload \<noteq> None \<and> driver_conv l' i = peek_conv payload) (l_forwarded l')"
  proof -
    have "driver_conv l' i = driver_conv l i" if "(i, pl) \<in> set (l_forwarded l)" for i pl
      using assms(1) that old conv [of i] by (auto simp: linv_def list_all_iff)
    moreover have "l_forwarded l' = l_forwarded l" by (simp add: l')
    ultimately show ?thesis using assms(1) by (auto simp: linv_def list_all_iff)
  qed
  ultimately show ?thesis using drivers by (simp add: linv_def l')
qed

lemma linv_packet:
  assumes "linv l" and "listener_packet c peer packet room accepted l = Some l'"
  shows "linv l'"
proof (cases "hdr_strip (c_header c) packet")
  case None
  then show ?thesis using assms by (simp add: listener_packet_def)
next
  case (Some payload)
  let ?fresh = "\<lambda>l. if length (sessions l) \<ge> MAX_SERVER_SESSIONS then Some l else start_server_session c peer payload accepted l"
  have fresh: "linv m'" if "linv m" "?fresh m = Some m'" for m m'
    using that linv_start by (auto split: if_splits)
  show ?thesis
  proof (cases "map_of (sessions l) peer")
    case None
    then show ?thesis using assms fresh Some by (simp add: listener_packet_def)
  next
    case (Some entry)
    obtain stored drv where e: "entry = (stored, drv)" by force
    have "driver_conv l drv = Some stored"
      using assms(1) map_of_SomeD [OF Some [unfolded e]] by (auto simp: linv_def list_all_iff)
    then have "linv (l\<lparr>l_forwarded := l_forwarded l @ [(drv, payload)]\<rparr>)" if "peek_conv payload = Some stored"
      using assms(1) that by (simp add: linv_def)
    then show ?thesis
      using assms fresh [OF linv_delete [OF assms(1)]] Some e \<open>hdr_strip (c_header c) packet = Some payload\<close>
      by (simp add: listener_packet_def split: if_splits)
  qed
qed

text \<open>
  Property C28. Whatever datagrams and driver exits the listener sees, its table keeps one entry per peer and at most
  1024 of them, and every payload it forwards goes to a driver that was started for the conversation the payload
  names.
\<close>

theorem mkcp_sessions_bounded:
  assumes "run_server_listener c es listener_new = Some l"
  shows "length (sessions l) \<le> 1024 \<and> distinct (map fst (sessions l))
    \<and> (\<forall>i payload. (i, payload) \<in> set (l_forwarded l) \<longrightarrow>
         (\<exists>d. map_of (l_drivers l) i = Some d \<and> peek_conv payload = Some (k_conv (dr_kcp d))))"
proof -
  have "linv l'" if "run_server_listener c es l0 = Some l'" "linv l0" for es l0 l'
    using that
  proof (induction c es l0 rule: run_server_listener.induct)
    case (2 c peer packet room accepted es l)
    then show ?case using linv_packet by (auto simp: bind_eq_Some_conv)
  next
    case (3 c peer es l)
    then show ?case using linv_delete by (simp add: listener_cleanup_def)
  qed simp
  then have "linv l" using assms by (auto simp: linv_def listener_new_def)
  then show ?thesis by (fastforce simp: linv_def list_all_iff driver_conv_def)
qed

theorem mkcp_sessions_bounded_witness:
  "\<exists>l. run_server_listener demo_config [Packet 9 [7, 0] True True, Cleanup 9] listener_new = Some l \<and> length (sessions l) \<le> 1024"
  using mkcp_sessions_bounded [of demo_config "[Packet 9 [7, 0] True True, Cleanup 9]" listener_new]
  by (simp add: listener_packet_def demo_config_def hdr_strip_def listener_new_def start_server_session_def seg_decode_def
      listener_cleanup_def)

lemma peek_conv_decode: "seg_decode d = Some (s, r) \<Longrightarrow> peek_conv d = Some (s_conv s)"
  by (auto simp: seg_decode_def peek_conv_def Let_def split: if_splits)

text \<open>
  A peer that reconnects under a new conversation loses its new session when the driver of the old one
  exits: the exit notice carries only the peer's address, so it removes the new entry, and the next datagram of the
  same conversation starts a second driver for it with an empty engine.
\<close>

theorem mkcp_stale_exit_drops_session:
  assumes "seg_decode old = Some (s, r)" and "seg_decode new = Some (s', r')" and "s_conv s \<noteq> s_conv s'"
    and "c_header c = HNone"
    and "run_server_listener c [Packet peer old True True, Packet peer new True True, Cleanup peer, Packet peer new True True]
      listener_new = Some l"
  shows "sessions l = [(peer, s_conv s', 2)] \<and> l_forwarded l = []
    \<and> map (\<lambda>(i, d). (i, k_conv (dr_kcp d))) (l_drivers l) = [(0, s_conv s), (1, s_conv s'), (2, s_conv s')]"
  using assms peek_conv_decode [OF assms(2)]
  by (auto simp: listener_packet_def hdr_strip_def listener_new_def start_server_session_def listener_cleanup_def Let_def)

definition demo_packet :: "u32 \<Rightarrow> bytes" where
  "demo_packet conv = seg_encode ((seg_new conv CMD_PUSH)\<lparr>s_data := [1]\<rparr>)"

lemma demo_packet_decode: "seg_decode (demo_packet conv) = Some ((seg_new conv CMD_PUSH)\<lparr>s_data := [1]\<rparr>, [])"
  using seg_decode_encode [of "(seg_new conv CMD_PUSH)\<lparr>s_data := [1]\<rparr>" "[]"]
  by (simp add: demo_packet_def seg_wire_def seg_new_def)

theorem mkcp_stale_exit_drops_session_witness:
  "\<exists>l. run_server_listener demo_config
      [Packet 9 (demo_packet 1) True True, Packet 9 (demo_packet 2) True True, Cleanup 9, Packet 9 (demo_packet 2) True True]
      listener_new = Some l \<and> sessions l = [(9, 2, 2)]"
proof -
  obtain l where l: "run_server_listener demo_config
      [Packet 9 (demo_packet 1) True True, Packet 9 (demo_packet 2) True True, Cleanup 9, Packet 9 (demo_packet 2) True True]
      listener_new = Some l"
    using peek_conv_decode [OF demo_packet_decode]
    by (simp add: listener_packet_def hdr_strip_def listener_new_def start_server_session_def listener_cleanup_def
        demo_packet_decode demo_config_def seg_new_def Let_def)
  show ?thesis
    using mkcp_stale_exit_drops_session [OF demo_packet_decode demo_packet_decode _ _ l] l
    by (simp add: seg_new_def demo_config_def)
qed

end
