(* ===== verification/MkcpTimers.thy ===== *)
theory MkcpTimers
  imports Mkcp
begin

text \<open>
  Bounds of the engine under the driver: the retransmission and probe timers, and the end of the sequence space.
\<close>

section \<open>Timers\<close>

definition timers_ok :: "kcp \<Rightarrow> bool" where
  "timers_ok k \<longleftrightarrow> RTO_NDL \<le> rx_rto k \<and> rx_rto k \<le> RTO_MAX \<and> RTO_NDL \<le> rx_minrto k \<and> rx_minrto k \<le> RTO_MIN
     \<and> probe_wait k \<le> PROBE_LIMIT"

lemma timers_untouched [simp]:
  "timers_ok (parse_una una k) = timers_ok k" "timers_ok (shrink_buf k) = timers_ok k"
  "timers_ok (parse_ack sn k) = timers_ok k" "timers_ok (parse_fastack sn k) = timers_ok k"
  "timers_ok (grow_cwnd p k) = timers_ok k" "timers_ok (k\<lparr>rmt_wnd := w\<rparr>) = timers_ok k"
  "timers_ok (k\<lparr>k_probe := pr\<rparr>) = timers_ok k" "timers_ok (k\<lparr>acklist := a\<rparr>) = timers_ok k"
  "timers_ok (move_rcv_buf k) = timers_ok k" "timers_ok (parse_data seg k) = timers_ok k"
  "timers_ok (k\<lparr>rcv_queue := q\<rparr>) = timers_ok k" "timers_ok (snd (send msg k)) = timers_ok k"
  "timers_ok (update_clock t k) = timers_ok k" "timers_ok (adjust_cwnd c l w k) = timers_ok k"
  "timers_ok (fst (resend_all k)) = timers_ok k" "timers_ok (fill_window w k) = timers_ok k"
  by (simp_all add: timers_ok_def parse_una_def shrink_buf_def parse_ack_def parse_fastack_def grow_cwnd_def
      move_rcv_buf_def parse_data_def send_def update_clock_def adjust_cwnd_def resend_all_def fill_window_def Let_def
      split: prod.splits)

lemma timers_update_ack: "timers_ok k \<Longrightarrow> timers_ok (update_ack rtt k)"
  by (auto simp: timers_ok_def update_ack_def Let_def max_def min_def)

lemma timers_probe: "timers_ok k \<Longrightarrow> timers_ok (probe_window k)"
  by (auto simp: timers_ok_def probe_window_def Let_def)

lemma timers_input: "timers_ok k \<Longrightarrow> timers_ok (snd (input d k))"
  by (rule input_keeps) (auto simp: input_seg_def Let_def timers_update_ack)

lemma timers_flush: "timers_ok k \<Longrightarrow> timers_ok (snd (flush k))"
  by (simp add: flush_state Let_def timers_probe)

lemma if_cases: "x = (if c then a else b) \<Longrightarrow> x = a \<or> x = b"
  by (simp split: if_splits)

lemma recv_result:
  assumes "recv cap k = Inr (n, msg, k')"
  shows "k' = k \<or> (\<exists>q. k' = move_rcv_buf (k\<lparr>rcv_queue := q\<rparr>))
    \<or> (\<exists>q p. k' = (move_rcv_buf (k\<lparr>rcv_queue := q\<rparr>))\<lparr>k_probe := p\<rparr>)"
proof (cases "rcv_queue k = [] \<or> peeksize k < 0 \<or> i32 cap < peeksize k")
  case True
  then show ?thesis using assms by (simp add: recv_def split: if_splits)
next
  case False
  then obtain out q where l: "recv_loop cap (rcv_queue k) [] = Inr (out, q)"
    using assms by (cases "recv_loop cap (rcv_queue k) []") (auto simp: recv_def)
  define k1 where "k1 = move_rcv_buf (k\<lparr>rcv_queue := q\<rparr>)"
  have "k' = (if length (rcv_queue k) \<ge> unat (rcv_wnd k) \<and> length (rcv_queue k1) < unat (rcv_wnd k1)
         then k1\<lparr>k_probe := k_probe k1 OR 2\<rparr> else k1)"
    using assms False
    by (simp only: recv_def l Let_def bindE_simps prod.case if_False sum.inject prod.inject de_Morgan_disj k1_def)
  then have "k' = k1\<lparr>k_probe := k_probe k1 OR 2\<rparr> \<or> k' = k1" by (rule if_cases)
  then show ?thesis unfolding k1_def by blast
qed

lemma timers_recv: "recv cap k = Inr (n, msg, k') \<Longrightarrow> timers_ok k \<Longrightarrow> timers_ok k'"
  by (drule recv_result) (elim disjE exE, simp_all)

lemma timers_drain:
  "drain_kcp_recv_into limit k pending = Inr (k', pending') \<Longrightarrow> timers_ok k \<Longrightarrow> timers_ok k'"
proof (induction limit k pending rule: drain_kcp_recv_into.induct)
  case (1 limit k pending)
  show ?case
  proof (cases "limit \<le> length pending")
    case False
    then obtain n msg k1 where r: "recv recv_buf_len k = Inr (n, msg, k1)"
      using "1.prems"(1) by (cases "recv recv_buf_len k") (auto simp: drain_kcp_recv_into.simps [of limit k])
    then show ?thesis
      using "1.IH" [OF False r refl refl] "1.prems" timers_recv [OF r] False
      by (auto simp: drain_kcp_recv_into.simps [of limit k] split: if_splits)
  qed (use "1.prems" in \<open>simp add: drain_kcp_recv_into.simps [of limit k]\<close>)
qed

lemma timers_server:
  assumes "run_server_driver h cap e d = Inr (Some d')" and "timers_ok (dr_kcp d)"
  shows "timers_ok (dr_kcp d')"
proof (cases e)
  case (Tick now noise)
  then show ?thesis
    using assms timers_flush [of "update_clock now (dr_kcp d)"] timers_drain
    by (fastforce simp: drive_tick_def drain_def bindE_eq_Inr split: prod.splits if_splits)
next
  case (Udp packet)
  then show ?thesis
    using assms timers_input [of "dr_kcp d" packet] timers_drain by (auto simp: drive_input_def drain_def bindE_eq_Inr)
qed (use assms in \<open>auto simp: drive_reserve_def split: list.splits\<close>)



text \<open>
  The sequence space does not wrap: once the next expected number is within a window of \<open>2 ^ 32\<close> the
  upper limit \<^verbatim>\<open>rcv_nxt + rcv_wnd\<close> wraps below it, and the very segment the receiver waits for is neither stored
  nor acknowledged.
\<close>

theorem kcp_sequence_wrap_stalls:
  assumes "2 ^ 32 \<le> unat (rcv_nxt (i_kcp i)) + unat (rcv_wnd (i_kcp i))"
    and "s_cmd seg = CMD_PUSH" and "s_sn seg = rcv_nxt (i_kcp i)" and "s_conv seg = k_conv (i_kcp i)"
  shows "\<exists>i'. input_seg seg i = (None, i') \<and> rview (i_kcp i') = rview (i_kcp i) \<and> acklist (i_kcp i') = acklist (i_kcp i)"
proof -
  let ?k = "shrink_buf (parse_una (s_una seg) ((i_kcp i)\<lparr>rmt_wnd := s_wnd seg\<rparr>))"
  have k: "rcv_nxt ?k = rcv_nxt (i_kcp i)" "rcv_wnd ?k = rcv_wnd (i_kcp i)" "acklist ?k = acklist (i_kcp i)"
    by (simp_all add: shrink_buf_def parse_una_def)
  have less: "unat (rcv_nxt (i_kcp i)) + unat (rcv_wnd (i_kcp i)) - 2 ^ 32 < 2 ^ 32"
    using unat_u32_bound [of "rcv_nxt (i_kcp i)"] unat_u16_bound [of "rcv_wnd (i_kcp i)"] by (simp del: unat_u32_bound unat_u16_bound)
  have "unat (rcv_nxt (i_kcp i) + ucast (rcv_wnd (i_kcp i))) = (unat (rcv_nxt (i_kcp i)) + unat (rcv_wnd (i_kcp i))) mod 2 ^ 32"
    by (simp add: unat_word_ariths unsigned_ucast_eq take_bit_nat_eq_self [OF order_less_trans [OF unat_u16_bound]])
  also have "\<dots> = unat (rcv_nxt (i_kcp i)) + unat (rcv_wnd (i_kcp i)) - 2 ^ 32"
    using assms(1) less by (simp add: le_mod_geq)
  finally have "\<not> s_sn seg < rcv_nxt ?k + ucast (rcv_wnd ?k)"
    unfolding k assms(3) word_less_nat_alt using unat_u16_bound [of "rcv_wnd (i_kcp i)"]
    by (simp del: unat_u16_bound)
  then show ?thesis using assms(2,4) k(3) by (simp add: input_seg_def Let_def)
qed

definition last_kcp :: kcp where
  "last_kcp = (kcp_new 1)\<lparr>rcv_nxt := 0xFFFFFFFF\<rparr>"

theorem kcp_sequence_wrap_stalls_witness:
  "\<exists>i'. input_seg ((seg_new 1 CMD_PUSH)\<lparr>s_sn := 0xFFFFFFFF\<rparr>) \<lparr>i_kcp = last_kcp, i_maxack = 0, i_flag = False\<rparr> = (None, i')
     \<and> rview (i_kcp i') = rview last_kcp"
proof -
  have k: "unat (rcv_nxt last_kcp) = 4294967295" "unat (rcv_wnd last_kcp) = 128" "k_conv last_kcp = 1"
    "rcv_nxt last_kcp = 0xFFFFFFFF"
    by (simp_all add: last_kcp_def kcp_new_def)
  show ?thesis
    using kcp_sequence_wrap_stalls [of "\<lparr>i_kcp = last_kcp, i_maxack = 0, i_flag = False\<rparr>" "(seg_new 1 CMD_PUSH)\<lparr>s_sn := 0xFFFFFFFF\<rparr>"]
    by (auto simp: k seg_new_def)
qed

end
