(* ===== verification/TunPacket.thy ===== *)
theory TunPacket
  imports Address
begin

text \<open>
  Raw IP packets of the TUN device (\<^verbatim>\<open>crates/blackwire-transport/src/tun/packet.rs\<close>): the IPv4 and IPv6 parsers with
  every array access checked, the TCP, RST and UDP packet builders as the sequence of slice writes they perform, and
  the internet checksum over 32-bit words.
\<close>

section \<open>Parsed packets\<close>

datatype transport_protocol = Tp_tcp | Tp_udp | Tp_other u8

record ip_packet =
  p_src :: ip_addr
  p_dst :: ip_addr
  p_src_port :: u16
  p_dst_port :: u16
  p_protocol :: transport_protocol
  p_header_len :: nat
  p_payload_offset :: nat
  p_transport_offset :: nat
  p_payload_len :: nat
  p_tcp_seq :: "u32 option"
  p_tcp_ack :: "u32 option"
  p_tcp_flags :: "u8 option"

definition payload :: "ip_packet \<Rightarrow> bytes \<Rightarrow> bytes option" where
  "payload p packet = (if p_payload_offset p + p_payload_len p \<le> length packet
     then Some (take (p_payload_len p) (drop (p_payload_offset p) packet)) else None)"

text \<open>\<^verbatim>\<open>u16::from_be_bytes([buf[i], buf[i + 1]])\<close> and its wider forms: out of range is a panic.\<close>

definition be_at :: "nat \<Rightarrow> bytes \<Rightarrow> nat \<Rightarrow> ('a::len word) result" where
  "be_at n buf i = bindE (rslice buf i (i + n)) (\<lambda>bs. Inr (from_be bs))"

definition proto_of :: "u8 \<Rightarrow> transport_protocol" where
  "proto_of b = (if b = 6 then Tp_tcp else if b = 17 then Tp_udp else Tp_other b)"

text \<open>
  The transport header at \<open>off\<close>: its payload offset with the TCP fields, or \<open>None\<close> when it does not fit. The IPv4 and
  IPv6 parsers share this match up to the IPv6 parser's extra length tests, the last two arguments.
\<close>

definition parse_tcp :: "bytes \<Rightarrow> nat \<Rightarrow> nat \<Rightarrow> (nat \<times> u32 \<times> u32 \<times> u8) option result" where
  "parse_tcp buf off transport_len =
     bindE (be_at 4 buf (off + 4)) (\<lambda>seq. bindE (be_at 4 buf (off + 8)) (\<lambda>ack.
     bindE (idx buf (off + 13)) (\<lambda>flags. bindE (idx buf (off + 12)) (\<lambda>b.
       let data_offset = unat (drop_bit 4 b) * 4 in
       if data_offset < 20 \<or> transport_len < data_offset then Inr None
       else Inr (Some (off + data_offset, seq, ack, flags))))))"

definition parse_udp :: "bytes \<Rightarrow> nat \<Rightarrow> nat \<Rightarrow> nat option result" where
  "parse_udp buf off transport_len =
     bindE (be_at 2 buf (off + 4)) (\<lambda>len :: u16.
       if unat len < 8 \<or> unat len > transport_len then Inr None else Inr (Some (off + 8)))"

definition parse_transport :: "bytes \<Rightarrow> u8 \<Rightarrow> nat \<Rightarrow> nat \<Rightarrow> bool \<Rightarrow> bool
    \<Rightarrow> (nat \<times> u32 option \<times> u32 option \<times> u8 option) option result" where
  "parse_transport buf proto off transport_len tcp_short udp_short =
     (if proto = 6 then
        if transport_len < 20 \<or> tcp_short then Inr None
        else bindE (parse_tcp buf off transport_len) (\<lambda>r.
          Inr (map_option (\<lambda>(po, seq, ack, flags). (po, Some seq, Some ack, Some flags)) r))
      else if proto = 17 then
        if transport_len < 8 \<or> udp_short then Inr None
        else bindE (parse_udp buf off transport_len) (\<lambda>r. Inr (map_option (\<lambda>po. (po, None, None, None)) r))
      else Inr (Some (off + 4, None, None, None)))"

definition finish :: "bytes \<Rightarrow> ip_addr \<Rightarrow> ip_addr \<Rightarrow> u8 \<Rightarrow> nat \<Rightarrow> nat \<Rightarrow> nat
    \<Rightarrow> nat \<times> u32 option \<times> u32 option \<times> u8 option \<Rightarrow> ip_packet option result" where
  "finish buf src dst proto header_len off tot = (\<lambda>(payload_offset, seq, ack, flags).
     bindE (be_at 2 buf off) (\<lambda>src_port. bindE (be_at 2 buf (off + 2)) (\<lambda>dst_port.
       Inr (Some \<lparr>p_src = src, p_dst = dst, p_src_port = src_port, p_dst_port = dst_port,
         p_protocol = proto_of proto, p_header_len = header_len, p_payload_offset = payload_offset,
         p_transport_offset = off, p_payload_len = tot - payload_offset,
         p_tcp_seq = seq, p_tcp_ack = ack, p_tcp_flags = flags\<rparr>))))"

definition parse_ipv4 :: "bytes \<Rightarrow> ip_packet option result" where
  "parse_ipv4 buf =
     (if length buf < 20 then Inr None
      else bindE (idx buf 0) (\<lambda>b0.
        let ihl = unat (b0 AND 0x0F) * 4 in
        if ihl < 20 then Inr None
        else bindE (be_at 2 buf 2) (\<lambda>tot :: u16.
          let total_length = unat tot in
          if total_length < ihl \<or> length buf < total_length then Inr None
          else if length buf < ihl + 4 then Inr None
          else bindE (idx buf 9) (\<lambda>proto.
            bindE (parse_transport buf proto ihl (total_length - ihl) False False) (\<lambda>r.
              case r of
                None \<Rightarrow> Inr None
              | Some tr \<Rightarrow> bindE (be_at 4 buf 12) (\<lambda>src. bindE (be_at 4 buf 16) (\<lambda>dst.
                  finish buf (V4 src) (V4 dst) proto ihl ihl total_length tr)))))))"

text \<open>Walking the IPv6 extension headers.\<close>

datatype ext_walk = Transport u8 nat | Unknown u8 nat | Truncated

definition ext_header :: "u8 \<Rightarrow> bool" where
  "ext_header h \<longleftrightarrow> h \<in> {0, 43, 60, 135, 139, 140, 253, 254}"

function walk_ext :: "bytes \<Rightarrow> nat \<Rightarrow> u8 \<Rightarrow> nat \<Rightarrow> ext_walk result" where
  "walk_ext buf tot next_hdr offset =
     (if next_hdr \<in> {6, 17, 58} then Inr (Transport next_hdr offset)
      else if ext_header next_hdr then
        if offset + 2 > tot then Inr Truncated
        else (case idx buf offset of Inl e \<Rightarrow> Inl e | Inr h \<Rightarrow>
          (case idx buf (offset + 1) of Inl e \<Rightarrow> Inl e | Inr l \<Rightarrow>
            walk_ext buf tot h (offset + (unat l + 1) * 8)))
      else if next_hdr = 44 then
        if offset + 8 > tot then Inr Truncated
        else (case idx buf offset of Inl e \<Rightarrow> Inl e | Inr h \<Rightarrow> walk_ext buf tot h (offset + 8))
      else Inr (Unknown next_hdr offset))"
  by pat_completeness auto
termination
  by (relation "measure (\<lambda>(buf, tot, h, offset). tot + 1 - offset)") auto

declare walk_ext.simps [simp del]

definition parse_ipv6 :: "bytes \<Rightarrow> ip_packet option result" where
  "parse_ipv6 buf =
     (if length buf < 40 then Inr None
      else bindE (be_at 2 buf 4) (\<lambda>plen :: u16.
        let total_length = 40 + unat plen in
        if length buf < total_length then Inr None
        else bindE (be_at 16 buf 8) (\<lambda>src. bindE (be_at 16 buf 24) (\<lambda>dst.
          bindE (idx buf 6) (\<lambda>nh. bindE (walk_ext buf total_length nh 40) (\<lambda>w.
            case w of
              Truncated \<Rightarrow> Inr None
            | Unknown other offset \<Rightarrow>
                Inr (Some \<lparr>p_src = V6 src, p_dst = V6 dst, p_src_port = 0, p_dst_port = 0, p_protocol = Tp_other other,
                  p_header_len = 40, p_payload_offset = offset, p_transport_offset = offset,
                  p_payload_len = total_length - offset, p_tcp_seq = None, p_tcp_ack = None, p_tcp_flags = None\<rparr>)
            | Transport next_hdr offset \<Rightarrow>
                bindE (parse_transport buf next_hdr offset (total_length - offset) (offset + 13 > length buf)
                    (offset + 6 > length buf)) (\<lambda>r.
                  case r of
                    None \<Rightarrow> Inr None
                  | Some tr \<Rightarrow>
                      if offset + 4 > length buf then Inr None
                      else finish buf (V6 src) (V6 dst) next_hdr 40 offset total_length tr)))))))"

definition parse_ip_packet :: "bytes \<Rightarrow> ip_packet option result" where
  "parse_ip_packet buf =
     (if buf = [] then Inr None
      else bindE (idx buf 0) (\<lambda>b.
        if drop_bit 4 b = 4 then parse_ipv4 buf else if drop_bit 4 b = 6 then parse_ipv6 buf else Inr None))"

section \<open>Checksums\<close>

fun sum16 :: "bytes \<Rightarrow> u32 \<Rightarrow> u32" where
  "sum16 (a # b # rest) s = sum16 rest (s + ucast (from_be [a, b] :: u16))"
| "sum16 [a] s = s + push_bit 8 (ucast a)"
| "sum16 [] s = s"

lemma fold16_decreases:
  assumes "drop_bit 16 (s :: u32) \<noteq> 0"
  shows "unat ((s AND 0xffff) + drop_bit 16 s) = unat s mod 65536 + unat s div 65536 \<and> 65536 \<le> unat s"
proof -
  have d: "unat (drop_bit 16 s) = unat s div 65536" by (simp add: drop_bit_eq_div unat_div)
  have "s AND 0xffff = s mod 65536" using take_bit_eq_mask [of 16 s] by (simp add: mask_eq_exp_minus_1 take_bit_eq_mod)
  then have m: "unat (s AND 0xffff) = unat s mod 65536" by (simp add: unat_mod)
  have le: "unat s div 65536 \<le> 65535" using unat_u32_bound [of s] by (simp add: less_mult_imp_div_less less_Suc_eq_le del: unat_u32_bound)
  have "unat (drop_bit 16 s) \<noteq> 0" using assms by (simp only: unat_eq_zero not_False_eq_True)
  then have "65536 \<le> unat s" using d by (metis div_less not_less)
  moreover have "unat s mod 65536 + unat s div 65536 < 2 ^ 32"
  proof -
    have "unat s mod 65536 < 65536" by simp
    then show ?thesis using le by simp
  qed
  ultimately show ?thesis using d m by (simp add: unat_word_ariths)
qed

function fold16 :: "u32 \<Rightarrow> u32" where
  "fold16 s = (if drop_bit 16 s = 0 then s else fold16 ((s AND 0xffff) + drop_bit 16 s))"
  by pat_completeness auto
termination
proof (relation "measure unat", simp)
  fix s :: u32
  assume "drop_bit 16 s \<noteq> 0"
  note f = fold16_decreases [OF this]
  have "unat s = unat s div 65536 * 65536 + unat s mod 65536" by simp
  then show "((s AND 0xffff) + drop_bit 16 s, s) \<in> measure unat" using f by (simp, linarith)
qed

declare fold16.simps [simp del]

definition internet_checksum :: "bytes \<Rightarrow> u16" where
  "internet_checksum data = (let c = NOT (ucast (fold16 (sum16 data 0)) :: u16) in if c = 0 then 0xffff else c)"

text \<open>The bytes the two transport checksums cover.\<close>

definition pseudo_ipv4 :: "u8 \<Rightarrow> u32 \<Rightarrow> u32 \<Rightarrow> bytes \<Rightarrow> bytes" where
  "pseudo_ipv4 proto src dst seg = to_be 4 src @ to_be 4 dst @ [0, proto] @ to_be 2 (of_nat (length seg) :: u16) @ seg"

definition pseudo_ipv6 :: "u8 \<Rightarrow> 128 word \<Rightarrow> 128 word \<Rightarrow> bytes \<Rightarrow> bytes" where
  "pseudo_ipv6 proto src dst seg = to_be 16 src @ to_be 16 dst @ to_be 4 (of_nat (length seg) :: u32) @ [0, 0, 0, proto] @ seg"

definition tcp_checksum_ipv4 :: "u32 \<Rightarrow> u32 \<Rightarrow> bytes \<Rightarrow> u16" where
  "tcp_checksum_ipv4 src dst seg = internet_checksum (pseudo_ipv4 6 src dst seg)"

definition tcp_checksum_ipv6 :: "128 word \<Rightarrow> 128 word \<Rightarrow> bytes \<Rightarrow> u16" where
  "tcp_checksum_ipv6 src dst seg = internet_checksum (pseudo_ipv6 6 src dst seg)"

definition udp_checksum_ipv4 :: "u32 \<Rightarrow> u32 \<Rightarrow> bytes \<Rightarrow> u16" where
  "udp_checksum_ipv4 src dst seg = internet_checksum (pseudo_ipv4 17 src dst seg)"

definition udp_checksum_ipv6 :: "128 word \<Rightarrow> 128 word \<Rightarrow> bytes \<Rightarrow> u16" where
  "udp_checksum_ipv6 src dst seg = internet_checksum (pseudo_ipv6 17 src dst seg)"

section \<open>Builders\<close>

text \<open>\<^verbatim>\<open>out[i..i + xs.len()].copy_from_slice(xs)\<close>; every call is inside the buffer.\<close>

definition put :: "nat \<Rightarrow> bytes \<Rightarrow> bytes \<Rightarrow> bytes" where
  "put i xs out = take i out @ xs @ drop (i + length xs) out"

definition ipv4_header :: "u8 \<Rightarrow> u32 \<Rightarrow> u32 \<Rightarrow> nat \<Rightarrow> bytes \<Rightarrow> bytes" where
  "ipv4_header proto src dst total_len out0 =
     (let out1 = put 0 [0x45] out0;
          out2 = put 2 (to_be 2 (of_nat total_len :: u16)) out1;
          out3 = put 9 [proto] (put 8 [64] out2);
          out4 = put 16 (to_be 4 dst) (put 12 (to_be 4 src) out3)
      in put 10 (to_be 2 (internet_checksum (take 20 out4))) out4)"

definition ipv6_header :: "u8 \<Rightarrow> 128 word \<Rightarrow> 128 word \<Rightarrow> nat \<Rightarrow> bytes \<Rightarrow> bytes" where
  "ipv6_header proto src dst len out0 =
     (let out1 = put 0 [0x60] out0;
          out2 = put 4 (to_be 2 (of_nat len :: u16)) out1;
          out3 = put 7 [64] (put 6 [proto] out2)
      in put 24 (to_be 16 dst) (put 8 (to_be 16 src) out3))"

definition tcp_header :: "nat \<Rightarrow> u16 \<Rightarrow> u16 \<Rightarrow> u32 \<Rightarrow> u32 \<Rightarrow> u8 \<Rightarrow> bytes \<Rightarrow> bytes \<Rightarrow> bytes" where
  "tcp_header tcp src_port dst_port seq ack flags pl out0 =
     (let out1 = put (tcp + 2) (to_be 2 dst_port) (put tcp (to_be 2 src_port) out0);
          out2 = put (tcp + 8) (to_be 4 ack) (put (tcp + 4) (to_be 4 seq) out1);
          out3 = put (tcp + 13) [flags] (put (tcp + 12) [0x50] out2)
      in put (tcp + 20) pl (put (tcp + 14) (to_be 2 (65535 :: u16)) out3))"

definition build_ipv4_tcp_packet :: "u32 \<Rightarrow> u32 \<Rightarrow> u16 \<Rightarrow> u16 \<Rightarrow> u32 \<Rightarrow> u32 \<Rightarrow> u8 \<Rightarrow> bytes \<Rightarrow> bytes option" where
  "build_ipv4_tcp_packet src dst src_port dst_port seq ack flags pl =
     (let tcp_len = 20 + length pl; total_len = 20 + tcp_len in
      if total_len > 65535 \<or> tcp_len > 65535 then None
      else let out = tcp_header 20 src_port dst_port seq ack flags pl (ipv4_header 6 src dst total_len (replicate total_len 0))
           in Some (put 36 (to_be 2 (tcp_checksum_ipv4 src dst (drop 20 out))) out))"

definition build_ipv6_tcp_packet :: "128 word \<Rightarrow> 128 word \<Rightarrow> u16 \<Rightarrow> u16 \<Rightarrow> u32 \<Rightarrow> u32 \<Rightarrow> u8 \<Rightarrow> bytes \<Rightarrow> bytes option" where
  "build_ipv6_tcp_packet src dst src_port dst_port seq ack flags pl =
     (let tcp_len = 20 + length pl in
      if tcp_len > 65535 then None
      else let out = tcp_header 40 src_port dst_port seq ack flags pl (ipv6_header 6 src dst tcp_len (replicate (40 + tcp_len) 0))
           in Some (put 56 (to_be 2 (tcp_checksum_ipv6 src dst (drop 40 out))) out))"

fun build_tcp_packet :: "socket_addr \<Rightarrow> socket_addr \<Rightarrow> u32 \<Rightarrow> u32 \<Rightarrow> u8 \<Rightarrow> bytes \<Rightarrow> bytes option" where
  "build_tcp_packet (SocketAddr (V4 s) sp) (SocketAddr (V4 d) dp) seq ack flags pl = build_ipv4_tcp_packet s d sp dp seq ack flags pl"
| "build_tcp_packet (SocketAddr (V6 s) sp) (SocketAddr (V6 d) dp) seq ack flags pl = build_ipv6_tcp_packet s d sp dp seq ack flags pl"
| "build_tcp_packet _ _ seq ack flags pl = None"

definition build_ipv4_tcp_rst :: "u32 \<Rightarrow> u32 \<Rightarrow> u16 \<Rightarrow> u16 \<Rightarrow> bytes option" where
  "build_ipv4_tcp_rst src dst src_port dst_port =
     (let out1 = ipv4_header 6 src dst 40 (replicate 40 0);
          out2 = put 22 (to_be 2 dst_port) (put 20 (to_be 2 src_port) out1);
          out3 = put 33 [0x04] (put 32 [0x50] out2)
      in Some (put 36 (to_be 2 (tcp_checksum_ipv4 src dst (drop 20 out3))) out3))"

definition build_ipv6_tcp_rst :: "128 word \<Rightarrow> 128 word \<Rightarrow> u16 \<Rightarrow> u16 \<Rightarrow> bytes option" where
  "build_ipv6_tcp_rst src dst src_port dst_port =
     (let out1 = ipv6_header 6 src dst 20 (replicate 60 0);
          out2 = put 42 (to_be 2 dst_port) (put 40 (to_be 2 src_port) out1);
          out3 = put 53 [0x04] (put 52 [0x50] out2)
      in Some (put 56 (to_be 2 (tcp_checksum_ipv6 src dst (drop 40 out3))) out3))"

definition build_tcp_rst :: "ip_packet \<Rightarrow> bytes option" where
  "build_tcp_rst request =
     (if p_protocol request \<noteq> Tp_tcp then None
      else case (p_src request, p_dst request) of
        (V4 src, V4 dst) \<Rightarrow> build_ipv4_tcp_rst dst src (p_dst_port request) (p_src_port request)
      | (V6 src, V6 dst) \<Rightarrow> build_ipv6_tcp_rst dst src (p_dst_port request) (p_src_port request)
      | _ \<Rightarrow> None)"

definition udp_header :: "nat \<Rightarrow> u16 \<Rightarrow> u16 \<Rightarrow> nat \<Rightarrow> bytes \<Rightarrow> bytes \<Rightarrow> bytes" where
  "udp_header udp src_port dst_port udp_len pl out0 =
     (let out1 = put (udp + 2) (to_be 2 dst_port) (put udp (to_be 2 src_port) out0)
      in put (udp + 8) pl (put (udp + 4) (to_be 2 (of_nat udp_len :: u16)) out1))"

definition build_ipv4_udp_packet :: "u32 \<Rightarrow> u32 \<Rightarrow> u16 \<Rightarrow> u16 \<Rightarrow> bytes \<Rightarrow> bytes option" where
  "build_ipv4_udp_packet src dst src_port dst_port pl =
     (let udp_len = 8 + length pl; total_len = 20 + udp_len in
      if udp_len > 65535 \<or> total_len > 65535 then None
      else let out = udp_header 20 src_port dst_port udp_len pl (ipv4_header 17 src dst total_len (replicate total_len 0))
           in Some (put 26 (to_be 2 (udp_checksum_ipv4 src dst (drop 20 out))) out))"

definition build_ipv6_udp_packet :: "128 word \<Rightarrow> 128 word \<Rightarrow> u16 \<Rightarrow> u16 \<Rightarrow> bytes \<Rightarrow> bytes option" where
  "build_ipv6_udp_packet src dst src_port dst_port pl =
     (let udp_len = 8 + length pl; total_len = 40 + udp_len in
      if udp_len > 65535 then None
      else let out = udp_header 40 src_port dst_port udp_len pl (ipv6_header 17 src dst udp_len (replicate total_len 0))
           in Some (put 46 (to_be 2 (udp_checksum_ipv6 src dst (drop 40 out))) out))"

definition build_udp_response_packet :: "ip_packet \<Rightarrow> bytes \<Rightarrow> bytes option" where
  "build_udp_response_packet request pl =
     (if p_protocol request \<noteq> Tp_udp then None
      else case (p_src request, p_dst request) of
        (V4 src, V4 dst) \<Rightarrow> build_ipv4_udp_packet dst src (p_dst_port request) (p_src_port request) pl
      | (V6 src, V6 dst) \<Rightarrow> build_ipv6_udp_packet dst src (p_dst_port request) (p_src_port request) pl
      | _ \<Rightarrow> None)"

end
