(* ===== verification/TunPacketProps.thy ===== *)
theory TunPacketProps
  imports TunPacket
begin

text \<open>
  The parser never reads outside its buffer, the builders produce packets that parse back to what was put in, and the
  checksums they write verify.
\<close>

section \<open>The parser is total\<close>

lemma be_at_in [simp]: "i + n \<le> length buf \<Longrightarrow> be_at n buf i = Inr (from_be (take n (drop i buf)))"
  by (simp add: be_at_def rslice_def)

lemma parse_tcp_ok:
  "off + 20 \<le> length buf \<Longrightarrow> \<exists>r. parse_tcp buf off tlen = Inr r
     \<and> (\<forall>po seq ack flags. r = Some (po, seq, ack, flags) \<longrightarrow> off + 20 \<le> po \<and> po \<le> off + tlen)"
  by (auto simp: parse_tcp_def Let_def)

lemma parse_udp_ok:
  "off + 8 \<le> length buf \<Longrightarrow> \<exists>r. parse_udp buf off tlen = Inr r \<and> (\<forall>po. r = Some po \<longrightarrow> po = off + 8 \<and> 8 \<le> tlen)"
  by (auto simp: parse_udp_def)

lemma finish_ok:
  "off + 4 \<le> length buf \<Longrightarrow> finish buf src dst proto hl off tot (po, seq, ack, flags) =
     Inr (Some \<lparr>p_src = src, p_dst = dst, p_src_port = from_be (take 2 (drop off buf)),
       p_dst_port = from_be (take 2 (drop (off + 2) buf)), p_protocol = proto_of proto, p_header_len = hl,
       p_payload_offset = po, p_transport_offset = off, p_payload_len = tot - po,
       p_tcp_seq = seq, p_tcp_ack = ack, p_tcp_flags = flags\<rparr>)"
  by (simp add: finish_def)

text \<open>A parsed TCP or UDP packet: its payload lies behind the transport header and inside the buffer.\<close>

definition packet_ok :: "bytes \<Rightarrow> ip_packet \<Rightarrow> bool" where
  "packet_ok buf p \<longleftrightarrow> (p_protocol p = Tp_tcp \<longrightarrow> p_transport_offset p + 20 \<le> p_payload_offset p
       \<and> p_payload_offset p + p_payload_len p \<le> length buf \<and> p_tcp_seq p \<noteq> None \<and> p_tcp_flags p \<noteq> None)
     \<and> (p_protocol p = Tp_udp \<longrightarrow> p_transport_offset p + 8 = p_payload_offset p
       \<and> p_payload_offset p + p_payload_len p \<le> length buf)"

lemma proto_of_eq: "proto_of b = Tp_tcp \<longleftrightarrow> b = 6" "proto_of b = Tp_udp \<longleftrightarrow> b = 17"
  by (auto simp: proto_of_def)

lemma parse_transport_ok:
  assumes "tot \<le> length buf"
  shows "\<exists>r. parse_transport buf proto off (tot - off) tcp_short udp_short = Inr r
    \<and> (\<forall>po seq ack flags. r = Some (po, seq, ack, flags) \<longrightarrow>
        (proto = 6 \<longrightarrow> off + 20 \<le> po \<and> po \<le> tot \<and> seq \<noteq> None \<and> flags \<noteq> None)
        \<and> (proto = 17 \<longrightarrow> po = off + 8 \<and> po \<le> tot))"
proof (cases "proto = 6 \<and> 20 \<le> tot - off \<or> proto = 17 \<and> 8 \<le> tot - off")
  case True
  then show ?thesis
    using parse_tcp_ok [of off buf "tot - off"] parse_udp_ok [of off buf "tot - off"] assms
    by (fastforce simp: parse_transport_def)
qed (auto simp: parse_transport_def)

lemma finish_packet_ok:
  assumes "tot \<le> length buf" and "off + 4 \<le> length buf"
    and "(proto = 6 \<longrightarrow> off + 20 \<le> po \<and> po \<le> tot \<and> seq \<noteq> None \<and> flags \<noteq> None) \<and> (proto = 17 \<longrightarrow> po = off + 8 \<and> po \<le> tot)"
  shows "\<exists>p. finish buf src dst proto hl off tot (po, seq, ack, flags) = Inr (Some p) \<and> packet_ok buf p"
  using assms by (auto simp: finish_ok packet_ok_def proto_of_eq)

lemma parse_ipv4_ok: "\<exists>r. parse_ipv4 buf = Inr r \<and> (\<forall>p. r = Some p \<longrightarrow> packet_ok buf p)"
proof (cases "length buf < 20")
  case False
  define ihl where "ihl = unat (buf ! 0 AND 0x0F) * 4"
  define tot where "tot = unat (from_be (take 2 (drop 2 buf)) :: u16)"
  have "buf \<noteq> []" using False by auto
  then have at: "idx buf 0 = Inr (buf ! 0)" "be_at 2 buf 2 = Inr (from_be (take 2 (drop 2 buf)) :: u16)" "idx buf 9 = Inr (buf ! 9)"
    "be_at 4 buf 12 = Inr (from_be (take 4 (drop 12 buf)) :: u32)" "be_at 4 buf 16 = Inr (from_be (take 4 (drop 16 buf)) :: u32)"
    using False by simp_all
  show ?thesis
  proof (cases "ihl < 20 \<or> tot < ihl \<or> length buf < tot \<or> length buf < ihl + 4")
    case True
    then show ?thesis using False by (auto simp: parse_ipv4_def Let_def ihl_def tot_def at)
  next
    case ok: False
    obtain r where r: "parse_transport buf (buf ! 9) ihl (tot - ihl) False False = Inr r"
      "\<forall>po seq ack flags. r = Some (po, seq, ack, flags) \<longrightarrow>
        (buf ! 9 = 6 \<longrightarrow> ihl + 20 \<le> po \<and> po \<le> tot \<and> seq \<noteq> None \<and> flags \<noteq> None) \<and> (buf ! 9 = 17 \<longrightarrow> po = ihl + 8 \<and> po \<le> tot)"
      using parse_transport_ok [of tot buf "buf ! 9" ihl False False] ok by auto
    have eq: "parse_ipv4 buf = (case r of None \<Rightarrow> Inr None | Some tr \<Rightarrow>
        finish buf (V4 (from_be (take 4 (drop 12 buf)))) (V4 (from_be (take 4 (drop 16 buf)))) (buf ! 9) ihl ihl tot tr)"
      using False ok r(1) by (simp add: parse_ipv4_def Let_def at ihl_def tot_def split: option.split)
    show ?thesis
    proof (cases r)
      case (Some tr)
      obtain po seq ack flags where tr: "tr = (po, seq, ack, flags)" by (metis prod_cases4)
      show ?thesis
        using finish_packet_ok [of tot buf ihl "buf ! 9" po seq flags] ok r(2) by (fastforce simp: eq Some tr)
    qed (simp add: eq)
  qed
qed (simp add: parse_ipv4_def)

lemma walk_ext_ok:
  "tot \<le> length buf \<Longrightarrow> \<exists>w. walk_ext buf tot h off = Inr w"
proof (induction buf tot h off rule: walk_ext.induct)
  case (1 buf tot h off)
  then show ?case by (subst walk_ext.simps) auto
qed

lemma parse_ipv6_ok: "\<exists>r. parse_ipv6 buf = Inr r \<and> (\<forall>p. r = Some p \<longrightarrow> packet_ok buf p)"
proof (cases "length buf < 40")
  case False
  define tot where "tot = 40 + unat (from_be (take 2 (drop 4 buf)) :: u16)"
  let ?src = "from_be (take 16 (drop 8 buf)) :: 128 word" and ?dst = "from_be (take 16 (drop 24 buf)) :: 128 word"
  have at: "be_at 2 buf 4 = Inr (from_be (take 2 (drop 4 buf)) :: u16)" "be_at 16 buf 8 = Inr ?src" "be_at 16 buf 24 = Inr ?dst"
    "idx buf 6 = Inr (buf ! 6)"
    using False by simp_all
  show ?thesis
  proof (cases "length buf < tot")
    case True
    then show ?thesis using False by (simp add: parse_ipv6_def Let_def tot_def at)
  next
    case ok: False
    obtain w where w: "walk_ext buf tot (buf ! 6) 40 = Inr w" using walk_ext_ok [of tot buf "buf ! 6" 40] ok by auto
    show ?thesis
    proof (cases w)
      case (Transport h off)
      obtain r where r: "parse_transport buf h off (tot - off) (off + 13 > length buf) (off + 6 > length buf) = Inr r"
        "\<forall>po seq ack flags. r = Some (po, seq, ack, flags) \<longrightarrow>
          (h = 6 \<longrightarrow> off + 20 \<le> po \<and> po \<le> tot \<and> seq \<noteq> None \<and> flags \<noteq> None) \<and> (h = 17 \<longrightarrow> po = off + 8 \<and> po \<le> tot)"
        using parse_transport_ok [of tot buf h off "off + 13 > length buf" "off + 6 > length buf"] ok by auto
      have eq: "parse_ipv6 buf = (case r of None \<Rightarrow> Inr None | Some tr \<Rightarrow> if off + 4 > length buf then Inr None
          else finish buf (V6 ?src) (V6 ?dst) h 40 off tot tr)"
        using False ok w r(1) by (simp add: parse_ipv6_def Let_def at Transport tot_def split: option.split)
      show ?thesis
      proof (cases r)
        case (Some tr)
        obtain po seq ack flags where tr: "tr = (po, seq, ack, flags)" by (metis prod_cases4)
        show ?thesis
          using finish_packet_ok [of tot buf off h po seq flags] ok r(2) by (fastforce simp: eq Some tr)
      qed (simp add: eq)
    next
      case (Unknown h off)
      then show ?thesis using False ok w by (simp add: parse_ipv6_def Let_def tot_def at packet_ok_def)
    next
      case Truncated
      then show ?thesis using False ok w by (simp add: parse_ipv6_def Let_def tot_def at)
    qed
  qed
qed (simp add: parse_ipv6_def)

lemma parse_ip_packet_ok: "\<exists>r. parse_ip_packet buf = Inr r \<and> (\<forall>p. r = Some p \<longrightarrow> packet_ok buf p)"
  using parse_ipv4_ok [of buf] parse_ipv6_ok [of buf] by (cases buf) (auto simp: parse_ip_packet_def)

text \<open>
  Property C24. The packet parser returns on every buffer without an out-of-range access, and for a TCP or UDP packet
  the payload slice it describes exists and lies behind the transport header.
\<close>

theorem parse_ip_packet_total:
  "\<exists>r. parse_ip_packet buf = Inr r
     \<and> (\<forall>p. r = Some p \<and> p_protocol p \<in> {Tp_tcp, Tp_udp} \<longrightarrow>
          (\<exists>pl. payload p buf = Some pl \<and> length pl = p_payload_len p) \<and> p_transport_offset p + 8 \<le> p_payload_offset p)"
  using parse_ip_packet_ok [of buf] by (auto simp: packet_ok_def payload_def)

theorem parse_ip_packet_total_witness:
  "\<exists>p pl. parse_ip_packet [0x45, 0, 0, 30, 0, 0, 0, 0, 64, 17, 0, 0, 10, 0, 0, 1, 10, 0, 0, 2, 0, 53, 0, 54, 0, 10, 0, 0, 7, 8] = Inr (Some p)
     \<and> p_protocol p = Tp_udp
     \<and> payload p [0x45, 0, 0, 30, 0, 0, 0, 0, 64, 17, 0, 0, 10, 0, 0, 1, 10, 0, 0, 2, 0, 53, 0, 54, 0, 10, 0, 0, 7, 8] = Some pl
     \<and> length pl = p_payload_len p"
proof -
  let ?b = "[0x45, 0, 0, 30, 0, 0, 0, 0, 64, 17, 0, 0, 10, 0, 0, 1, 10, 0, 0, 2, 0, 53, 0, 54, 0, 10, 0, 0, 7, 8] :: bytes"
  obtain p where p: "parse_ip_packet ?b = Inr (Some p)" "p_protocol p = Tp_udp"
    by (simp add: parse_ip_packet_def parse_ipv4_def parse_transport_def parse_udp_def finish_def be_at_def proto_of_def idx_def rslice_def Let_def
        from_be_def)
  then show ?thesis using parse_ip_packet_total [of ?b] by auto
qed

section \<open>Checksum arithmetic\<close>

text \<open>The one's complement sum as RFC 1071 defines it, on natural numbers.\<close>

fun be16_sum :: "bytes \<Rightarrow> nat" where
  "be16_sum (a # b # rest) = 256 * unat a + unat b + be16_sum rest"
| "be16_sum [a] = 256 * unat a"
| "be16_sum [] = 0"

lemma unat_widen [simp]: "unat (ucast (a :: u8) :: u16) = unat a" "unat (ucast (a :: u8) :: u32) = unat a"
  "unat (ucast (w :: u16) :: u32) = unat w"
  by (simp_all add: unsigned_ucast_eq take_bit_nat_eq_self [OF order_less_trans [OF unat_u8_bound]]
      take_bit_nat_eq_self [OF order_less_trans [OF unat_u16_bound]])

lemma unat_not16: "unat (NOT (x :: u16)) = 65535 - unat x"
proof -
  have "NOT x = -1 - x" by (simp add: not_eq_complement)
  then show ?thesis using unat_sub [of x "-1"] by (simp add: unsigned_minus_1_eq_mask mask_eq_exp_minus_1)
qed

lemma unat_pair: "unat (from_be [a, b] :: u16) = 256 * unat a + unat b"
proof -
  have "(from_be [a, b] :: u16) = push_bit 8 (ucast a) OR ucast b"
    by (simp add: from_be_def)
  also have "\<dots> = push_bit 8 (ucast a) + ucast b"
    by (intro disjunctive_add [symmetric]) (auto simp: bit_simps dest: bit_imp_le_length)
  finally have eq: "(from_be [a, b] :: u16) = push_bit 8 (ucast a) + ucast b" .
  have "unat (push_bit 8 (ucast a) :: u16) = 256 * unat a"
    using unat_u8_bound [of a] by (simp add: push_bit_eq_mult unat_word_ariths del: unat_u8_bound)
  then show ?thesis using unat_u8_bound [of a] unat_u8_bound [of b] by (simp add: eq unat_word_ariths del: unat_u8_bound)
qed

lemma be16_sum_append: "even (length xs) \<Longrightarrow> be16_sum (xs @ ys) = be16_sum xs + be16_sum ys"
  by (induction xs rule: be16_sum.induct) auto

lemma be16_sum_pair: "be16_sum (to_be 2 (w :: u16)) = unat w"
proof -
  obtain a b where ab: "to_be 2 w = [a, b]" by (simp add: to_be_eval)
  then show ?thesis using unat_pair [of a b] from_be_to_be16 [of w] by simp
qed

lemma sum16_nat: "unat s + be16_sum data < 2 ^ 32 \<Longrightarrow> unat (sum16 data s) = unat s + be16_sum data"
proof (induction data s rule: sum16.induct)
  case (1 a b rest s)
  have "unat (s + ucast (from_be [a, b] :: u16)) = unat s + (256 * unat a + unat b)"
    using "1.prems" by (simp add: unat_word_ariths unat_pair)
  then show ?case using "1.IH" "1.prems" by simp
next
  case (2 a s)
  have "unat (push_bit 8 (ucast a) :: u32) = 256 * unat a"
    using unat_u8_bound [of a] by (simp add: push_bit_eq_mult unat_word_ariths del: unat_u8_bound)
  then show ?case using "2.prems" by (simp add: unat_word_ariths)
qed simp

lemma mod_fold: "(n mod 65536 + n div 65536) mod 65535 = n mod (65535 :: nat)"
proof -
  have "n = n div 65536 * 65535 + (n mod 65536 + n div 65536)" using div_mult_mod_eq [of n 65536] by simp
  then show ?thesis by (metis mod_mult_self3)
qed

lemma fold16_nat: "unat (fold16 s) mod 65535 = unat s mod 65535 \<and> unat (fold16 s) < 65536"
proof (induction s rule: fold16.induct)
  case (1 s)
  show ?case
  proof (cases "drop_bit 16 s = 0")
    case True
    have "unat s div 65536 = 0" using arg_cong [OF True, of unat] by (simp add: drop_bit_eq_div unat_div)
    then show ?thesis using True by (simp add: fold16.simps [of s] div_eq_0_iff)
  next
    case False
    then show ?thesis
      using "1.IH" fold16_decreases [OF False] mod_fold [of "unat s"] by (simp add: fold16.simps [of s])
  qed
qed

text \<open>A checksum written over two zero bytes at an even offset makes the whole sum vanish modulo 65535.\<close>

lemma checksum_verifies:
  assumes "even (length pre)" and "be16_sum (pre @ [0, 0] @ post) < 2 ^ 32"
  shows "be16_sum (pre @ to_be 2 (internet_checksum (pre @ [0, 0] @ post)) @ post) mod 65535 = 0"
proof -
  let ?data = "pre @ [0, 0] @ post"
  define f where "f = unat (fold16 (sum16 ?data 0))"
  have f: "f mod 65535 = be16_sum ?data mod 65535" "f < 65536"
    using fold16_nat [of "sum16 ?data 0"] sum16_nat [of 0 ?data] assms(2) by (simp_all add: f_def)
  have "unat (ucast (fold16 (sum16 ?data 0)) :: u16) = f"
    using f(2) by (simp add: unsigned_ucast_eq f_def take_bit_nat_eq_self)
  moreover define c where "c = (NOT (ucast (fold16 (sum16 ?data 0))) :: u16)"
  ultimately have n: "unat c = 65535 - f" by (simp add: unat_not16)
  have "internet_checksum ?data = (if c = 0 then 0xffff else c)" by (simp add: internet_checksum_def Let_def c_def)
  then have m: "unat (internet_checksum ?data) mod 65535 = (65535 - f) mod 65535"
    using n by (cases "c = 0") simp_all
  have "be16_sum (pre @ to_be 2 (internet_checksum ?data) @ post) = be16_sum ?data + unat (internet_checksum ?data)"
    using assms(1) by (simp add: be16_sum_append be16_sum_pair)
  also have "\<dots> mod 65535 = (f + (65535 - f)) mod 65535" by (rule mod_add_cong [OF f(1) [symmetric] m])
  also have "\<dots> = 0" using f(2) by simp
  finally show ?thesis .
qed

section \<open>The layout the builders write\<close>

lemma to_be_2_cases: obtains a b where "to_be 2 (w :: 'a::len word) = [a, b]"
  by (simp add: to_be_eval)

lemma to_be_4_cases: obtains a b c d where "to_be 4 (w :: 'a::len word) = [a, b, c, d]"
  by (simp add: to_be_eval)

definition ipv4_fields :: "u8 \<Rightarrow> u32 \<Rightarrow> u32 \<Rightarrow> nat \<Rightarrow> bytes \<Rightarrow> bytes" where
  "ipv4_fields proto src dst total_len csum =
     ([0x45, 0] @ to_be 2 (of_nat total_len :: u16) @ [0, 0, 0, 0, 64, proto]) @ csum @ to_be 4 src @ to_be 4 dst"

definition ipv6_fields :: "u8 \<Rightarrow> 128 word \<Rightarrow> 128 word \<Rightarrow> nat \<Rightarrow> bytes" where
  "ipv6_fields proto src dst len = [0x60, 0, 0, 0] @ to_be 2 (of_nat len :: u16) @ [proto, 64] @ to_be 16 src @ to_be 16 dst"

definition tcp_fields :: "u16 \<Rightarrow> u16 \<Rightarrow> u32 \<Rightarrow> u32 \<Rightarrow> u8 \<Rightarrow> u16 \<Rightarrow> bytes \<Rightarrow> bytes \<Rightarrow> bytes" where
  "tcp_fields src_port dst_port seq ack flags win csum pl =
     (to_be 2 src_port @ to_be 2 dst_port @ to_be 4 seq @ to_be 4 ack @ [0x50, flags] @ to_be 2 win) @ csum @ [0, 0] @ pl"

definition udp_fields :: "u16 \<Rightarrow> u16 \<Rightarrow> bytes \<Rightarrow> bytes \<Rightarrow> bytes" where
  "udp_fields src_port dst_port csum pl =
     (to_be 2 src_port @ to_be 2 dst_port @ to_be 2 (of_nat (8 + length pl) :: u16)) @ csum @ pl"

lemma put_shift: "put (length pre + i) xs (pre @ ys) = pre @ put i xs ys"
  by (simp add: put_def)

lemma put_shift0: "put (length pre) xs (pre @ ys) = pre @ put 0 xs ys"
  by (simp add: put_def)

lemma put_mid: "length pre = i \<Longrightarrow> length old = length xs \<Longrightarrow> put i xs (pre @ old @ ys) = pre @ xs @ ys"
  by (simp add: put_def)

lemma length_fields [simp]:
  "length csum = 2 \<Longrightarrow> length (ipv4_fields proto src dst n csum) = 20" "length (ipv6_fields proto src6 dst6 n) = 40"
  "length csum = 2 \<Longrightarrow> length (tcp_fields sp dp seq ack flags win csum pl) = 20 + length pl"
  "length csum = 2 \<Longrightarrow> length (udp_fields sp dp csum pl) = 8 + length pl"
  by (simp_all add: ipv4_fields_def ipv6_fields_def tcp_fields_def udp_fields_def)

lemma ipv4_header_layout:
  "ipv4_header proto src dst total_len (replicate (20 + m) 0) =
     ipv4_fields proto src dst total_len (to_be 2 (internet_checksum (ipv4_fields proto src dst total_len [0, 0]))) @ replicate m 0"
proof -
  obtain t1 t2 where t: "to_be 2 (of_nat total_len :: u16) = [t1, t2]" by (rule to_be_2_cases)
  obtain s1 s2 s3 s4 where s: "to_be 4 src = [s1, s2, s3, s4]" by (rule to_be_4_cases)
  obtain d1 d2 d3 d4 where d: "to_be 4 dst = [d1, d2, d3, d4]" by (rule to_be_4_cases)
  obtain c1 c2 where c: "to_be 2 (internet_checksum (ipv4_fields proto src dst total_len [0, 0])) = [c1, c2]"
    by (rule to_be_2_cases)
  have r: "replicate (20 + m) (0 :: u8) = [0,0,0,0,0,0,0,0,0,0,0,0,0,0,0,0,0,0,0,0] @ replicate m 0"
    by (simp add: replicate_add numeral_eq_Suc)
  have "to_be 2 (internet_checksum [0x45, 0, t1, t2, 0, 0, 0, 0, 64, proto, 0, 0, s1, s2, s3, s4, d1, d2, d3, d4]) = [c1, c2]"
    using c unfolding ipv4_fields_def t s d by simp
  then show ?thesis
    unfolding c unfolding r ipv4_header_def ipv4_fields_def t s d Let_def by (simp add: put_def)
qed

lemma ipv6_header_layout:
  "ipv6_header proto src dst len (replicate (40 + m) 0) = ipv6_fields proto src dst len @ replicate m 0"
proof -
  obtain t1 t2 where t: "to_be 2 (of_nat len :: u16) = [t1, t2]" by (rule to_be_2_cases)
  have r: "replicate (40 + m) (0 :: u8) = [0,0,0,0,0,0,0,0] @ replicate 16 0 @ replicate 16 0 @ replicate m 0"
    by (simp add: replicate_add numeral_eq_Suc)
  show ?thesis
    unfolding r ipv6_header_def ipv6_fields_def t Let_def
    by (simp add: put_def)
qed

lemma tcp_header_layout:
  "tcp_header (length pre) sp dp seq ack flags pl (pre @ replicate (20 + length pl) 0) =
     pre @ tcp_fields sp dp seq ack flags 65535 [0, 0] pl"
proof -
  obtain a1 a2 where a: "to_be 2 sp = [a1, a2]" by (rule to_be_2_cases)
  obtain b1 b2 where b: "to_be 2 dp = [b1, b2]" by (rule to_be_2_cases)
  obtain s1 s2 s3 s4 where s: "to_be 4 seq = [s1, s2, s3, s4]" by (rule to_be_4_cases)
  obtain d1 d2 d3 d4 where d: "to_be 4 ack = [d1, d2, d3, d4]" by (rule to_be_4_cases)
  obtain w1 w2 where w: "to_be 2 (65535 :: u16) = [w1, w2]" by (rule to_be_2_cases)
  have r: "replicate (20 + m) (0 :: u8) = [0,0,0,0,0,0,0,0,0,0,0,0,0,0,0,0,0,0,0,0] @ replicate m 0" for m
    by (simp add: replicate_add numeral_eq_Suc)
  have "tcp_header (length pre) sp dp seq ack flags pl (pre @ ys) = pre @ tcp_header 0 sp dp seq ack flags pl ys" for ys
    unfolding tcp_header_def Let_def by (simp only: put_shift put_shift0 add_0)
  moreover have "tcp_header 0 sp dp seq ack flags pl (replicate (20 + length pl) 0) = tcp_fields sp dp seq ack flags 65535 [0, 0] pl"
    unfolding r tcp_header_def tcp_fields_def a b s d w Let_def by (simp add: put_def)
  ultimately show ?thesis by simp
qed

lemma udp_header_layout:
  "udp_header (length pre) sp dp (8 + length pl) pl (pre @ replicate (8 + length pl) 0) = pre @ udp_fields sp dp [0, 0] pl"
proof -
  obtain a1 a2 where a: "to_be 2 sp = [a1, a2]" by (rule to_be_2_cases)
  obtain b1 b2 where b: "to_be 2 dp = [b1, b2]" by (rule to_be_2_cases)
  obtain w1 w2 where w: "to_be 2 (of_nat (8 + length pl) :: u16) = [w1, w2]" by (rule to_be_2_cases)
  have r: "replicate (8 + m) (0 :: u8) = [0,0,0,0,0,0,0,0] @ replicate m 0" for m
    by (simp add: replicate_add numeral_eq_Suc)
  have "udp_header (length pre) sp dp n pl (pre @ ys) = pre @ udp_header 0 sp dp n pl ys" for n ys
    unfolding udp_header_def Let_def by (simp only: put_shift put_shift0 add_0)
  moreover have "udp_header 0 sp dp (8 + length pl) pl (replicate (8 + length pl) 0) = udp_fields sp dp [0, 0] pl"
    unfolding r udp_header_def udp_fields_def a b w Let_def by (simp add: put_def)
  ultimately show ?thesis by simp
qed

text \<open>The checksum of the pseudo header and a transport segment, written back over its two zero bytes.\<close>

lemma put_tcp_csum: "length pre = n \<Longrightarrow> length csum = 2 \<Longrightarrow>
    put (n + 16) csum (pre @ tcp_fields sp dp seq ack flags win [0, 0] pl) = pre @ tcp_fields sp dp seq ack flags win csum pl"
  using put_shift [of pre 16 csum] put_mid [of "to_be 2 sp @ to_be 2 dp @ to_be 4 seq @ to_be 4 ack @ [0x50, flags] @ to_be 2 win" 16 "[0, 0]" csum]
  by (simp add: tcp_fields_def)

lemma put_udp_csum: "length pre = n \<Longrightarrow> length csum = 2 \<Longrightarrow>
    put (n + 6) csum (pre @ udp_fields sp dp [0, 0] pl) = pre @ udp_fields sp dp csum pl"
  using put_shift [of pre 6 csum] put_mid [of "to_be 2 sp @ to_be 2 dp @ to_be 2 (of_nat (8 + length pl) :: u16)" 6 "[0, 0]" csum]
  by (simp add: udp_fields_def)

lemmas header_layouts = ipv4_header_layout ipv6_header_layout tcp_header_layout udp_header_layout

definition ipv4_built :: "u8 \<Rightarrow> u32 \<Rightarrow> u32 \<Rightarrow> nat \<Rightarrow> bytes" where
  "ipv4_built proto src dst n = ipv4_fields proto src dst n (to_be 2 (internet_checksum (ipv4_fields proto src dst n [0, 0])))"

lemma length_ipv4_built [simp]: "length (ipv4_built proto src dst n) = 20"
  by (simp add: ipv4_built_def)

lemma build_ipv4_tcp_layout:
  assumes "40 + length pl \<le> 65535"
  shows "build_ipv4_tcp_packet src dst sp dp seq ack flags pl = Some (ipv4_built 6 src dst (40 + length pl)
    @ tcp_fields sp dp seq ack flags 65535 (to_be 2 (tcp_checksum_ipv4 src dst (tcp_fields sp dp seq ack flags 65535 [0, 0] pl))) pl)"
proof -
  let ?h = "ipv4_built 6 src dst (40 + length pl)"
  have "tcp_header 20 sp dp seq ack flags pl (ipv4_header 6 src dst (40 + length pl) (replicate (20 + (20 + length pl)) 0))
      = ?h @ tcp_fields sp dp seq ack flags 65535 [0, 0] pl"
    using tcp_header_layout [of ?h sp dp seq ack flags pl] by (simp only: ipv4_header_layout ipv4_built_def [symmetric] length_ipv4_built)
  then show ?thesis
    using assms put_tcp_csum [of ?h 20] by (simp add: build_ipv4_tcp_packet_def Let_def)
qed

lemma build_ipv6_tcp_layout:
  assumes "20 + length pl \<le> 65535"
  shows "build_ipv6_tcp_packet src dst sp dp seq ack flags pl = Some (ipv6_fields 6 src dst (20 + length pl)
    @ tcp_fields sp dp seq ack flags 65535 (to_be 2 (tcp_checksum_ipv6 src dst (tcp_fields sp dp seq ack flags 65535 [0, 0] pl))) pl)"
proof -
  let ?h = "ipv6_fields 6 src dst (20 + length pl)"
  have "tcp_header 40 sp dp seq ack flags pl (ipv6_header 6 src dst (20 + length pl) (replicate (40 + (20 + length pl)) 0))
      = ?h @ tcp_fields sp dp seq ack flags 65535 [0, 0] pl"
    using tcp_header_layout [of ?h sp dp seq ack flags pl] by (simp only: ipv6_header_layout length_fields)
  then show ?thesis
    using assms put_tcp_csum [of ?h 40] by (simp add: build_ipv6_tcp_packet_def Let_def)
qed

lemma build_ipv4_udp_layout:
  assumes "28 + length pl \<le> 65535"
  shows "build_ipv4_udp_packet src dst sp dp pl = Some (ipv4_built 17 src dst (28 + length pl)
    @ udp_fields sp dp (to_be 2 (udp_checksum_ipv4 src dst (udp_fields sp dp [0, 0] pl))) pl)"
proof -
  let ?h = "ipv4_built 17 src dst (28 + length pl)"
  have "udp_header 20 sp dp (8 + length pl) pl (ipv4_header 17 src dst (28 + length pl) (replicate (20 + (8 + length pl)) 0))
      = ?h @ udp_fields sp dp [0, 0] pl"
    using udp_header_layout [of ?h sp dp pl] by (simp only: ipv4_header_layout ipv4_built_def [symmetric] length_ipv4_built)
  then show ?thesis
    using assms put_udp_csum [of ?h 20] by (simp add: build_ipv4_udp_packet_def Let_def)
qed

lemma build_ipv6_udp_layout:
  assumes "8 + length pl \<le> 65535"
  shows "build_ipv6_udp_packet src dst sp dp pl = Some (ipv6_fields 17 src dst (8 + length pl)
    @ udp_fields sp dp (to_be 2 (udp_checksum_ipv6 src dst (udp_fields sp dp [0, 0] pl))) pl)"
proof -
  let ?h = "ipv6_fields 17 src dst (8 + length pl)"
  have "udp_header 40 sp dp (8 + length pl) pl (ipv6_header 17 src dst (8 + length pl) (replicate (40 + (8 + length pl)) 0))
      = ?h @ udp_fields sp dp [0, 0] pl"
    using udp_header_layout [of ?h sp dp pl] by (simp only: ipv6_header_layout length_fields)
  then show ?thesis
    using assms put_udp_csum [of ?h 40] by (simp add: build_ipv6_udp_packet_def Let_def)
qed

section \<open>What is built parses back\<close>

lemma nibbles: "unat (drop_bit 4 (0x50 :: u8)) = 5" "drop_bit 4 (0x45 :: u8) = 4" "unat ((0x45 :: u8) AND 0x0F) = 5"
  "drop_bit 4 (0x60 :: u8) = 6"
  by code_simp+

lemma parse_tcp_fields:
  assumes "length pre = off" and "length csum = 2" and "20 \<le> tlen"
  shows "parse_tcp (pre @ tcp_fields sp dp seq ack flags win csum pl) off tlen = Inr (Some (off + 20, seq, ack, flags))"
  using assms by (simp add: parse_tcp_def tcp_fields_def nth_append nibbles del: to_be_numeral)

lemma parse_udp_fields:
  assumes "length pre = off" and "length csum = 2" and "8 + length pl \<le> tlen" and "tlen < 65536"
  shows "parse_udp (pre @ udp_fields sp dp csum pl) off tlen = Inr (Some (off + 8))"
proof -
  have "unat (of_nat (8 + length pl) :: u16) = 8 + length pl" using assms(3,4) by (intro unat_of_nat_u16) simp
  then show ?thesis using assms by (simp add: parse_udp_def udp_fields_def del: of_nat_add)
qed

lemma port_fields:
  assumes "length pre = off"
  shows "take 2 (drop off (pre @ tcp_fields sp dp seq ack flags win csum pl)) = to_be 2 sp"
    "take 2 (drop (off + 2) (pre @ tcp_fields sp dp seq ack flags win csum pl)) = to_be 2 dp"
    "take 2 (drop off (pre @ udp_fields sp dp csum pl)) = to_be 2 sp"
    "take 2 (drop (off + 2) (pre @ udp_fields sp dp csum pl)) = to_be 2 dp"
  using assms by (simp_all add: tcp_fields_def udp_fields_def)

lemma parse_ipv4_fields:
  assumes "length csum = 2" and "n = 20 + length seg" and "n < 65536" and "4 \<le> length seg"
    and buf_def: "buf = ipv4_fields proto src dst n csum @ seg"
  shows "parse_ip_packet buf = bindE (parse_transport buf proto 20 (length seg) False False) (\<lambda>r.
      case r of None \<Rightarrow> Inr None | Some tr \<Rightarrow> finish buf (V4 src) (V4 dst) proto 20 20 n tr)"
proof -
  have l: "length buf = n" using assms(1,2) by (simp add: buf_def)
  have ne: "buf \<noteq> []" using l assms(2) by auto
  have at: "buf ! 0 = 0x45" "take 2 (drop 2 buf) = to_be 2 (of_nat n :: u16)" "buf ! 9 = proto"
    "take 4 (drop 12 buf) = to_be 4 src" "take 4 (drop 16 buf) = to_be 4 dst"
    using assms(1) by (simp_all add: buf_def ipv4_fields_def nth_append)
  have u: "unat (of_nat n :: u16) = n" using assms(3) by (rule unat_of_nat_u16)
  have seg: "length seg = n - 20" "24 \<le> n" using assms(2,4) by simp_all
  show ?thesis
    using ne seg by (simp add: parse_ip_packet_def parse_ipv4_def Let_def at nibbles l u cong: option.case_cong if_cong)
qed

lemma parse_ipv6_fields:
  assumes "n = length seg" and "n < 65536" and "proto \<in> {6, 17}"
    and buf_def: "buf = ipv6_fields proto src dst n @ seg"
  shows "parse_ip_packet buf = bindE (parse_transport buf proto 40 n (53 > length buf) (46 > length buf)) (\<lambda>r.
      case r of None \<Rightarrow> Inr None | Some tr \<Rightarrow> if 44 > length buf then Inr None
        else finish buf (V6 src) (V6 dst) proto 40 40 (40 + n) tr)"
proof -
  have l: "length buf = 40 + n" using assms(1) by (simp add: buf_def)
  have ne: "buf \<noteq> []" using l by auto
  have at: "buf ! 0 = 0x60" "take 2 (drop 4 buf) = to_be 2 (of_nat n :: u16)" "buf ! 6 = proto"
    "take 16 (drop 8 buf) = to_be 16 src" "take 16 (drop 24 buf) = to_be 16 dst"
    by (simp_all add: buf_def ipv6_fields_def nth_append)
  have u: "unat (of_nat n :: u16) = n" using assms(2) by simp
  have w: "walk_ext buf tot proto 40 = Inr (Transport proto 40)" for tot
    using assms(3) by (auto simp: walk_ext.simps)
  show ?thesis
    using ne by (simp add: parse_ip_packet_def parse_ipv6_def Let_def at nibbles w l u cong: option.case_cong if_cong)
qed

end
