(* ===== verification/TunBuild.thy ===== *)
theory TunBuild
  imports TunPacketProps
begin

text \<open>
  The packets the TUN runtime synthesises: the parser reads back what the builders were given, and their checksums
  verify.
\<close>

section \<open>Round trips\<close>

lemma parse_transport_tcp:
  assumes "length h = off" and "length csum = 2" and "tlen = 20 + length pl"
  shows "parse_transport (h @ tcp_fields sp dp seq ack flags win csum pl) 6 off tlen False s
    = Inr (Some (off + 20, Some seq, Some ack, Some flags))"
  using parse_tcp_fields [OF assms(1,2), of tlen] assms(3) by (simp add: parse_transport_def)

lemma parse_transport_udp:
  assumes "length h = off" and "length csum = 2" and "tlen = 8 + length pl" and "tlen < 65536"
  shows "parse_transport (h @ udp_fields sp dp csum pl) 17 off tlen s False = Inr (Some (off + 8, None, None, None))"
  using parse_udp_fields [OF assms(1,2) _ assms(4)] assms(3) by (simp add: parse_transport_def)

text \<open>What a parsed packet says of its flow.\<close>

definition flow_is :: "ip_packet \<Rightarrow> transport_protocol \<Rightarrow> socket_addr \<Rightarrow> socket_addr \<Rightarrow> bool" where
  "flow_is p proto src dst \<longleftrightarrow> p_protocol p = proto \<and> SocketAddr (p_src p) (p_src_port p) = src
     \<and> SocketAddr (p_dst p) (p_dst_port p) = dst"

lemma finish_tcp:
  assumes "length h = off" and "length csum = 2" and "tot = off + 20 + length pl"
  shows "\<exists>p. finish (h @ tcp_fields sp dp seq ack flags win csum pl) src dst 6 hl off tot (off + 20, Some seq, Some ack, Some flags)
      = Inr (Some p) \<and> flow_is p Tp_tcp (SocketAddr src sp) (SocketAddr dst dp)
    \<and> (p_tcp_seq p, p_tcp_ack p, p_tcp_flags p) = (Some seq, Some ack, Some flags)
    \<and> payload p (h @ tcp_fields sp dp seq ack flags win csum pl) = Some pl"
proof -
  let ?buf = "h @ tcp_fields sp dp seq ack flags win csum pl"
  have l: "length ?buf = tot" using assms by simp
  have d: "drop (off + 20) ?buf = pl" using assms(1,2) by (simp add: tcp_fields_def)
  show ?thesis
    using port_fields(1,2) [OF assms(1), of sp dp seq ack flags win csum pl] l d assms(3)
    by (simp add: finish_ok proto_of_def payload_def flow_is_def del: length_append drop_append)
qed

lemma finish_udp:
  assumes "length h = off" and "length csum = 2" and "tot = off + 8 + length pl"
  shows "\<exists>p. finish (h @ udp_fields sp dp csum pl) src dst 17 hl off tot (off + 8, None, None, None)
      = Inr (Some p) \<and> flow_is p Tp_udp (SocketAddr src sp) (SocketAddr dst dp)
    \<and> payload p (h @ udp_fields sp dp csum pl) = Some pl"
proof -
  let ?buf = "h @ udp_fields sp dp csum pl"
  have l: "length ?buf = tot" using assms by simp
  have d: "drop (off + 8) ?buf = pl" using assms(1,2) by (simp add: udp_fields_def)
  show ?thesis
    using port_fields(3,4) [OF assms(1), of sp dp csum pl] l d assms(3)
    by (simp add: finish_ok proto_of_def payload_def flow_is_def del: length_append drop_append)
qed

lemma parse_ipv4_segment:
  assumes "n = 20 + length seg" and "n < 65536" and "4 \<le> length seg"
    and "parse_transport (ipv4_built proto src dst n @ seg) proto 20 (length seg) False False = Inr (Some tr)"
  shows "parse_ip_packet (ipv4_built proto src dst n @ seg) = finish (ipv4_built proto src dst n @ seg) (V4 src) (V4 dst) proto 20 20 n tr"
  using parse_ipv4_fields [OF _ assms(1-3) refl, of "to_be 2 (internet_checksum (ipv4_fields proto src dst n [0, 0]))" proto src dst]
    assms(4) by (simp add: ipv4_built_def)

lemma parse_ipv6_segment:
  assumes "n = length seg" and "n < 65536" and "proto \<in> {6, 17}" and "20 \<le> n \<or> proto = 17 \<and> 8 \<le> n"
    and "\<And>s. proto = 6 \<Longrightarrow> parse_transport (ipv6_fields proto src dst n @ seg) proto 40 n False s = Inr (Some tr)"
    and "\<And>s. proto = 17 \<Longrightarrow> parse_transport (ipv6_fields proto src dst n @ seg) proto 40 n s False = Inr (Some tr)"
  shows "parse_ip_packet (ipv6_fields proto src dst n @ seg)
    = finish (ipv6_fields proto src dst n @ seg) (V6 src) (V6 dst) proto 40 40 (40 + n) tr"
proof -
  have l: "length (ipv6_fields proto src dst n @ seg) = 40 + n" using assms(1) by simp
  show ?thesis
    using parse_ipv6_fields [OF assms(1-3) refl, of src dst] assms(3-6) unfolding l by auto
qed

lemma parse_built_ipv4_tcp:
  assumes "build_ipv4_tcp_packet src dst sp dp seq ack flags pl = Some pkt"
  shows "\<exists>p. parse_ip_packet pkt = Inr (Some p) \<and> flow_is p Tp_tcp (SocketAddr (V4 src) sp) (SocketAddr (V4 dst) dp)
    \<and> (p_tcp_seq p, p_tcp_ack p, p_tcp_flags p) = (Some seq, Some ack, Some flags) \<and> payload p pkt = Some pl"
proof -
  have n: "40 + length pl \<le> 65535" using assms by (auto simp: build_ipv4_tcp_packet_def Let_def split: if_splits)
  define csum where "csum = to_be 2 (tcp_checksum_ipv4 src dst (tcp_fields sp dp seq ack flags 65535 [0, 0] pl))"
  let ?h = "ipv4_built 6 src dst (40 + length pl)" and ?seg = "tcp_fields sp dp seq ack flags 65535 csum pl"
  have c: "length csum = 2" by (simp add: csum_def)
  have pkt: "pkt = ?h @ ?seg" using assms build_ipv4_tcp_layout [OF n] by (simp add: csum_def)
  have e: "parse_ip_packet pkt = finish pkt (V4 src) (V4 dst) 6 20 20 (40 + length pl) (20 + 20, Some seq, Some ack, Some flags)"
    unfolding pkt using n c parse_transport_tcp [of ?h 20 csum "20 + length pl" pl sp dp seq ack flags 65535 False]
    by (intro parse_ipv4_segment) simp_all
  show ?thesis unfolding e unfolding pkt by (rule finish_tcp [OF length_ipv4_built c]) simp
qed

lemma parse_built_ipv6_tcp:
  assumes "build_ipv6_tcp_packet src dst sp dp seq ack flags pl = Some pkt"
  shows "\<exists>p. parse_ip_packet pkt = Inr (Some p) \<and> flow_is p Tp_tcp (SocketAddr (V6 src) sp) (SocketAddr (V6 dst) dp)
    \<and> (p_tcp_seq p, p_tcp_ack p, p_tcp_flags p) = (Some seq, Some ack, Some flags) \<and> payload p pkt = Some pl"
proof -
  have n: "20 + length pl \<le> 65535" using assms by (auto simp: build_ipv6_tcp_packet_def Let_def split: if_splits)
  define csum where "csum = to_be 2 (tcp_checksum_ipv6 src dst (tcp_fields sp dp seq ack flags 65535 [0, 0] pl))"
  let ?h = "ipv6_fields 6 src dst (20 + length pl)" and ?seg = "tcp_fields sp dp seq ack flags 65535 csum pl"
  have c: "length csum = 2" by (simp add: csum_def)
  have pkt: "pkt = ?h @ ?seg" using assms build_ipv6_tcp_layout [OF n] by (simp add: csum_def)
  have "parse_ip_packet pkt = finish pkt (V6 src) (V6 dst) 6 40 40 (40 + (20 + length pl)) (60, Some seq, Some ack, Some flags)"
    unfolding pkt using n c parse_transport_tcp [of ?h 40 csum "20 + length pl" pl sp dp seq ack flags 65535]
    by (intro parse_ipv6_segment) simp_all
  then show ?thesis using finish_tcp [of ?h 40 csum "60 + length pl" pl] c unfolding pkt by simp
qed

lemma parse_built_ipv4_udp:
  assumes "build_ipv4_udp_packet src dst sp dp pl = Some pkt"
  shows "\<exists>p. parse_ip_packet pkt = Inr (Some p) \<and> flow_is p Tp_udp (SocketAddr (V4 src) sp) (SocketAddr (V4 dst) dp)
    \<and> payload p pkt = Some pl"
proof -
  have n: "28 + length pl \<le> 65535" using assms by (auto simp: build_ipv4_udp_packet_def Let_def split: if_splits)
  define csum where "csum = to_be 2 (udp_checksum_ipv4 src dst (udp_fields sp dp [0, 0] pl))"
  let ?h = "ipv4_built 17 src dst (28 + length pl)" and ?seg = "udp_fields sp dp csum pl"
  have c: "length csum = 2" by (simp add: csum_def)
  have pkt: "pkt = ?h @ ?seg" using assms build_ipv4_udp_layout [OF n] by (simp add: csum_def)
  have e: "parse_ip_packet pkt = finish pkt (V4 src) (V4 dst) 17 20 20 (28 + length pl) (20 + 8, None, None, None)"
    unfolding pkt using n c parse_transport_udp [of ?h 20 csum "8 + length pl" pl sp dp False]
    by (intro parse_ipv4_segment) simp_all
  show ?thesis unfolding e unfolding pkt by (rule finish_udp [OF length_ipv4_built c]) simp
qed

lemma parse_built_ipv6_udp:
  assumes "build_ipv6_udp_packet src dst sp dp pl = Some pkt"
  shows "\<exists>p. parse_ip_packet pkt = Inr (Some p) \<and> flow_is p Tp_udp (SocketAddr (V6 src) sp) (SocketAddr (V6 dst) dp)
    \<and> payload p pkt = Some pl"
proof -
  have n: "8 + length pl \<le> 65535" using assms by (auto simp: build_ipv6_udp_packet_def Let_def split: if_splits)
  define csum where "csum = to_be 2 (udp_checksum_ipv6 src dst (udp_fields sp dp [0, 0] pl))"
  let ?h = "ipv6_fields 17 src dst (8 + length pl)" and ?seg = "udp_fields sp dp csum pl"
  have c: "length csum = 2" by (simp add: csum_def)
  have pkt: "pkt = ?h @ ?seg" using assms build_ipv6_udp_layout [OF n] by (simp add: csum_def)
  have "parse_ip_packet pkt = finish pkt (V6 src) (V6 dst) 17 40 40 (40 + (8 + length pl)) (48, None, None, None)"
    unfolding pkt using n c parse_transport_udp [of ?h 40 csum "8 + length pl" pl sp dp]
    by (intro parse_ipv6_segment) simp_all
  then show ?thesis using finish_udp [of ?h 40 csum "48 + length pl" pl] c unfolding pkt by simp
qed

lemma parse_built_tcp:
  assumes "build_tcp_packet src dst seq ack flags pl = Some pkt"
  shows "\<exists>p. parse_ip_packet pkt = Inr (Some p) \<and> flow_is p Tp_tcp src dst
      \<and> (p_tcp_seq p, p_tcp_ack p, p_tcp_flags p) = (Some seq, Some ack, Some flags) \<and> payload p pkt = Some pl"
  using assms parse_built_ipv4_tcp parse_built_ipv6_tcp
  by (induction src dst seq ack flags pl rule: build_tcp_packet.induct) simp_all

lemma parse_built_udp:
  assumes "build_udp_response_packet request pl = Some pkt"
  shows "\<exists>p. parse_ip_packet pkt = Inr (Some p)
      \<and> flow_is p Tp_udp (SocketAddr (p_dst request) (p_dst_port request)) (SocketAddr (p_src request) (p_src_port request))
      \<and> payload p pkt = Some pl"
  using assms parse_built_ipv4_udp parse_built_ipv6_udp
  by (auto simp: build_udp_response_packet_def split: if_splits ip_addr.splits)

text \<open>
  Property C22. Every TCP packet the builder makes parses back to its two endpoints, sequence and acknowledgement
  numbers, flags and payload; every UDP response parses back to the request's flow reversed, with its payload. Both
  families, every payload length the builders accept.
\<close>

theorem parse_built_packets:
  "(build_tcp_packet src dst seq ack flags pl = Some pkt \<longrightarrow>
      (\<exists>p. parse_ip_packet pkt = Inr (Some p) \<and> flow_is p Tp_tcp src dst
         \<and> (p_tcp_seq p, p_tcp_ack p, p_tcp_flags p) = (Some seq, Some ack, Some flags) \<and> payload p pkt = Some pl))
   \<and> (build_udp_response_packet request pl = Some pkt \<longrightarrow>
      (\<exists>p. parse_ip_packet pkt = Inr (Some p)
         \<and> flow_is p Tp_udp (SocketAddr (p_dst request) (p_dst_port request)) (SocketAddr (p_src request) (p_src_port request))
         \<and> payload p pkt = Some pl))"
  using parse_built_tcp parse_built_udp by blast

theorem parse_built_packets_witness:
  "\<exists>pkt p. build_tcp_packet (SocketAddr (V4 1) 2) (SocketAddr (V4 3) 4) 5 6 24 [7] = Some pkt
     \<and> parse_ip_packet pkt = Inr (Some p) \<and> payload p pkt = Some [7]"
proof -
  obtain pkt where pkt: "build_tcp_packet (SocketAddr (V4 1) 2) (SocketAddr (V4 3) 4) 5 6 24 [7] = Some pkt"
    using build_ipv4_tcp_layout [of "[7]" 1 3 2 4 5 6 24] by simp
  show ?thesis
    using parse_built_packets [of "SocketAddr (V4 1) 2" "SocketAddr (V4 3) 4" 5 6 24 "[7]" pkt] pkt by auto
qed

text \<open>Resets.\<close>

lemma rst_header_layout:
  assumes "length pre = n"
  shows "put (n + 13) [0x04] (put (n + 12) [0x50] (put (n + 2) (to_be 2 dp) (put n (to_be 2 sp) (pre @ replicate 20 0))))
    = pre @ tcp_fields sp dp 0 0 0x04 0 [0, 0] []"
proof -
  obtain a1 a2 where a: "to_be 2 sp = [a1, a2]" by (rule to_be_2_cases)
  obtain b1 b2 where b: "to_be 2 dp = [b1, b2]" by (rule to_be_2_cases)
  have z: "to_be 4 (0 :: u32) = [0, 0, 0, 0]" "to_be 2 (0 :: u16) = [0, 0]" by code_simp+
  have r: "replicate 20 (0 :: u8) = [0,0,0,0,0,0,0,0,0,0,0,0,0,0,0,0,0,0,0,0]" by (simp add: numeral_eq_Suc)
  show ?thesis
    unfolding assms [symmetric] put_shift put_shift0 unfolding r tcp_fields_def a b z by (simp add: put_def)
qed

lemma build_ipv4_rst_layout:
  "build_ipv4_tcp_rst src dst sp dp = Some (ipv4_built 6 src dst 40
     @ tcp_fields sp dp 0 0 0x04 0 (to_be 2 (tcp_checksum_ipv4 src dst (tcp_fields sp dp 0 0 0x04 0 [0, 0] []))) [])"
proof -
  let ?h = "ipv4_built 6 src dst 40"
  have h: "ipv4_header 6 src dst 40 (replicate 40 0) = ?h @ replicate 20 0"
    using ipv4_header_layout [of 6 src dst 40 20] by (simp add: ipv4_built_def)
  have "put 33 [0x04] (put 32 [0x50] (put 22 (to_be 2 dp) (put 20 (to_be 2 sp) (?h @ replicate 20 0))))
      = ?h @ tcp_fields sp dp 0 0 0x04 0 [0, 0] []"
    using rst_header_layout [of ?h 20 dp sp] by (simp only: length_ipv4_built numeral_plus_numeral semiring_norm)
  then show ?thesis
    using put_tcp_csum [of ?h 20] by (simp add: build_ipv4_tcp_rst_def Let_def h)
qed

lemma build_ipv6_rst_layout:
  "build_ipv6_tcp_rst src dst sp dp = Some (ipv6_fields 6 src dst 20
     @ tcp_fields sp dp 0 0 0x04 0 (to_be 2 (tcp_checksum_ipv6 src dst (tcp_fields sp dp 0 0 0x04 0 [0, 0] []))) [])"
proof -
  let ?h = "ipv6_fields 6 src dst 20"
  have h: "ipv6_header 6 src dst 20 (replicate 60 0) = ?h @ replicate 20 0"
    using ipv6_header_layout [of 6 src dst 20 20] by simp
  have "put 53 [0x04] (put 52 [0x50] (put 42 (to_be 2 dp) (put 40 (to_be 2 sp) (?h @ replicate 20 0))))
      = ?h @ tcp_fields sp dp 0 0 0x04 0 [0, 0] []"
    using rst_header_layout [of ?h 40 dp sp] by (simp only: length_fields numeral_plus_numeral semiring_norm)
  then show ?thesis
    using put_tcp_csum [of ?h 40] by (simp add: build_ipv6_tcp_rst_def Let_def h)
qed

lemma tcp_rst_answers_flow:
  assumes "p_protocol request = Tp_tcp" and "build_tcp_rst request = Some pkt"
  shows "\<exists>p. parse_ip_packet pkt = Inr (Some p)
    \<and> flow_is p Tp_tcp (SocketAddr (p_dst request) (p_dst_port request)) (SocketAddr (p_src request) (p_src_port request))
    \<and> (p_tcp_seq p, p_tcp_ack p, p_tcp_flags p) = (Some 0, Some 0, Some 0x04) \<and> payload p pkt = Some []"
proof -
  let ?sp = "p_dst_port request" and ?dp = "p_src_port request"
  have v4: "\<exists>p. parse_ip_packet pkt = Inr (Some p) \<and> flow_is p Tp_tcp (SocketAddr (V4 src) ?sp) (SocketAddr (V4 dst) ?dp)
      \<and> (p_tcp_seq p, p_tcp_ack p, p_tcp_flags p) = (Some 0, Some 0, Some 0x04) \<and> payload p pkt = Some []"
    if "pkt = ipv4_built 6 src dst 40 @ tcp_fields ?sp ?dp 0 0 0x04 0 csum []" "length csum = 2" for src dst csum
  proof -
    have e: "parse_ip_packet pkt = finish pkt (V4 src) (V4 dst) 6 20 20 40 (20 + 20, Some 0, Some 0, Some 0x04)"
      unfolding that(1) using that(2) parse_transport_tcp [of "ipv4_built 6 src dst 40" 20 csum 20 "[]" ?sp ?dp 0 0 4 0 False]
      by (intro parse_ipv4_segment) simp_all
    show ?thesis unfolding e unfolding that(1) by (rule finish_tcp [OF length_ipv4_built that(2)]) simp
  qed
  have v6: "\<exists>p. parse_ip_packet pkt = Inr (Some p) \<and> flow_is p Tp_tcp (SocketAddr (V6 src) ?sp) (SocketAddr (V6 dst) ?dp)
      \<and> (p_tcp_seq p, p_tcp_ack p, p_tcp_flags p) = (Some 0, Some 0, Some 0x04) \<and> payload p pkt = Some []"
    if "pkt = ipv6_fields 6 src dst 20 @ tcp_fields ?sp ?dp 0 0 0x04 0 csum []" "length csum = 2" for src dst csum
  proof -
    have e: "parse_ip_packet pkt = finish pkt (V6 src) (V6 dst) 6 40 40 (40 + 20) (40 + 20, Some 0, Some 0, Some 0x04)"
      unfolding that(1) using that(2) parse_transport_tcp [of "ipv6_fields 6 src dst 20" 40 csum 20 "[]" ?sp ?dp 0 0 4 0]
      by (intro parse_ipv6_segment) simp_all
    show ?thesis unfolding e unfolding that(1) by (rule finish_tcp [OF length_fields(2) that(2)]) simp
  qed
  show ?thesis
  proof (cases "p_src request"; cases "p_dst request")
    fix a b assume "p_src request = V4 a" "p_dst request = V4 b"
    moreover from this have "pkt = ipv4_built 6 b a 40 @ tcp_fields ?sp ?dp 0 0 0x04 0 (to_be 2
        (tcp_checksum_ipv4 b a (tcp_fields ?sp ?dp 0 0 0x04 0 [0, 0] []))) []"
      using assms by (simp add: build_tcp_rst_def build_ipv4_rst_layout)
    ultimately show ?thesis using v4 [of b a] by simp
  next
    fix a b assume "p_src request = V6 a" "p_dst request = V6 b"
    moreover from this have "pkt = ipv6_fields 6 b a 20 @ tcp_fields ?sp ?dp 0 0 0x04 0 (to_be 2
        (tcp_checksum_ipv6 b a (tcp_fields ?sp ?dp 0 0 0x04 0 [0, 0] []))) []"
      using assms by (simp add: build_tcp_rst_def build_ipv6_rst_layout)
    ultimately show ?thesis using v6 [of b a] by simp
  qed (use assms in \<open>simp_all add: build_tcp_rst_def\<close>)
qed

section \<open>Checksums\<close>

lemma be16_sum_bound: "be16_sum xs \<le> 65280 * length xs"
proof (induction xs rule: be16_sum.induct)
  case (1 a b rest)
  then show ?case using unat_u8_le [of a] unat_u8_le [of b] by (simp del: unat_u8_le)
next
  case (2 a)
  then show ?case using unat_u8_le [of a] by (simp del: unat_u8_le)
qed simp

lemma be16_sum_small: "length xs \<le> 65575 \<Longrightarrow> be16_sum xs < 2 ^ 32"
  using be16_sum_bound [of xs] by simp

lemma header_checksum_verifies: "be16_sum (ipv4_built proto src dst n) mod 65535 = 0"
  unfolding ipv4_built_def ipv4_fields_def append_assoc
  using checksum_verifies [of "[0x45, 0] @ to_be 2 (of_nat n :: u16) @ [0, 0, 0, 0, 64, proto]" "to_be 4 src @ to_be 4 dst"]
    be16_sum_small [of "([0x45, 0] @ to_be 2 (of_nat n :: u16) @ [0, 0, 0, 0, 64, proto]) @ [0, 0] @ to_be 4 src @ to_be 4 dst"]
  by simp

text \<open>A transport segment whose checksum field is filled from the pseudo header.\<close>

lemma segment_checksum_verifies:
  assumes "\<And>csum. length csum = 2 \<Longrightarrow> pseudo (front @ csum @ rear) = pre @ front @ csum @ rear" and "even (length (pre @ front))"
    and "length (pre @ front @ rear) + 2 \<le> 65575"
  shows "be16_sum (pseudo (front @ to_be 2 (internet_checksum (pseudo (front @ [0, 0] @ rear))) @ rear)) mod 65535 = 0"
  using checksum_verifies [of "pre @ front" rear] be16_sum_small [of "(pre @ front) @ [0, 0] @ rear"] assms
    assms(1) [of "[0, 0]"]
  by simp

lemma tcp_checksum_verifies:
  assumes "20 + length pl \<le> 65535"
  shows "be16_sum (pseudo_ipv4 6 src dst (tcp_fields sp dp seq ack flags win
      (to_be 2 (tcp_checksum_ipv4 src dst (tcp_fields sp dp seq ack flags win [0, 0] pl))) pl)) mod 65535 = 0"
    "be16_sum (pseudo_ipv6 6 src6 dst6 (tcp_fields sp dp seq ack flags win
      (to_be 2 (tcp_checksum_ipv6 src6 dst6 (tcp_fields sp dp seq ack flags win [0, 0] pl))) pl)) mod 65535 = 0"
  unfolding tcp_checksum_ipv4_def tcp_checksum_ipv6_def tcp_fields_def
  using assms
    segment_checksum_verifies [of "pseudo_ipv4 6 src dst" "to_be 2 sp @ to_be 2 dp @ to_be 4 seq @ to_be 4 ack @ [0x50, flags] @ to_be 2 win"
      "[0, 0] @ pl" "to_be 4 src @ to_be 4 dst @ [0, 6] @ to_be 2 (of_nat (20 + length pl) :: u16)"]
    segment_checksum_verifies [of "pseudo_ipv6 6 src6 dst6" "to_be 2 sp @ to_be 2 dp @ to_be 4 seq @ to_be 4 ack @ [0x50, flags] @ to_be 2 win"
      "[0, 0] @ pl" "to_be 16 src6 @ to_be 16 dst6 @ to_be 4 (of_nat (20 + length pl) :: u32) @ [0, 0, 0, 6]"]
  by (simp_all add: pseudo_ipv4_def pseudo_ipv6_def)

lemma udp_checksum_verifies:
  assumes "8 + length pl \<le> 65535"
  shows "be16_sum (pseudo_ipv4 17 src dst (udp_fields sp dp (to_be 2 (udp_checksum_ipv4 src dst (udp_fields sp dp [0, 0] pl))) pl)) mod 65535 = 0"
    "be16_sum (pseudo_ipv6 17 src6 dst6 (udp_fields sp dp (to_be 2 (udp_checksum_ipv6 src6 dst6 (udp_fields sp dp [0, 0] pl))) pl)) mod 65535 = 0"
  unfolding udp_checksum_ipv4_def udp_checksum_ipv6_def udp_fields_def
  using assms
    segment_checksum_verifies [of "pseudo_ipv4 17 src dst" "to_be 2 sp @ to_be 2 dp @ to_be 2 (of_nat (8 + length pl) :: u16)"
      pl "to_be 4 src @ to_be 4 dst @ [0, 17] @ to_be 2 (of_nat (8 + length pl) :: u16)"]
    segment_checksum_verifies [of "pseudo_ipv6 17 src6 dst6" "to_be 2 sp @ to_be 2 dp @ to_be 2 (of_nat (8 + length pl) :: u16)"
      pl "to_be 16 src6 @ to_be 16 dst6 @ to_be 4 (of_nat (8 + length pl) :: u32) @ [0, 0, 0, 17]"]
  by (simp_all add: pseudo_ipv4_def pseudo_ipv6_def)

text \<open>
  The checksums of built packets verify: the one's complement sum of an IPv4 header, and of the pseudo
  header with the TCP or UDP segment of either family, is zero modulo 65535, as a receiver checks it.
\<close>

theorem built_checksums_verify:
  "(build_ipv4_tcp_packet src dst sp dp seq ack flags pl = Some pkt \<longrightarrow>
      be16_sum (take 20 pkt) mod 65535 = 0 \<and> be16_sum (pseudo_ipv4 6 src dst (drop 20 pkt)) mod 65535 = 0)
   \<and> (build_ipv6_tcp_packet src6 dst6 sp dp seq ack flags pl = Some pkt \<longrightarrow>
      be16_sum (pseudo_ipv6 6 src6 dst6 (drop 40 pkt)) mod 65535 = 0)
   \<and> (build_ipv4_udp_packet src dst sp dp pl = Some pkt \<longrightarrow>
      be16_sum (take 20 pkt) mod 65535 = 0 \<and> be16_sum (pseudo_ipv4 17 src dst (drop 20 pkt)) mod 65535 = 0)
   \<and> (build_ipv6_udp_packet src6 dst6 sp dp pl = Some pkt \<longrightarrow>
      be16_sum (pseudo_ipv6 17 src6 dst6 (drop 40 pkt)) mod 65535 = 0)"
proof (intro conjI impI)
  assume b: "build_ipv4_tcp_packet src dst sp dp seq ack flags pl = Some pkt"
  then have n: "40 + length pl \<le> 65535" by (auto simp: build_ipv4_tcp_packet_def Let_def split: if_splits)
  with b show "be16_sum (take 20 pkt) mod 65535 = 0" "be16_sum (pseudo_ipv4 6 src dst (drop 20 pkt)) mod 65535 = 0"
    using build_ipv4_tcp_layout [OF n] by (auto simp: header_checksum_verifies tcp_checksum_verifies)
next
  assume b: "build_ipv6_tcp_packet src6 dst6 sp dp seq ack flags pl = Some pkt"
  then have n: "20 + length pl \<le> 65535" by (auto simp: build_ipv6_tcp_packet_def Let_def split: if_splits)
  with b show "be16_sum (pseudo_ipv6 6 src6 dst6 (drop 40 pkt)) mod 65535 = 0"
    using build_ipv6_tcp_layout [OF n] by (auto simp: tcp_checksum_verifies)
next
  assume b: "build_ipv4_udp_packet src dst sp dp pl = Some pkt"
  then have n: "28 + length pl \<le> 65535" by (auto simp: build_ipv4_udp_packet_def Let_def split: if_splits)
  with b show "be16_sum (take 20 pkt) mod 65535 = 0" "be16_sum (pseudo_ipv4 17 src dst (drop 20 pkt)) mod 65535 = 0"
    using build_ipv4_udp_layout [OF n] by (auto simp: header_checksum_verifies udp_checksum_verifies)
next
  assume b: "build_ipv6_udp_packet src6 dst6 sp dp pl = Some pkt"
  then have n: "8 + length pl \<le> 65535" by (auto simp: build_ipv6_udp_packet_def Let_def split: if_splits)
  with b show "be16_sum (pseudo_ipv6 17 src6 dst6 (drop 40 pkt)) mod 65535 = 0"
    using build_ipv6_udp_layout [OF n] by (auto simp: udp_checksum_verifies)
qed

theorem built_checksums_verify_witness:
  "\<exists>pkt. build_ipv4_udp_packet 1 2 3 4 [5, 6, 7] = Some pkt \<and> be16_sum (take 20 pkt) mod 65535 = 0
     \<and> be16_sum (pseudo_ipv4 17 1 2 (drop 20 pkt)) mod 65535 = 0"
proof -
  obtain pkt where "build_ipv4_udp_packet 1 2 3 4 [5, 6, 7] = Some pkt"
    using build_ipv4_udp_layout [of "[5, 6, 7]" 1 2 3 4] by simp
  then show ?thesis using built_checksums_verify [of 1 2 3 4 0 0 0 "[5, 6, 7]" pkt] by blast
qed

end
