(* ===== verification/TunTables.thy ===== *)
theory TunTables
  imports TunBuild "HOL-Library.AList"
begin

text \<open>
  The flow tables of the TUN runtime: the session table (\<^verbatim>\<open>tun/session.rs\<close>), the UDP NAT (\<^verbatim>\<open>tun/nat.rs\<close>) and the
  eviction it shares with the TCP bridge. A hash map is an association list in iteration order; clock readings and the
  success of socket calls are arguments; what a socket was opened for and what it sent is recorded in the table.
\<close>

section \<open>Sessions\<close>

record flow_key =
  f_client :: socket_addr
  f_remote :: socket_addr
  f_protocol :: transport_protocol

definition packet_client :: "ip_packet \<Rightarrow> socket_addr" where
  "packet_client p = SocketAddr (p_src p) (p_src_port p)"

definition packet_remote :: "ip_packet \<Rightarrow> socket_addr" where
  "packet_remote p = SocketAddr (p_dst p) (p_dst_port p)"

definition flow_from_packet :: "ip_packet \<Rightarrow> flow_key option" where
  "flow_from_packet p = (case p_protocol p of
      Tp_other _ \<Rightarrow> None
    | proto \<Rightarrow> Some \<lparr>f_client = packet_client p, f_remote = packet_remote p, f_protocol = proto\<rparr>)"

definition matches_response :: "flow_key \<Rightarrow> ip_packet \<Rightarrow> bool" where
  "matches_response f p \<longleftrightarrow> p_protocol p = f_protocol f \<and> p_src p = sock_ip (f_remote f) \<and> p_src_port p = sock_port (f_remote f)
     \<and> p_dst p = sock_ip (f_client f) \<and> p_dst_port p = sock_port (f_client f)"

type_synonym session_table = "(flow_key \<times> nat) list"

definition observe_packet :: "ip_packet \<Rightarrow> nat \<Rightarrow> session_table \<Rightarrow> (flow_key \<times> nat) option \<times> session_table" where
  "observe_packet p now t = (case flow_from_packet p of
      None \<Rightarrow> (None, t) | Some f \<Rightarrow> (Some (f, now), AList.update f now t))"

definition find_response_flow :: "ip_packet \<Rightarrow> session_table \<Rightarrow> flow_key option" where
  "find_response_flow p t = find (\<lambda>f. matches_response f p) (map fst t)"

definition remove_expired :: "nat \<Rightarrow> nat \<Rightarrow> session_table \<Rightarrow> nat \<times> session_table" where
  "remove_expired now idle t = (let t' = filter (\<lambda>(f, last). now - last \<le> idle) t in (length t - length t', t'))"

section \<open>Eviction\<close>

definition evict_idle :: "('e \<Rightarrow> nat) \<Rightarrow> nat \<Rightarrow> nat \<Rightarrow> ('k \<times> 'e) list \<Rightarrow> ('k \<times> 'e) list" where
  "evict_idle seen idle now es = filter (\<lambda>(k, e). now - seen e \<le> idle) es"

text \<open>\<^verbatim>\<open>min_by_key\<close>: the first of the smallest.\<close>

fun oldest :: "('e \<Rightarrow> nat) \<Rightarrow> ('k \<times> 'e) list \<Rightarrow> ('k \<times> 'e) option" where
  "oldest seen [] = None"
| "oldest seen ((k, e) # es) = (case oldest seen es of
      None \<Rightarrow> Some (k, e) | Some (k', e') \<Rightarrow> if seen e' < seen e then Some (k', e') else Some (k, e))"

definition evict_oldest :: "('e \<Rightarrow> nat) \<Rightarrow> ('k \<times> 'e) list \<Rightarrow> ('k \<times> 'e) list" where
  "evict_oldest seen es = (case oldest seen es of None \<Rightarrow> es | Some (k, e) \<Rightarrow> AList.delete k es)"

definition make_room :: "('e \<Rightarrow> nat) \<Rightarrow> nat \<Rightarrow> nat \<Rightarrow> nat \<Rightarrow> ('k \<times> 'e) list \<Rightarrow> ('k \<times> 'e) list" where
  "make_room seen idle now limit es =
     (let es1 = evict_idle seen idle now es in if length es1 \<ge> limit then evict_oldest seen es1 else es1)"

section \<open>UDP NAT\<close>

type_synonym flow = "socket_addr \<times> socket_addr"

record nat_entry =
  ne_socket :: nat
  ne_seen :: nat

text \<open>\<open>nt_opened\<close>: socket number, client its reader answers, remote it is connected to. \<open>nt_sent\<close>: what each socket sent.\<close>

record nat_table =
  nt_entries :: "(flow \<times> nat_entry) list"
  nt_idle :: nat
  nt_max :: nat
  nt_opened :: "(nat \<times> flow) list"
  nt_sent :: "(nat \<times> bytes) list"

definition nat_new :: "nat \<Rightarrow> nat \<Rightarrow> nat_table" where
  "nat_new idle limit = \<lparr>nt_entries = [], nt_idle = idle, nt_max = max limit 1, nt_opened = [], nt_sent = []\<rparr>"

datatype nat_error = Flow_table_full | Socket_failed | Entry_disappeared | Payload_out_of_bounds | Send_failed

record clock =
  ck_now :: nat
  ck_evict :: nat

definition nat_open :: "clock \<Rightarrow> bool \<Rightarrow> flow \<Rightarrow> nat_table \<Rightarrow> nat_error option \<times> nat_table" where
  "nat_open ck socket_ok key t =
     (let t1 = t\<lparr>nt_entries := make_room ne_seen (nt_idle t) (ck_evict ck) (nt_max t) (nt_entries t)\<rparr> in
      if length (nt_entries t1) \<ge> nt_max t1 then (Some Flow_table_full, t1)
      else if \<not> socket_ok then (Some Socket_failed, t1)
      else let n = length (nt_opened t1)
           in (None, t1\<lparr>nt_entries := AList.update key \<lparr>ne_socket = n, ne_seen = ck_now ck\<rparr> (nt_entries t1),
                        nt_opened := nt_opened t1 @ [(n, key)]\<rparr>))"

definition nat_send :: "clock \<Rightarrow> bool \<Rightarrow> flow \<Rightarrow> bytes option \<Rightarrow> nat_table \<Rightarrow> nat_error option \<times> nat_table" where
  "nat_send ck send_ok key pl t = (case map_of (nt_entries t) key of
      None \<Rightarrow> (Some Entry_disappeared, t)
    | Some e \<Rightarrow>
        let t1 = t\<lparr>nt_entries := AList.update key (e\<lparr>ne_seen := ck_now ck\<rparr>) (nt_entries t)\<rparr> in
        (case pl of
           None \<Rightarrow> (Some Payload_out_of_bounds, t1)
         | Some data \<Rightarrow> if send_ok then (None, t1\<lparr>nt_sent := nt_sent t1 @ [(ne_socket e, data)]\<rparr>) else (Some Send_failed, t1)))"

definition nat_forward :: "clock \<Rightarrow> bool \<Rightarrow> bool \<Rightarrow> ip_packet \<Rightarrow> bytes \<Rightarrow> nat_table \<Rightarrow> nat_error option \<times> nat_table" where
  "nat_forward ck socket_ok send_ok p raw t =
     (let key = (packet_client p, packet_remote p) in
      if map_of (nt_entries t) key = None
      then (case nat_open ck socket_ok key t of
          (Some err, t1) \<Rightarrow> (Some err, t1)
        | (None, t1) \<Rightarrow> nat_send ck send_ok key (payload p raw) t1)
      else nat_send ck send_ok key (payload p raw) t)"

definition nat_evict_idle :: "nat \<Rightarrow> nat_table \<Rightarrow> nat \<times> nat_table" where
  "nat_evict_idle now t =
     (let es = evict_idle ne_seen (nt_idle t) now (nt_entries t) in (length (nt_entries t) - length es, t\<lparr>nt_entries := es\<rparr>))"

definition build_response_packet :: "socket_addr \<Rightarrow> socket_addr \<Rightarrow> bytes \<Rightarrow> bytes option" where
  "build_response_packet client remote pl = build_udp_response_packet
     \<lparr>p_src = sock_ip client, p_dst = sock_ip remote, p_src_port = sock_port client, p_dst_port = sock_port remote,
      p_protocol = Tp_udp, p_header_len = 0, p_payload_offset = 0, p_transport_offset = 0, p_payload_len = 0,
      p_tcp_seq = None, p_tcp_ack = None, p_tcp_flags = None\<rparr> pl"

section \<open>Lemmas on eviction\<close>

lemma oldest_in: "oldest seen es = Some (k, e) \<Longrightarrow> (k, e) \<in> set es"
  by (induction es arbitrary: k e) (auto split: option.splits if_splits)

lemma oldest_least: "oldest seen es = Some (k, e) \<Longrightarrow> (k', e') \<in> set es \<Longrightarrow> seen e \<le> seen e'"
proof (induction es arbitrary: k e)
  case (Cons x es)
  obtain k0 e0 where x: "x = (k0, e0)" by force
  show ?case
  proof (cases "oldest seen es")
    case None
    then have "es = []" by (cases es) (auto split: option.splits prod.splits if_splits)
    then show ?thesis using Cons.prems by (auto simp: x)
  next
    case (Some m)
    then show ?thesis using Cons.prems Cons.IH [of "fst m" "snd m"] by (cases m) (fastforce simp: x split: if_splits)
  qed
qed simp

lemma oldest_None: "oldest seen es = None \<longleftrightarrow> es = []"
  by (cases es) (auto split: option.splits)

lemma evict_idle_subset: "set (evict_idle seen idle now es) \<subseteq> set es" "length (evict_idle seen idle now es) \<le> length es"
  by (auto simp: evict_idle_def)

lemma evict_oldest_subset: "set (evict_oldest seen es) \<subseteq> set es"
  by (auto simp: evict_oldest_def AList.delete_eq split: option.splits)

lemma evict_oldest_length: "es \<noteq> [] \<Longrightarrow> length (evict_oldest seen es) < length es"
proof -
  assume "es \<noteq> []"
  then obtain k e where o: "oldest seen es = Some (k, e)" by (metis oldest_None option.exhaust surj_pair)
  have "(k, e) \<in> set es" by (rule oldest_in [OF o])
  then have "length (filter (\<lambda>(k', _). k \<noteq> k') es) < length es" by (intro length_filter_less) auto
  then show ?thesis by (simp add: evict_oldest_def o AList.delete_eq)
qed

lemma make_room_subset: "set (make_room seen idle now limit es) \<subseteq> set es"
  using evict_idle_subset [of seen idle now es] evict_oldest_subset [of seen "evict_idle seen idle now es"]
  by (auto simp: make_room_def Let_def)

lemma make_room_length:
  assumes "1 \<le> limit" and "length es \<le> limit"
  shows "length (make_room seen idle now limit es) < limit"
proof (cases "length (evict_idle seen idle now es) \<ge> limit")
  case True
  then have "evict_idle seen idle now es \<noteq> []" using assms(1) by auto
  from evict_oldest_length [OF this, of seen] show ?thesis
    using True evict_idle_subset(2) [of seen idle now es] assms(2) by (simp add: make_room_def)
next
  case False
  then show ?thesis by (simp add: make_room_def)
qed

lemma distinct_filter_fst: "distinct (map fst es) \<Longrightarrow> distinct (map fst (filter P es))"
  by (rule distinct_map_filter)

lemma make_room_distinct: "distinct (map fst es) \<Longrightarrow> distinct (map fst (make_room seen idle now limit es))"
  by (auto simp: make_room_def Let_def evict_idle_def evict_oldest_def AList.delete_eq distinct_filter_fst split: option.splits)

lemma update_fresh_length: "map_of es k = None \<Longrightarrow> length (AList.update k v es) = Suc (length es)"
  by (induction es) (auto split: if_splits)

lemma update_known_length: "map_of es k = Some v' \<Longrightarrow> length (AList.update k v es) = length es"
  by (induction es) (auto split: if_splits)

lemma set_update_subset: "set (AList.update k v es) \<subseteq> insert (k, v) (set es)"
  by (induction es) auto

section \<open>The NAT table\<close>

definition nat_inv :: "nat_table \<Rightarrow> bool" where
  "nat_inv t \<longleftrightarrow> 1 \<le> nt_max t \<and> length (nt_entries t) \<le> nt_max t \<and> distinct (map fst (nt_entries t))
     \<and> map fst (nt_opened t) = [0..<length (nt_opened t)]
     \<and> (\<forall>(key, e)\<in>set (nt_entries t). (ne_socket e, key) \<in> set (nt_opened t))
     \<and> (\<forall>(n, data)\<in>set (nt_sent t). n < length (nt_opened t))"

lemma nat_inv_subset:
  assumes "nat_inv t" and "set es \<subseteq> set (nt_entries t)" and "distinct (map fst es)" and "length es \<le> nt_max t"
  shows "nat_inv (t\<lparr>nt_entries := es\<rparr>)"
  using assms by (auto simp: nat_inv_def)

lemma nat_inv_insert:
  assumes inv: "nat_inv t" and fresh: "map_of (nt_entries t) key = None" and len: "length (nt_entries t) < nt_max t"
  defines "n \<equiv> length (nt_opened t)"
  shows "nat_inv (t\<lparr>nt_entries := AList.update key \<lparr>ne_socket = n, ne_seen = now\<rparr> (nt_entries t), nt_opened := nt_opened t @ [(n, key)]\<rparr>)"
proof -
  let ?new = "(key, \<lparr>ne_socket = n, ne_seen = now\<rparr>)"
  have entry: "(ne_socket e, k) \<in> set (nt_opened t @ [(n, key)])"
    if "(k, e) \<in> set (AList.update key \<lparr>ne_socket = n, ne_seen = now\<rparr> (nt_entries t))" for k e
  proof -
    have "(k, e) = ?new \<or> (k, e) \<in> set (nt_entries t)" using that set_update_subset [of key _ "nt_entries t"] by blast
    then show ?thesis using inv by (auto simp: nat_inv_def)
  qed
  show ?thesis
    using inv len entry update_fresh_length [OF fresh]
    by (auto simp: nat_inv_def distinct_update n_def less_Suc_eq)
qed

lemma nat_open_inv:
  assumes "nat_inv t" and "map_of (nt_entries t) key = None" and "nat_open ck ok key t = (err, t')"
  shows "nat_inv t' \<and> err \<noteq> Some Flow_table_full \<and> (err = None \<longrightarrow> map_of (nt_entries t') key \<noteq> None)"
proof -
  define es where "es = make_room ne_seen (nt_idle t) (ck_evict ck) (nt_max t) (nt_entries t)"
  have t: "1 \<le> nt_max t" "length (nt_entries t) \<le> nt_max t" "distinct (map fst (nt_entries t))"
    using assms(1) by (simp_all add: nat_inv_def)
  have len: "length es < nt_max t" unfolding es_def by (rule make_room_length [OF t(1,2)])
  have sub: "set es \<subseteq> set (nt_entries t)" unfolding es_def by (rule make_room_subset)
  have inv: "nat_inv (t\<lparr>nt_entries := es\<rparr>)"
    using nat_inv_subset [OF assms(1) sub] make_room_distinct [OF t(3)] len by (simp add: es_def)
  have "fst ` set es \<subseteq> fst ` set (nt_entries t)" using sub by blast
  then have fresh: "map_of es key = None" using assms(2) unfolding map_of_eq_None_iff by blast
  have open_eq: "nat_open ck ok key t = (if ok then (None, t\<lparr>nt_entries := AList.update key \<lparr>ne_socket = length (nt_opened t), ne_seen = ck_now ck\<rparr> es,
      nt_opened := nt_opened t @ [(length (nt_opened t), key)]\<rparr>) else (Some Socket_failed, t\<lparr>nt_entries := es\<rparr>))"
    using len by (simp add: nat_open_def Let_def es_def [symmetric])
  show ?thesis
    using assms(3) [unfolded open_eq] inv nat_inv_insert [OF inv, of key "ck_now ck"] fresh len
    by (cases ok) (auto simp: update_conv')
qed

lemma nat_send_inv:
  assumes "nat_inv t" and "map_of (nt_entries t) key \<noteq> None" and "nat_send ck ok key pl t = (err, t')"
  shows "nat_inv t' \<and> err \<notin> {Some Flow_table_full, Some Entry_disappeared}
    \<and> (err = None \<longrightarrow> (\<exists>n data. pl = Some data \<and> (n, key) \<in> set (nt_opened t') \<and> nt_sent t' = nt_sent t @ [(n, data)]))"
proof -
  obtain e where e: "map_of (nt_entries t) key = Some e" using assms(2) by auto
  define t1 where "t1 = t\<lparr>nt_entries := AList.update key (e\<lparr>ne_seen := ck_now ck\<rparr>) (nt_entries t)\<rparr>"
  have sock: "(ne_socket e, key) \<in> set (nt_opened t)"
    using assms(1) map_of_SomeD [OF e] by (auto simp: nat_inv_def)
  have "ne_socket e \<in> set (map fst (nt_opened t))" using sock by force
  moreover have "map fst (nt_opened t) = [0..<length (nt_opened t)]" using assms(1) by (simp add: nat_inv_def)
  ultimately have lt: "ne_socket e < length (nt_opened t)" by simp
  have entry: "(ne_socket e', k) \<in> set (nt_opened t)"
    if "(k, e') \<in> set (AList.update key (e\<lparr>ne_seen := ck_now ck\<rparr>) (nt_entries t))" for k e'
  proof -
    have "(k, e') = (key, e\<lparr>ne_seen := ck_now ck\<rparr>) \<or> (k, e') \<in> set (nt_entries t)"
      using that set_update_subset [of key _ "nt_entries t"] by blast
    then show ?thesis using assms(1) sock by (auto simp: nat_inv_def)
  qed
  have inv: "nat_inv t1"
    using assms(1) entry update_known_length [OF e] by (auto simp: nat_inv_def t1_def distinct_update)
  then have "nat_inv (t1\<lparr>nt_sent := nt_sent t1 @ [(ne_socket e, data)]\<rparr>)" for data
    using lt by (auto simp: nat_inv_def t1_def)
  then show ?thesis
    using assms(3) inv sock by (auto simp: nat_send_def e Let_def t1_def [symmetric] split: option.splits if_splits) (auto simp: t1_def)
qed

lemma nat_forward_inv:
  assumes "nat_inv t" and "nat_forward ck socket_ok send_ok p raw t = (err, t')"
  shows "nat_inv t' \<and> err \<notin> {Some Flow_table_full, Some Entry_disappeared}
    \<and> (err = None \<longrightarrow> (\<exists>n data. payload p raw = Some data \<and> (n, packet_client p, packet_remote p) \<in> set (nt_opened t')
         \<and> nt_sent t' = nt_sent t @ [(n, data)]))"
proof (cases "map_of (nt_entries t) (packet_client p, packet_remote p) = None")
  case True
  obtain err1 t1 where o: "nat_open ck socket_ok (packet_client p, packet_remote p) t = (err1, t1)" by force
  have "nt_sent t1 = nt_sent t" and "err1 \<noteq> Some Entry_disappeared" using o by (auto simp: nat_open_def Let_def split: if_splits)
  then show ?thesis
    using True o assms(2) nat_open_inv [OF assms(1) True o] nat_send_inv [of t1 "(packet_client p, packet_remote p)"]
    by (cases err1) (fastforce simp: nat_forward_def)+
next
  case False
  then have "nat_send ck send_ok (packet_client p, packet_remote p) (payload p raw) t = (err, t')"
    using assms(2) by (auto simp: nat_forward_def Let_def)
  from nat_send_inv [OF assms(1) False this] show ?thesis by blast
qed

lemma nat_new_inv: "nat_inv (nat_new idle limit)"
  by (simp add: nat_inv_def nat_new_def)

lemma nat_evict_inv:
  assumes "nat_inv t"
  shows "nat_inv (snd (nat_evict_idle now t))"
proof -
  let ?es = "evict_idle ne_seen (nt_idle t) now (nt_entries t)"
  have "length ?es \<le> nt_max t" and "distinct (map fst ?es)"
    using assms le_trans [OF evict_idle_subset(2) [of ne_seen "nt_idle t" now "nt_entries t"]]
    by (simp_all add: nat_inv_def) (simp add: evict_idle_def distinct_filter_fst)
  then show ?thesis using nat_inv_subset [OF assms evict_idle_subset(1)] by (simp add: nat_evict_idle_def Let_def)
qed

lemma nat_opened_mono: "nat_forward ck socket_ok send_ok p raw t = (err, t') \<Longrightarrow> \<exists>more. nt_opened t' = nt_opened t @ more"
  by (auto simp: nat_forward_def nat_open_def nat_send_def Let_def split: if_splits option.splits prod.splits)

datatype nat_op = Nat_packet clock bool bool ip_packet bytes | Nat_sweep nat

fun nat_apply :: "nat_op \<Rightarrow> nat_table \<Rightarrow> nat_table" where
  "nat_apply (Nat_packet ck socket_ok send_ok p raw) t = snd (nat_forward ck socket_ok send_ok p raw t)"
| "nat_apply (Nat_sweep now) t = snd (nat_evict_idle now t)"

lemma nat_apply_inv: "nat_inv t \<Longrightarrow> nat_inv (nat_apply op t)"
  using nat_forward_inv [OF _ prod.collapse [symmetric]] nat_evict_inv by (cases op) auto

lemma nat_fold_inv: "nat_inv t \<Longrightarrow> nat_inv (fold nat_apply ops t)"
  by (induction ops arbitrary: t) (simp_all add: nat_apply_inv)

lemma nat_apply_max: "nt_max (nat_apply op t) = nt_max t"
  by (cases op) (auto simp: nat_forward_def nat_open_def nat_send_def nat_evict_idle_def Let_def split: option.split prod.split)

lemma nat_fold_max: "nt_max (fold nat_apply ops t) = nt_max t"
  by (induction ops arbitrary: t) (simp_all add: nat_apply_max)

text \<open>
  Property C31. Every sequence of forwards and idle sweeps keeps the UDP NAT within its limit, whatever the clock and the
  sockets do: a forward never fails with a full table or a vanished entry, and when it succeeds the packet's payload
  left through a socket opened for the packet's own client and remote.
\<close>

theorem nat_forward_uses_own_socket:
  assumes "nat_forward ck socket_ok send_ok p raw (fold nat_apply ops (nat_new idle limit)) = (err, t')"
  shows "length (nt_entries t') \<le> max limit 1 \<and> distinct (map fst (nt_entries t'))
    \<and> err \<notin> {Some Flow_table_full, Some Entry_disappeared}
    \<and> (err = None \<longrightarrow> (\<exists>n data. payload p raw = Some data \<and> (n, packet_client p, packet_remote p) \<in> set (nt_opened t')
         \<and> nt_sent t' = nt_sent (fold nat_apply ops (nat_new idle limit)) @ [(n, data)]))"
proof -
  have "nt_max t' = max limit 1"
    using nat_fold_max [of "ops @ [Nat_packet ck socket_ok send_ok p raw]" "nat_new idle limit"] assms
    by (simp add: nat_new_def)
  then show ?thesis
    using nat_forward_inv [OF nat_fold_inv [OF nat_new_inv] assms] by (auto simp: nat_inv_def)
qed

theorem nat_forward_uses_own_socket_witness:
  "\<exists>t'. nat_forward \<lparr>ck_now = 5, ck_evict = 5\<rparr> True True
      \<lparr>p_src = V4 1, p_dst = V4 3, p_src_port = 2, p_dst_port = 4, p_protocol = Tp_udp, p_header_len = 20,
       p_payload_offset = 1, p_transport_offset = 0, p_payload_len = 2, p_tcp_seq = None, p_tcp_ack = None, p_tcp_flags = None\<rparr>
      [9, 8, 7] (fold nat_apply [Nat_sweep 3] (nat_new 60 1)) = (None, t') \<and> length (nt_entries t') \<le> 1
      \<and> nt_sent t' = [(0, [8, 7])]"
proof -
  let ?p = "\<lparr>p_src = V4 1, p_dst = V4 3, p_src_port = 2, p_dst_port = 4, p_protocol = Tp_udp, p_header_len = 20,
       p_payload_offset = 1, p_transport_offset = 0, p_payload_len = 2, p_tcp_seq = None, p_tcp_ack = None, p_tcp_flags = None\<rparr>"
  obtain t' where "nat_forward \<lparr>ck_now = 5, ck_evict = 5\<rparr> True True ?p [9, 8, 7] (fold nat_apply [Nat_sweep 3] (nat_new 60 1)) = (None, t')
      \<and> nt_sent t' = [(0, [8, 7])]"
    by (auto simp: nat_forward_def nat_open_def nat_send_def nat_evict_idle_def nat_new_def make_room_def evict_idle_def
        packet_client_def packet_remote_def payload_def Let_def)
  then show ?thesis
    using nat_forward_uses_own_socket [of "\<lparr>ck_now = 5, ck_evict = 5\<rparr>" True True ?p "[9, 8, 7]" "[Nat_sweep 3]" 60 1 None t'] by auto
qed

section \<open>Sessions and their answers\<close>

lemma observed_flow_found:
  assumes "flow_from_packet p = Some f" and "matches_response f r"
  shows "\<exists>g. find_response_flow r (snd (observe_packet p now t)) = Some g \<and> matches_response g r"
proof -
  have "f \<in> set (map fst (AList.update f now t))" by (simp add: dom_update)
  then have "find (\<lambda>g. matches_response g r) (map fst (AList.update f now t)) \<noteq> None"
    using assms(2) unfolding find_None_iff by blast
  then show ?thesis using assms(1) by (auto simp: observe_packet_def find_response_flow_def find_Some_iff)
qed

lemma observe_packet_distinct: "distinct (map fst t) \<Longrightarrow> distinct (map fst (snd (observe_packet p now t)))"
  by (auto simp: observe_packet_def distinct_update split: option.split)

lemma build_response_answers:
  assumes "build_response_packet client remote pl = Some pkt"
  shows "\<exists>r. parse_ip_packet pkt = Inr (Some r) \<and> payload r pkt = Some pl
    \<and> matches_response \<lparr>f_client = client, f_remote = remote, f_protocol = Tp_udp\<rparr> r"
  using parse_built_udp [OF assms [unfolded build_response_packet_def]] by (auto simp: flow_is_def matches_response_def)

end
