(* ===== verification/TunBridge.thy ===== *)
theory TunBridge
  imports TunTables
begin

text \<open>
  The TCP bridge (\<^verbatim>\<open>tun/tcp.rs\<close>) and the packet loop (\<^verbatim>\<open>tun/runtime.rs\<close>) that owns it and the UDP NAT. A forwarded TCP packet
  yields the table and the awaits the handler still has to perform in order; the loop, the flow tasks and the readers of
  the UDP sockets interleave as the steps of an inductive relation over the bounded device queue they share.
\<close>

section \<open>Flows of the TCP bridge\<close>

abbreviation (input) "TCP_FIN \<equiv> (0x01 :: u8)"
abbreviation (input) "TCP_SYN \<equiv> (0x02 :: u8)"
abbreviation (input) "TCP_RST \<equiv> (0x04 :: u8)"
abbreviation (input) "TCP_PSH \<equiv> (0x08 :: u8)"
abbreviation (input) "TCP_ACK \<equiv> (0x10 :: u8)"
abbreviation (input) "SERVER_ISN \<equiv> (0x42570001 :: u32)"
abbreviation (input) "FLOW_CHAN_CAP \<equiv> (256 :: nat)"
abbreviation (input) "DEFAULT_MAX_TCP_ENTRIES \<equiv> (4096 :: nat)"

text \<open>
  \<open>ft_queue\<close> is the payload channel and \<open>ft_server_seq\<close> the counter shared with the entry. \<open>ft_sending\<close> is the packet the task
  waits to queue, the counter it stores afterwards and whether it ends then. \<open>ft_written\<close>, \<open>ft_read\<close> and \<open>ft_sent\<close> record what
  went to the local proxy, what was read from it and which packets were queued.
\<close>

record flow_task =
  ft_flow :: flow
  ft_server_seq :: u32
  ft_client_ack :: u32
  ft_queue :: "bytes list"
  ft_connected :: bool
  ft_sending :: "(bytes \<times> u32 \<times> bool) option"
  ft_done :: bool
  ft_written :: "bytes list"
  ft_read :: "bytes list"
  ft_sent :: "bytes list"

definition socks_request :: "socket_addr \<Rightarrow> bytes" where
  "socks_request remote = [0x05, 0x01, 0x00] @ (case sock_ip remote of
      V4 a \<Rightarrow> [0x01] @ to_be 4 a @ to_be 2 (sock_port remote)
    | V6 a \<Rightarrow> [0x04] @ to_be 16 a @ to_be 2 (sock_port remote))"

definition read_socks_reply :: "unit reader" where
  "read_socks_reply = rbind (read_exact 4) (\<lambda>head.
     if head ! 0 \<noteq> 5 \<or> head ! 1 \<noteq> 0 then rfail (proxy_error.Transport ''SOCKS CONNECT failed with status'')
     else rbind (if head ! 3 = 1 then rret 4
                 else if head ! 3 = 3 then rbind (read_exact 1) (\<lambda>len. rret (unat (len ! 0)))
                 else if head ! 3 = 4 then rret 16
                 else rfail (proxy_error.Transport ''SOCKS CONNECT reply used unsupported ATYP'')) (\<lambda>addr_len.
       rbind (read_exact (addr_len + 2)) (\<lambda>_. rret ())))"

text \<open>The client's side of the SOCKS dialogue over the bytes the local proxy sends.\<close>

definition connect_local_socks :: "unit reader" where
  "connect_local_socks = rbind (read_exact 2) (\<lambda>greeting.
     if greeting \<noteq> [0x05, 0x00] then rfail (proxy_error.Transport ''SOCKS listener rejected no-auth greeting'') else read_socks_reply)"

definition task_send :: "u8 \<Rightarrow> bytes \<Rightarrow> u32 \<Rightarrow> bool \<Rightarrow> flow_task \<Rightarrow> flow_task" where
  "task_send flags pl next ends ft =
     (case build_tcp_packet (snd (ft_flow ft)) (fst (ft_flow ft)) (ft_server_seq ft) (ft_client_ack ft) flags pl of
        None \<Rightarrow> ft\<lparr>ft_server_seq := next, ft_done := ends\<rparr>
      | Some pkt \<Rightarrow> ft\<lparr>ft_sending := Some (pkt, next, ends)\<rparr>)"

definition task_fail :: "flow_task \<Rightarrow> flow_task" where
  "task_fail ft = task_send (TCP_RST OR TCP_ACK) [] (ft_server_seq ft) True ft"

definition task_connect :: "bytes option \<Rightarrow> flow_task \<Rightarrow> flow_task" where
  "task_connect reply ft = (case reply of
      None \<Rightarrow> task_fail ft
    | Some bs \<Rightarrow> (case connect_local_socks bs of
        Inl _ \<Rightarrow> task_fail ft
      | Inr _ \<Rightarrow> ft\<lparr>ft_connected := True, ft_written := [[0x05, 0x01, 0x00], socks_request (snd (ft_flow ft))]\<rparr>))"

definition task_payload :: "bool \<Rightarrow> flow_task \<Rightarrow> flow_task" where
  "task_payload write_ok ft = (case ft_queue ft of
      [] \<Rightarrow> ft
    | pl # rest \<Rightarrow>
        let ft1 = ft\<lparr>ft_queue := rest, ft_client_ack := ft_client_ack ft + of_nat (length pl)\<rparr>
        in if write_ok then ft1\<lparr>ft_written := ft_written ft1 @ [pl]\<rparr> else task_fail ft1)"

definition task_read :: "bytes option \<Rightarrow> flow_task \<Rightarrow> flow_task" where
  "task_read r ft = (case r of
      None \<Rightarrow> task_fail ft
    | Some data \<Rightarrow>
        if data = [] then task_send (TCP_FIN OR TCP_ACK) [] (ft_server_seq ft + 1) True ft
        else (task_send (TCP_PSH OR TCP_ACK) data (ft_server_seq ft + of_nat (length data)) False ft)\<lparr>ft_read := ft_read ft @ [data]\<rparr>)"

definition task_sent :: "flow_task \<Rightarrow> flow_task" where
  "task_sent ft = (case ft_sending ft of
      None \<Rightarrow> ft
    | Some (pkt, next, ends) \<Rightarrow> ft\<lparr>ft_sending := None, ft_server_seq := next, ft_done := ends, ft_sent := ft_sent ft @ [pkt]\<rparr>)"

section \<open>The table of the TCP bridge\<close>

text \<open>\<open>te_flow\<close> numbers the task of the entry: its payload channel and its sequence counter are the task's.\<close>

record tcp_entry =
  te_flow :: nat
  te_seen :: nat
  te_client_next :: u32

record tcp_table =
  tt_entries :: "(flow \<times> tcp_entry) list"
  tt_idle :: nat
  tt_max :: nat
  tt_tasks :: "flow_task list"

definition tcp_new :: "nat \<Rightarrow> nat \<Rightarrow> tcp_table" where
  "tcp_new idle limit = \<lparr>tt_entries = [], tt_idle = idle, tt_max = max limit 1, tt_tasks = []\<rparr>"

datatype action = To_device bytes | To_flow flow nat bytes | Drop_flow flow

definition send_control :: "socket_addr \<Rightarrow> socket_addr \<Rightarrow> u32 \<Rightarrow> u32 \<Rightarrow> u8 \<Rightarrow> action list" where
  "send_control src dst seq ack flags = (case build_tcp_packet src dst seq ack flags [] of None \<Rightarrow> [] | Some pkt \<Rightarrow> [To_device pkt])"

datatype tcp_error = Missing_metadata | Table_full

definition tcp_open :: "clock \<Rightarrow> flow \<Rightarrow> u32 \<Rightarrow> tcp_table \<Rightarrow> tcp_error option \<times> action list \<times> tcp_table" where
  "tcp_open ck key seq t =
     (let t1 = t\<lparr>tt_entries := make_room te_seen (tt_idle t) (ck_evict ck) (tt_max t) (tt_entries t)\<rparr> in
      if length (tt_entries t1) \<ge> tt_max t1 then (Some Table_full, [], t1)
      else let client_next = seq + 1;
               server_seq = SERVER_ISN XOR ucast (sock_port (fst key));
               task = \<lparr>ft_flow = key, ft_server_seq = server_seq + 1, ft_client_ack = client_next, ft_queue = [], ft_connected = False,
                       ft_sending = None, ft_done = False, ft_written = [], ft_read = [], ft_sent = []\<rparr>;
               entry = \<lparr>te_flow = length (tt_tasks t1), te_seen = ck_now ck, te_client_next = client_next\<rparr>
           in (None, send_control (snd key) (fst key) server_seq client_next (TCP_SYN OR TCP_ACK),
               t1\<lparr>tt_entries := AList.update key entry (tt_entries t1), tt_tasks := tt_tasks t1 @ [task]\<rparr>))"

definition tcp_data :: "clock \<Rightarrow> flow \<Rightarrow> u32 \<Rightarrow> u8 \<Rightarrow> bytes option \<Rightarrow> tcp_table \<Rightarrow> action list \<times> tcp_table" where
  "tcp_data ck key seq flags pl t = (case map_of (tt_entries t) key of
      None \<Rightarrow> ([], t)
    | Some e \<Rightarrow>
        let server_seq = ft_server_seq (tt_tasks t ! te_flow e);
            store = (\<lambda>e'. t\<lparr>tt_entries := AList.update key e' (tt_entries t)\<rparr>);
            e1 = e\<lparr>te_seen := ck_now ck\<rparr> in
        if flags AND TCP_FIN \<noteq> 0
        then (send_control (snd key) (fst key) server_seq (seq + 1) TCP_ACK @ [Drop_flow key], store (e1\<lparr>te_client_next := seq + 1\<rparr>))
        else (case pl of
            None \<Rightarrow> ([], store e1)
          | Some data \<Rightarrow>
              if data = [] then ([], store e1)
              else let next = seq + of_nat (length data)
                   in (send_control (snd key) (fst key) server_seq next TCP_ACK @ [To_flow key (te_flow e) data],
                       store (e1\<lparr>te_client_next := next\<rparr>))))"

definition tcp_forward :: "clock \<Rightarrow> ip_packet \<Rightarrow> bytes \<Rightarrow> tcp_table \<Rightarrow> tcp_error option \<times> action list \<times> tcp_table" where
  "tcp_forward ck p raw t =
     (if p_protocol p \<noteq> Tp_tcp then (None, [], t)
      else case (p_tcp_seq p, p_tcp_flags p) of
        (Some seq, Some flags) \<Rightarrow>
          let key = (packet_client p, packet_remote p) in
          if flags AND TCP_RST \<noteq> 0 then (None, [], t\<lparr>tt_entries := AList.delete key (tt_entries t)\<rparr>)
          else if flags AND TCP_SYN \<noteq> 0 \<and> map_of (tt_entries t) key = None then tcp_open ck key seq t
          else (None, tcp_data ck key seq flags (payload p raw) t)
      | _ \<Rightarrow> (Some Missing_metadata, [], t))"

definition tcp_evict_idle :: "nat \<Rightarrow> tcp_table \<Rightarrow> nat \<times> tcp_table" where
  "tcp_evict_idle now t =
     (let es = evict_idle te_seen (tt_idle t) now (tt_entries t) in (length (tt_entries t) - length es, t\<lparr>tt_entries := es\<rparr>))"

section \<open>The packet loop\<close>

abbreviation (input) "WRITE_CHAN_CAP \<equiv> (1024 :: nat)"
abbreviation (input) "UDP_IDLE_TIMEOUT \<equiv> (60 :: nat)"
abbreviation (input) "TCP_IDLE_TIMEOUT \<equiv> (120 :: nat)"
abbreviation (input) "DEFAULT_MAX_UDP_NAT_ENTRIES \<equiv> (4096 :: nat)"

record tun_loop =
  tl_nat :: nat_table
  tl_tcp :: tcp_table
  tl_pending :: "action list"
  tl_chan :: "bytes list"
  tl_device :: "bytes list"
  tl_closed :: "nat list"
  tl_stopped :: bool

definition tun_start :: tun_loop where
  "tun_start = \<lparr>tl_nat = nat_new UDP_IDLE_TIMEOUT DEFAULT_MAX_UDP_NAT_ENTRIES, tl_tcp = tcp_new TCP_IDLE_TIMEOUT DEFAULT_MAX_TCP_ENTRIES,
     tl_pending = [], tl_chan = [], tl_device = [], tl_closed = [], tl_stopped = False\<rparr>"

definition dispatch :: "clock \<Rightarrow> bool \<Rightarrow> bool \<Rightarrow> bytes \<Rightarrow> tun_loop \<Rightarrow> tun_loop result" where
  "dispatch ck socket_ok send_ok raw s = bindE (parse_ip_packet raw) (\<lambda>r. case r of
      None \<Rightarrow> Inr s
    | Some p \<Rightarrow> (case p_protocol p of
        Tp_udp \<Rightarrow> Inr (if p_dst_port p = 53 then s
                       else s\<lparr>tl_nat := snd (nat_forward ck socket_ok send_ok p raw (tl_nat s))\<rparr>)
      | Tp_tcp \<Rightarrow> (case tcp_forward ck p raw (tl_tcp s) of (_, acts, t) \<Rightarrow> Inr (s\<lparr>tl_tcp := t, tl_pending := acts\<rparr>))
      | Tp_other _ \<Rightarrow> Inr s))"

definition with_task :: "nat \<Rightarrow> (flow_task \<Rightarrow> flow_task) \<Rightarrow> tun_loop \<Rightarrow> tun_loop" where
  "with_task n g s = s\<lparr>tl_tcp := (tl_tcp s)\<lparr>tt_tasks := (tt_tasks (tl_tcp s))[n := g (tt_tasks (tl_tcp s) ! n)]\<rparr>\<rparr>"

abbreviation "task s n \<equiv> tt_tasks (tl_tcp s) ! n"
abbreviation "tasks s \<equiv> length (tt_tasks (tl_tcp s))"

definition drop_flow :: "flow \<Rightarrow> tun_loop \<Rightarrow> tun_loop" where
  "drop_flow key s = s\<lparr>tl_tcp := (tl_tcp s)\<lparr>tt_entries := AList.delete key (tt_entries (tl_tcp s))\<rparr>\<rparr>"

definition has_room :: "tun_loop \<Rightarrow> bool" where
  "has_room s \<longleftrightarrow> length (tl_chan s) < WRITE_CHAN_CAP"

text \<open>The task waits in its select: connected, running and not sending.\<close>

definition task_ready :: "flow_task \<Rightarrow> bool" where
  "task_ready ft \<longleftrightarrow> ft_connected ft \<and> \<not> ft_done ft \<and> ft_sending ft = None"

inductive loop_step :: "tun_loop \<Rightarrow> tun_loop \<Rightarrow> bool" where
  read_packet: "\<not> tl_stopped s \<Longrightarrow> tl_pending s = [] \<Longrightarrow> raw \<noteq> [] \<Longrightarrow> length raw \<le> 65536 \<Longrightarrow>
    dispatch ck socket_ok send_ok raw s = Inr s' \<Longrightarrow> loop_step s s'"
| write_packet: "\<not> tl_stopped s \<Longrightarrow> tl_pending s = [] \<Longrightarrow> tl_chan s = pkt # rest \<Longrightarrow>
    loop_step s (s\<lparr>tl_chan := rest, tl_device := (if write_ok then tl_device s @ [pkt] else tl_device s)\<rparr>)"
| evict_tick: "\<not> tl_stopped s \<Longrightarrow> tl_pending s = [] \<Longrightarrow>
    loop_step s (s\<lparr>tl_nat := snd (nat_evict_idle now (tl_nat s)), tl_tcp := snd (tcp_evict_idle now' (tl_tcp s))\<rparr>)"
| stop: "\<not> tl_stopped s \<Longrightarrow> tl_pending s = [] \<Longrightarrow> loop_step s (s\<lparr>tl_stopped := True\<rparr>)"
| queue_packet: "tl_pending s = To_device pkt # rest \<Longrightarrow> has_room s \<Longrightarrow>
    loop_step s (s\<lparr>tl_pending := rest, tl_chan := tl_chan s @ [pkt]\<rparr>)"
| queue_payload: "tl_pending s = To_flow key n data # rest \<Longrightarrow> \<not> ft_done (task s n) \<Longrightarrow> length (ft_queue (task s n)) < FLOW_CHAN_CAP \<Longrightarrow>
    loop_step s ((with_task n (\<lambda>ft. ft\<lparr>ft_queue := ft_queue ft @ [data]\<rparr>) s)\<lparr>tl_pending := rest\<rparr>)"
| queue_closed: "tl_pending s = To_flow key n data # rest \<Longrightarrow> ft_done (task s n) \<Longrightarrow>
    loop_step s ((drop_flow key s)\<lparr>tl_pending := rest\<rparr>)"
| remove_flow: "tl_pending s = Drop_flow key # rest \<Longrightarrow> loop_step s ((drop_flow key s)\<lparr>tl_pending := rest\<rparr>)"
| udp_response: "\<not> tl_stopped s \<Longrightarrow> (n, client, remote) \<in> set (nt_opened (tl_nat s)) \<Longrightarrow> n \<notin> set (tl_closed s) \<Longrightarrow> has_room s \<Longrightarrow>
    build_response_packet client remote (take 65535 dgram) = Some pkt \<Longrightarrow>
    loop_step s (s\<lparr>tl_chan := tl_chan s @ [pkt]\<rparr>)"
| udp_reader_exit: "(n, key) \<in> set (nt_opened (tl_nat s)) \<Longrightarrow> loop_step s (s\<lparr>tl_closed := n # tl_closed s\<rparr>)"
| flow_connect: "n < tasks s \<Longrightarrow> \<not> ft_connected (task s n) \<Longrightarrow> \<not> ft_done (task s n) \<Longrightarrow> ft_sending (task s n) = None \<Longrightarrow>
    loop_step s (with_task n (task_connect reply) s)"
| flow_payload: "n < tasks s \<Longrightarrow> task_ready (task s n) \<Longrightarrow> ft_queue (task s n) \<noteq> [] \<Longrightarrow>
    loop_step s (with_task n (task_payload write_ok) s)"
| flow_read: "n < tasks s \<Longrightarrow> task_ready (task s n) \<Longrightarrow> (case r of None \<Rightarrow> True | Some data \<Rightarrow> length data \<le> 16384) \<Longrightarrow>
    loop_step s (with_task n (task_read r) s)"
| flow_sent: "n < tasks s \<Longrightarrow> \<not> tl_stopped s \<Longrightarrow> ft_sending (task s n) = Some (pkt, nxt, ends) \<Longrightarrow> has_room s \<Longrightarrow>
    loop_step s ((with_task n task_sent s)\<lparr>tl_chan := tl_chan s @ [pkt]\<rparr>)"
| flow_cancel: "n < tasks s \<Longrightarrow> task_ready (task s n) \<Longrightarrow> n \<notin> te_flow ` snd ` set (tt_entries (tl_tcp s)) \<Longrightarrow>
    loop_step s (with_task n (\<lambda>ft. ft\<lparr>ft_done := True\<rparr>) s)"

inductive_cases loop_stepE: "loop_step s s'"

abbreviation "loop_reaches \<equiv> loop_step\<^sup>*\<^sup>*"

section \<open>A full device queue blocks the loop\<close>

definition blocked :: "tun_loop \<Rightarrow> bool" where
  "blocked s \<longleftrightarrow> (\<exists>pkt rest. tl_pending s = To_device pkt # rest) \<and> \<not> has_room s \<and> \<not> tl_stopped s"

lemma with_task_simps [simp]:
  "tl_pending (with_task n g s) = tl_pending s" "tl_chan (with_task n g s) = tl_chan s" "tl_device (with_task n g s) = tl_device s"
  "tl_stopped (with_task n g s) = tl_stopped s" "tl_nat (with_task n g s) = tl_nat s" "tl_closed (with_task n g s) = tl_closed s"
  "tasks (with_task n g s) = tasks s" "tt_entries (tl_tcp (with_task n g s)) = tt_entries (tl_tcp s)"
  "n < tasks s \<Longrightarrow> task (with_task n g s) n = g (task s n)" "has_room (with_task n g s) = has_room s"
  by (simp_all add: with_task_def has_room_def)

lemma blocked_step: "loop_step s s' \<Longrightarrow> blocked s \<Longrightarrow> blocked s' \<and> tl_pending s' = tl_pending s \<and> tl_device s' = tl_device s"
  by (erule loop_step.cases) (auto simp: blocked_def has_room_def)

lemma blocked_forever: "loop_reaches s s' \<Longrightarrow> blocked s \<Longrightarrow> blocked s' \<and> tl_pending s' = tl_pending s \<and> tl_device s' = tl_device s"
  by (induction rule: rtranclp_induct) (use blocked_step in fastforce)+

fun same_family :: "socket_addr \<Rightarrow> socket_addr \<Rightarrow> bool" where
  "same_family (SocketAddr (V4 _) _) (SocketAddr (V4 _) _) \<longleftrightarrow> True"
| "same_family (SocketAddr (V6 _) _) (SocketAddr (V6 _) _) \<longleftrightarrow> True"
| "same_family _ _ \<longleftrightarrow> False"

lemma tcp_packet_built:
  assumes "same_family src dst" and "length pl \<le> 16384"
  shows "\<exists>pkt. build_tcp_packet src dst seq ack flags pl = Some pkt \<and> 20 \<le> length pkt \<and> length pkt \<le> 65536"
  using assms
  by (induction src dst rule: same_family.induct) (simp_all add: build_ipv4_tcp_layout build_ipv6_tcp_layout)

abbreviation (input) "client0 \<equiv> SocketAddr (V4 0x0A000001) 40000"
abbreviation (input) "remote0 \<equiv> SocketAddr (V4 0x5DB8D822) 443"

text \<open>One connected flow, nothing left to await and \<open>k\<close> packets in the device queue.\<close>

definition primed :: "nat \<Rightarrow> tun_loop \<Rightarrow> bool" where
  "primed k s \<longleftrightarrow> \<not> tl_stopped s \<and> tl_pending s = [] \<and> length (tl_chan s) = k \<and> tasks s = 1 \<and> task_ready (task s 0)
     \<and> ft_flow (task s 0) = (client0, remote0) \<and> Suc (length (ft_sent (task s 0))) = k
     \<and> (\<exists>e. map_of (tt_entries (tl_tcp s)) (client0, remote0) = Some e)"

lemma dispatch_tcp:
  assumes "parse_ip_packet raw = Inr (Some p)" and "flow_is p Tp_tcp client remote"
    and "p_tcp_seq p = Some seq" and "p_tcp_flags p = Some flags" and "flags AND TCP_RST = 0"
  shows "dispatch ck socket_ok send_ok raw s =
    (if flags AND TCP_SYN \<noteq> 0 \<and> map_of (tt_entries (tl_tcp s)) (client, remote) = None
     then (case tcp_open ck (client, remote) seq (tl_tcp s) of (_, acts, t) \<Rightarrow> Inr (s\<lparr>tl_tcp := t, tl_pending := acts\<rparr>))
     else (case tcp_data ck (client, remote) seq flags (payload p raw) (tl_tcp s) of (acts, t) \<Rightarrow> Inr (s\<lparr>tl_tcp := t, tl_pending := acts\<rparr>)))"
  using assms by (auto simp: dispatch_def bindE_def flow_is_def tcp_forward_def packet_client_def packet_remote_def Let_def split: prod.split)

lemma primed_1: "\<exists>s. loop_reaches tun_start s \<and> primed 1 s"
proof -
  obtain raw where raw: "build_tcp_packet client0 remote0 7 0 TCP_SYN [] = Some raw" "20 \<le> length raw" "length raw \<le> 65536"
    using tcp_packet_built [of client0 remote0 "[]" 7 0 TCP_SYN] by auto
  obtain p where p: "parse_ip_packet raw = Inr (Some p)" "flow_is p Tp_tcp client0 remote0" "p_tcp_seq p = Some 7" "p_tcp_flags p = Some TCP_SYN"
    using parse_built_tcp [OF raw(1)] by auto
  obtain ack where ack: "send_control remote0 client0 (SERVER_ISN XOR 40000) 8 (TCP_SYN OR TCP_ACK) = [To_device ack]"
    using tcp_packet_built [of remote0 client0 "[]" "SERVER_ISN XOR 40000" 8 "TCP_SYN OR TCP_ACK"] by (auto simp: send_control_def)
  define s1 where "s1 = tun_start\<lparr>tl_tcp := snd (snd (tcp_open \<lparr>ck_now = 0, ck_evict = 0\<rparr> (client0, remote0) 7 (tl_tcp tun_start))), tl_pending := [To_device ack]\<rparr>"
  have "dispatch \<lparr>ck_now = 0, ck_evict = 0\<rparr> True True raw tun_start = Inr s1"
    using ack by (subst dispatch_tcp [OF p])
      (simp_all add: s1_def tun_start_def tcp_new_def tcp_open_def make_room_def evict_idle_def Let_def)
  then have step1: "loop_step tun_start s1"
    using raw(2,3) by (intro read_packet [of _ raw]) (auto simp: tun_start_def)
  define s2 where "s2 = s1\<lparr>tl_pending := [], tl_chan := tl_chan s1 @ [ack]\<rparr>"
  have step2: "loop_step s1 s2" unfolding s2_def by (rule queue_packet) (simp_all add: s1_def tun_start_def has_room_def)
  define s3 where "s3 = with_task 0 (task_connect (Some [5, 0, 5, 0, 0, 1, 0, 0, 0, 0, 0, 0])) s2"
  have step3: "loop_step s2 s3"
    unfolding s3_def
    by (rule flow_connect) (simp_all add: s2_def s1_def tun_start_def tcp_new_def tcp_open_def make_room_def evict_idle_def Let_def)
  have "primed 1 s3"
    by (simp add: primed_def s3_def s2_def s1_def tun_start_def tcp_new_def tcp_open_def make_room_def evict_idle_def Let_def with_task_def
        task_connect_def connect_local_socks_def read_socks_reply_def rbind_def read_exact_def rret_def task_ready_def)
  with step1 step2 step3 show ?thesis by (meson rtranclp.rtrancl_into_rtrancl rtranclp.rtrancl_refl)
qed

lemma primed_more:
  assumes "primed k s" and "k < 1024"
  shows "\<exists>s'. loop_reaches s s' \<and> primed (Suc k) s'"
proof -
  define ft where "ft = task s 0"
  have ft: "ft_flow ft = (client0, remote0)" "task_ready ft" and n: "0 < tasks s" using assms(1) by (auto simp: primed_def ft_def)
  obtain pkt where pkt: "build_tcp_packet remote0 client0 (ft_server_seq ft) (ft_client_ack ft) (TCP_PSH OR TCP_ACK) [0] = Some pkt"
    using tcp_packet_built [of remote0 client0 "[0]"] by fastforce
  define s1 where "s1 = with_task 0 (task_read (Some [0])) s"
  have read: "task s1 0 = ft\<lparr>ft_sending := Some (pkt, ft_server_seq ft + 1, False), ft_read := ft_read ft @ [[0]]\<rparr>"
    using pkt ft n by (simp add: s1_def ft_def [symmetric] task_read_def task_send_def)
  have step1: "loop_step s s1" unfolding s1_def using ft n by (intro flow_read) (simp_all add: ft_def)
  define s2 where "s2 = (with_task 0 task_sent s1)\<lparr>tl_chan := tl_chan s1 @ [pkt]\<rparr>"
  have n1: "0 < tasks s1" and chan: "length (tl_chan s1) = k" and run: "\<not> tl_stopped s1" using assms(1) by (simp_all add: s1_def primed_def)
  have step2: "loop_step s1 s2"
    unfolding s2_def using n1 chan assms(2) run by (intro flow_sent) (auto simp: read has_room_def)
  have "task s2 0 = task_sent (task s1 0)" using n1 by (simp add: s2_def)
  moreover have "Suc (length (ft_sent ft)) = k" using assms(1) by (simp add: primed_def ft_def)
  ultimately have "ft_flow (task s2 0) = (client0, remote0)" and "task_ready (task s2 0)" and "length (ft_sent (task s2 0)) = k"
    using ft by (simp_all add: read task_sent_def task_ready_def)
  moreover have "length (tl_chan s2) = Suc k" and "tl_pending s2 = []" and "\<not> tl_stopped s2" and "tasks s2 = 1"
    and "tt_entries (tl_tcp s2) = tt_entries (tl_tcp s)"
    using assms(1) by (simp_all add: s2_def s1_def primed_def)
  ultimately have "primed (Suc k) s2" using assms(1) by (simp add: primed_def)
  then show ?thesis using step1 step2 by (meson converse_rtranclp_into_rtranclp rtranclp.rtrancl_refl)
qed

lemma primed_full: "k < 1024 \<Longrightarrow> \<exists>s. loop_reaches tun_start s \<and> primed (Suc k) s"
proof (induction k)
  case 0
  then show ?case using primed_1 by simp
next
  case (Suc k)
  then obtain s where s: "loop_reaches tun_start s" "primed (Suc k) s" by auto
  with primed_more [OF s(2) Suc.prems] show ?case by (meson rtranclp_trans)
qed

lemma primed_blocks:
  assumes "primed 1024 s"
  shows "\<exists>s'. loop_step s s' \<and> blocked s'"
proof -
  obtain e where e: "map_of (tt_entries (tl_tcp s)) (client0, remote0) = Some e" using assms by (auto simp: primed_def)
  obtain raw where raw: "build_tcp_packet client0 remote0 8 0 TCP_ACK [1] = Some raw" "20 \<le> length raw" "length raw \<le> 65536"
    using tcp_packet_built [of client0 remote0 "[1]" 8 0 TCP_ACK] by auto
  obtain p where p: "parse_ip_packet raw = Inr (Some p)" "flow_is p Tp_tcp client0 remote0" "p_tcp_seq p = Some 8" "p_tcp_flags p = Some TCP_ACK"
      "payload p raw = Some [1]"
    using parse_built_tcp [OF raw(1)] by auto
  obtain ack where ack: "send_control remote0 client0 (ft_server_seq (tt_tasks (tl_tcp s) ! te_flow e)) 9 TCP_ACK = [To_device ack]"
    using tcp_packet_built [of remote0 client0 "[]" "ft_server_seq (tt_tasks (tl_tcp s) ! te_flow e)" 9 TCP_ACK] by (auto simp: send_control_def)
  define t where "t = snd (tcp_data \<lparr>ck_now = 0, ck_evict = 0\<rparr> (client0, remote0) 8 TCP_ACK (Some [1]) (tl_tcp s))"
  have "dispatch \<lparr>ck_now = 0, ck_evict = 0\<rparr> True True raw s =
      Inr (s\<lparr>tl_tcp := t, tl_pending := [To_device ack, To_flow (client0, remote0) (te_flow e) [1]]\<rparr>)"
    using ack e p(5) by (subst dispatch_tcp [OF p(1-4)]) (simp_all add: tcp_data_def Let_def t_def)
  with assms raw(2,3) have "loop_step s (s\<lparr>tl_tcp := t, tl_pending := [To_device ack, To_flow (client0, remote0) (te_flow e) [1]]\<rparr>)"
    by (intro read_packet [of _ raw]) (auto simp: primed_def)
  moreover have "blocked (s\<lparr>tl_tcp := t, tl_pending := [To_device ack, To_flow (client0, remote0) (te_flow e) [1]]\<rparr>)"
    using assms by (simp add: blocked_def primed_def has_room_def)
  ultimately show ?thesis by blast
qed



section \<open>Segments are not matched against the stream\<close>

lemma tcp_forward_known:
  assumes "map_of (tt_entries t) (packet_client p, packet_remote p) = Some e"
    and "p_protocol p = Tp_tcp" and "p_tcp_seq p = Some seq" and "p_tcp_flags p = Some flags" and "flags AND TCP_RST = 0"
  shows "tcp_forward ck p raw t = (None, tcp_data ck (packet_client p, packet_remote p) seq flags (payload p raw) t)"
  using assms by (simp add: tcp_forward_def Let_def)

text \<open>
  The bridge does not compare a segment's sequence number with what it has received. A data segment that the
  client sends again for a known flow is acknowledged and handed to the local proxy again, so a retransmission duplicates
  bytes in the proxied stream; and a segment that carries data with its FIN loses the data: only the FIN is acknowledged,
  at the sequence number after the segment's first, and the flow is dropped.
\<close>

theorem tcp_bridge_ignores_sequence:
  assumes "map_of (tt_entries t) (packet_client p, packet_remote p) = Some e"
    and "p_protocol p = Tp_tcp" and "p_tcp_seq p = Some seq" and "p_tcp_flags p = Some flags" and "flags AND TCP_RST = 0"
    and "payload p raw = Some data" and "data \<noteq> []"
    and "tcp_forward ck p raw t = (err, acts, t1)" and "tcp_forward ck' p raw t1 = (err', acts', t2)"
  shows "if flags AND TCP_FIN = 0
    then To_flow (packet_client p, packet_remote p) (te_flow e) data \<in> set acts \<and> acts' = acts
    else acts = send_control (packet_remote p) (packet_client p) (ft_server_seq (tt_tasks t ! te_flow e)) (seq + 1) TCP_ACK
           @ [Drop_flow (packet_client p, packet_remote p)]"
proof -
  let ?key = "(packet_client p, packet_remote p)"
  have first: "(err, acts, t1) = (None, tcp_data ck ?key seq flags (Some data) t)"
    using tcp_forward_known [OF assms(1-5), of ck raw] assms(6,8) by simp
  show ?thesis
  proof (cases "flags AND TCP_FIN = 0")
    case True
    then have t1: "t1 = t\<lparr>tt_entries := AList.update ?key (e\<lparr>te_seen := ck_now ck, te_client_next := seq + of_nat (length data)\<rparr>) (tt_entries t)\<rparr>"
      and acts: "acts = send_control (packet_remote p) (packet_client p) (ft_server_seq (tt_tasks t ! te_flow e)) (seq + of_nat (length data)) TCP_ACK
           @ [To_flow ?key (te_flow e) data]"
      using first assms(1,7) by (simp_all add: tcp_data_def Let_def)
    have known: "map_of (tt_entries t1) ?key = Some (e\<lparr>te_seen := ck_now ck, te_client_next := seq + of_nat (length data)\<rparr>)"
      by (simp add: t1 update_conv')
    have "acts' = acts"
      using tcp_forward_known [OF known assms(2-5), of ck' raw] assms(6,7,9) True known
      by (simp add: tcp_data_def Let_def acts t1)
    then show ?thesis using True acts by simp
  next
    case False
    then show ?thesis using first assms(1) by (simp add: tcp_data_def Let_def)
  qed
qed

theorem tcp_bridge_ignores_sequence_witness:
  "\<exists>t1 t2 acts err err'. tcp_forward \<lparr>ck_now = 1, ck_evict = 1\<rparr>
      \<lparr>p_src = V4 1, p_dst = V4 3, p_src_port = 2, p_dst_port = 4, p_protocol = Tp_tcp, p_header_len = 20,
       p_payload_offset = 0, p_transport_offset = 0, p_payload_len = 2, p_tcp_seq = Some 7, p_tcp_ack = Some 0, p_tcp_flags = Some 16\<rparr>
      [8, 9] (snd (snd (tcp_open \<lparr>ck_now = 0, ck_evict = 0\<rparr> (SocketAddr (V4 1) 2, SocketAddr (V4 3) 4) 6 (tcp_new 120 8)))) = (err, acts, t1)
    \<and> tcp_forward \<lparr>ck_now = 2, ck_evict = 2\<rparr>
      \<lparr>p_src = V4 1, p_dst = V4 3, p_src_port = 2, p_dst_port = 4, p_protocol = Tp_tcp, p_header_len = 20,
       p_payload_offset = 0, p_transport_offset = 0, p_payload_len = 2, p_tcp_seq = Some 7, p_tcp_ack = Some 0, p_tcp_flags = Some 16\<rparr>
      [8, 9] t1 = (err', acts, t2)
    \<and> To_flow (SocketAddr (V4 1) 2, SocketAddr (V4 3) 4) 0 [8, 9] \<in> set acts"
proof -
  let ?p = "\<lparr>p_src = V4 1, p_dst = V4 3, p_src_port = 2, p_dst_port = 4, p_protocol = Tp_tcp, p_header_len = 20,
       p_payload_offset = 0, p_transport_offset = 0, p_payload_len = 2, p_tcp_seq = Some 7, p_tcp_ack = Some 0, p_tcp_flags = Some 16\<rparr>"
  define t where "t = snd (snd (tcp_open \<lparr>ck_now = 0, ck_evict = 0\<rparr> (SocketAddr (V4 1) 2, SocketAddr (V4 3) 4) 6 (tcp_new 120 8)))"
  have known: "map_of (tt_entries t) (packet_client ?p, packet_remote ?p) = Some \<lparr>te_flow = 0, te_seen = 0, te_client_next = 7\<rparr>"
    by (simp add: t_def tcp_open_def tcp_new_def make_room_def evict_idle_def Let_def packet_client_def packet_remote_def)
  obtain err acts t1 where f1: "tcp_forward \<lparr>ck_now = 1, ck_evict = 1\<rparr> ?p [8, 9] t = (err, acts, t1)" by (rule prod_cases3)
  obtain err' acts' t2 where f2: "tcp_forward \<lparr>ck_now = 2, ck_evict = 2\<rparr> ?p [8, 9] t1 = (err', acts', t2)" by (rule prod_cases3)
  have pl: "payload ?p [8, 9] = Some [8, 9]" by (simp add: payload_def)
  have "To_flow (packet_client ?p, packet_remote ?p) 0 [8, 9] \<in> set acts \<and> acts' = acts"
    using tcp_bridge_ignores_sequence [OF known _ _ _ _ pl _ f1 f2, of 7 16] by simp
  with f1 f2 show ?thesis unfolding t_def packet_client_def packet_remote_def by auto
qed

end
