(* ===== verification/TunLoop.thy ===== *)
theory TunLoop
  imports TunBridge
begin

text \<open>
  Invariants of the TUN packet loop of \<open>TunBridge\<close>: the flow tables stay well formed and bounded, every packet on its way to
  the device answers a flow that the client opened, and the packets of a bridged TCP flow form one gapless stream.
\<close>

section \<open>The packets of a bridged flow\<close>

definition first_seq :: "flow_task \<Rightarrow> u32" where
  "first_seq ft = (SERVER_ISN XOR ucast (sock_port (fst (ft_flow ft)))) + 1"

definition seq_at :: "flow_task \<Rightarrow> nat \<Rightarrow> u32" where
  "seq_at ft i = first_seq ft + of_nat (length (concat (take i (ft_read ft))))"

definition chunk_at :: "flow_task \<Rightarrow> nat \<Rightarrow> bytes" where
  "chunk_at ft i = (if i < length (ft_read ft) then ft_read ft ! i else [])"

definition is_segment :: "flow_task \<Rightarrow> nat \<Rightarrow> bytes \<Rightarrow> bool" where
  "is_segment ft i pkt \<longleftrightarrow> (\<exists>p. parse_ip_packet pkt = Inr (Some p) \<and> flow_is p Tp_tcp (snd (ft_flow ft)) (fst (ft_flow ft))
     \<and> p_tcp_seq p = Some (seq_at ft i) \<and> payload p pkt = Some (chunk_at ft i))"

definition task_inv :: "flow_task \<Rightarrow> bool" where
  "task_inv ft \<longleftrightarrow> same_family (fst (ft_flow ft)) (snd (ft_flow ft)) \<and> length (ft_queue ft) \<le> FLOW_CHAN_CAP
     \<and> (\<forall>i<length (ft_sent ft). is_segment ft i (ft_sent ft ! i))
     \<and> (case ft_sending ft of
          None \<Rightarrow> \<not> ft_done ft \<longrightarrow> length (ft_sent ft) = length (ft_read ft) \<and> ft_server_seq ft = seq_at ft (length (ft_read ft))
        | Some (pkt, next, ends) \<Rightarrow> \<not> ft_done ft \<and> is_segment ft (length (ft_sent ft)) pkt
            \<and> (if ends then length (ft_sent ft) = length (ft_read ft)
               else Suc (length (ft_sent ft)) = length (ft_read ft) \<and> next = seq_at ft (length (ft_read ft))))"

lemma same_family_sym: "same_family a b \<Longrightarrow> same_family b a"
  by (induction a b rule: same_family.induct) simp_all

lemma segment_cong:
  assumes "ft_flow ft' = ft_flow ft" and "ft_read ft' = ft_read ft"
  shows "is_segment ft' i = is_segment ft i" and "seq_at ft' i = seq_at ft i"
  using assms by (simp_all add: is_segment_def seq_at_def first_seq_def chunk_at_def fun_eq_iff)

text \<open>A packet the task builds at its counter is the next segment.\<close>

lemma built_is_segment:
  assumes "build_tcp_packet (snd (ft_flow ft)) (fst (ft_flow ft)) (seq_at ft i) ack flags (chunk_at ft i) = Some pkt"
  shows "is_segment ft i pkt"
  using parse_built_tcp [OF assms] by (auto simp: is_segment_def)

lemma task_builds:
  assumes "task_inv ft" and "length pl \<le> 16384"
  shows "\<exists>pkt. build_tcp_packet (snd (ft_flow ft)) (fst (ft_flow ft)) seq ack flags pl = Some pkt"
proof -
  have "same_family (snd (ft_flow ft)) (fst (ft_flow ft))" using assms(1) by (auto simp: task_inv_def intro: same_family_sym)
  from tcp_packet_built [OF this assms(2)] show ?thesis by blast
qed

lemma idle_task:
  assumes "task_inv ft" and "ft_sending ft = None" and "\<not> ft_done ft"
  shows "length (ft_sent ft) = length (ft_read ft)" and "ft_server_seq ft = seq_at ft (length (ft_read ft))"
  using assms by (simp_all add: task_inv_def)

lemma task_control_inv:
  assumes "task_inv ft" and "ft_sending ft = None" and "\<not> ft_done ft"
  shows "task_inv (task_send flags [] next True ft)"
proof -
  obtain pkt where pkt: "build_tcp_packet (snd (ft_flow ft)) (fst (ft_flow ft)) (ft_server_seq ft) (ft_client_ack ft) flags [] = Some pkt"
    using task_builds [OF assms(1), of "[]" "ft_server_seq ft" "ft_client_ack ft" flags] by auto
  have "is_segment ft (length (ft_read ft)) pkt"
    by (rule built_is_segment) (use pkt idle_task(2) [OF assms] in \<open>simp add: chunk_at_def\<close>)
  moreover have "is_segment (ft\<lparr>ft_sending := x\<rparr>) i = is_segment ft i" for x i by (rule segment_cong) simp_all
  moreover have "task_send flags [] next True ft = ft\<lparr>ft_sending := Some (pkt, next, True)\<rparr>" by (simp add: task_send_def pkt)
  ultimately show ?thesis using assms idle_task(1) [OF assms] by (simp add: task_inv_def)
qed

lemma task_fail_inv:
  assumes "task_inv ft" and "ft_sending ft = None" and "\<not> ft_done ft"
  shows "task_inv (task_fail ft)"
  unfolding task_fail_def by (rule task_control_inv [OF assms])

lemma task_inv_cong:
  assumes "task_inv ft" and "ft_flow ft' = ft_flow ft" and "ft_read ft' = ft_read ft" and "ft_sent ft' = ft_sent ft"
    and "ft_sending ft' = ft_sending ft" and "ft_server_seq ft' = ft_server_seq ft" and "ft_done ft' = ft_done ft"
    and "length (ft_queue ft') \<le> FLOW_CHAN_CAP"
  shows "task_inv ft'"
  using assms segment_cong [OF assms(2,3)] by (cases "ft_sending ft") (simp_all add: task_inv_def split: prod.splits)

lemma task_connect_inv:
  assumes "task_inv ft" and "ft_sending ft = None" and "\<not> ft_done ft"
  shows "task_inv (task_connect reply ft)"
proof -
  have "length (ft_queue ft) \<le> 256" using assms(1) by (simp add: task_inv_def)
  then have "task_inv (ft\<lparr>ft_connected := True, ft_written := x\<rparr>)" for x by (intro task_inv_cong [OF assms(1)]) simp_all
  then show ?thesis using task_fail_inv [OF assms] by (simp add: task_connect_def split: option.split sum.split)
qed

lemma task_payload_inv:
  assumes "task_inv ft" and "ft_sending ft = None" and "\<not> ft_done ft"
  shows "task_inv (task_payload write_ok ft)"
proof (cases "ft_queue ft")
  case (Cons pl rest)
  have len: "length rest \<le> 256" using assms(1) by (simp add: task_inv_def Cons)
  define ft1 where "ft1 = ft\<lparr>ft_queue := rest, ft_client_ack := ft_client_ack ft + of_nat (length pl)\<rparr>"
  have inv: "task_inv ft1" "task_inv (ft1\<lparr>ft_written := x\<rparr>)" for x
    by (rule task_inv_cong [OF assms(1)]; use len in \<open>simp add: ft1_def\<close>)+
  have "task_inv (task_fail ft1)" by (rule task_fail_inv) (use inv assms in \<open>simp_all add: ft1_def\<close>)
  then show ?thesis using inv by (simp add: task_payload_def Cons ft1_def [symmetric])
qed (use assms in \<open>simp add: task_payload_def\<close>)

lemma segment_before_read:
  assumes "ft_flow ft' = ft_flow ft" and "ft_read ft' = ft_read ft @ [data]" and "i < length (ft_read ft)"
  shows "is_segment ft' i = is_segment ft i"
  using assms by (simp add: is_segment_def seq_at_def first_seq_def chunk_at_def nth_append fun_eq_iff)

lemma task_data_inv:
  assumes inv: "task_inv ft" and idle: "ft_sending ft = None" "\<not> ft_done ft" and data: "length data \<le> 16384"
  shows "task_inv ((task_send flags data (ft_server_seq ft + of_nat (length data)) False ft)\<lparr>ft_read := ft_read ft @ [data]\<rparr>)"
proof -
  let ?n = "length (ft_read ft)"
  obtain pkt where pkt: "build_tcp_packet (snd (ft_flow ft)) (fst (ft_flow ft)) (ft_server_seq ft) (ft_client_ack ft) flags data = Some pkt"
    using task_builds [OF inv data, of "ft_server_seq ft" "ft_client_ack ft" flags] by auto
  define ft' where "ft' = ft\<lparr>ft_sending := Some (pkt, ft_server_seq ft + of_nat (length data), False), ft_read := ft_read ft @ [data]\<rparr>"
  have flow: "ft_flow ft' = ft_flow ft" and read: "ft_read ft' = ft_read ft @ [data]"
    and sel: "ft_queue ft' = ft_queue ft" "ft_sent ft' = ft_sent ft" "ft_done ft' = ft_done ft"
      "ft_sending ft' = Some (pkt, ft_server_seq ft + of_nat (length data), False)"
    by (simp_all add: ft'_def)
  have seq: "ft_server_seq ft = seq_at ft' ?n" "ft_server_seq ft + of_nat (length data) = seq_at ft' (Suc ?n)" and chunk: "chunk_at ft' ?n = data"
    unfolding idle_task(2) [OF inv idle] by (simp_all add: seq_at_def first_seq_def flow read chunk_at_def)
  have "is_segment ft' ?n pkt" by (rule built_is_segment) (use pkt seq(1) chunk flow in simp)
  moreover have "is_segment ft' i (ft_sent ft ! i)" if "i < ?n" for i
    using inv that idle_task(1) [OF inv idle] segment_before_read [OF flow read that] by (simp add: task_inv_def)
  ultimately have "task_inv ft'"
    using inv idle idle_task(1) [OF inv idle] seq(2) unfolding task_inv_def flow read sel by simp
  then show ?thesis by (simp add: task_send_def pkt ft'_def)
qed

lemma task_read_inv:
  assumes "task_inv ft" and "ft_sending ft = None" and "\<not> ft_done ft" and "case r of None \<Rightarrow> True | Some data \<Rightarrow> length data \<le> 16384"
  shows "task_inv (task_read r ft)"
  using assms(4) task_fail_inv [OF assms(1-3)] task_control_inv [OF assms(1-3)] task_data_inv [OF assms(1-3)]
  by (simp add: task_read_def split: option.split option.splits)

lemma task_sent_inv:
  assumes inv: "task_inv ft" and sending: "ft_sending ft = Some (pkt, nxt, ends)"
  shows "task_inv (task_sent ft)"
proof -
  define ft' where "ft' = ft\<lparr>ft_sending := None, ft_server_seq := nxt, ft_done := ends, ft_sent := ft_sent ft @ [pkt]\<rparr>"
  have sel: "ft_flow ft' = ft_flow ft" "ft_read ft' = ft_read ft" "ft_queue ft' = ft_queue ft" "ft_sent ft' = ft_sent ft @ [pkt]"
      "ft_sending ft' = None" "ft_done ft' = ends" "ft_server_seq ft' = nxt"
    by (simp_all add: ft'_def)
  have "is_segment ft i ((ft_sent ft @ [pkt]) ! i)" if "i < Suc (length (ft_sent ft))" for i
    using inv that by (cases "i = length (ft_sent ft)") (auto simp: task_inv_def sending nth_append)
  then have "task_inv ft'"
    using inv by (simp add: task_inv_def sel segment_cong [OF sel(1,2)] sending split: if_splits)
  then show ?thesis by (simp add: task_sent_def sending ft'_def)
qed

lemma task_cancel_inv:
  assumes "task_inv ft" and "ft_sending ft = None"
  shows "task_inv (ft\<lparr>ft_done := True\<rparr>)"
proof -
  have "is_segment (ft\<lparr>ft_done := True\<rparr>) i = is_segment ft i" for i by (rule segment_cong) simp_all
  then show ?thesis using assms by (simp add: task_inv_def)
qed

section \<open>Well-formed loop states\<close>

lemma finish_addresses: "finish buf src dst proto header_len off tot tr = Inr (Some p) \<Longrightarrow> p_src p = src \<and> p_dst p = dst"
  by (cases tr) (auto simp: finish_def bindE_eq_Inr)

lemma bindE_InrE: "bindE m f = Inr b \<Longrightarrow> (\<And>a. m = Inr a \<Longrightarrow> f a = Inr b \<Longrightarrow> R) \<Longrightarrow> R"
  by (auto simp: bindE_eq_Inr)

lemma if_NoneE: "(if c then Inr None else x) = Inr (Some p) \<Longrightarrow> (x = Inr (Some p) \<Longrightarrow> R) \<Longrightarrow> R"
  by (auto split: if_splits)

lemma option_NoneE: "(case r of None \<Rightarrow> Inr None | Some v \<Rightarrow> f v) = Inr (Some p) \<Longrightarrow> (\<And>v. f v = Inr (Some p) \<Longrightarrow> R) \<Longrightarrow> R"
  by (cases r) auto

lemma walk_cases:
  "(case w of Truncated \<Rightarrow> Inr None | Unknown h off \<Rightarrow> f h off | Transport h off \<Rightarrow> g h off) = Inr (Some p) \<Longrightarrow>
    (\<And>h off. f h off = Inr (Some p) \<Longrightarrow> R) \<Longrightarrow> (\<And>h off. g h off = Inr (Some p) \<Longrightarrow> R) \<Longrightarrow> R"
  by (cases w) auto

lemma parse_ipv4_addresses: "parse_ipv4 buf = Inr (Some p) \<Longrightarrow> \<exists>a b. p_src p = V4 a \<and> p_dst p = V4 b"
  unfolding parse_ipv4_def Let_def
  by (elim if_NoneE bindE_InrE option_NoneE) (drule finish_addresses, blast)

lemma parse_ipv6_addresses: "parse_ipv6 buf = Inr (Some p) \<Longrightarrow> \<exists>a b. p_src p = V6 a \<and> p_dst p = V6 b"
  unfolding parse_ipv6_def Let_def
  by (elim if_NoneE bindE_InrE walk_cases option_NoneE) (force, drule finish_addresses, blast)

lemma if_versions: "(if c then x else if d then y else Inr None) = Inr (Some p) \<Longrightarrow> x = Inr (Some p) \<or> y = Inr (Some p)"
  by (auto split: if_splits)

lemma parse_same_family:
  assumes "parse_ip_packet raw = Inr (Some p)"
  shows "same_family (packet_client p) (packet_remote p)"
proof -
  have "parse_ipv4 raw = Inr (Some p) \<or> parse_ipv6 raw = Inr (Some p)"
    using assms unfolding parse_ip_packet_def by (elim if_NoneE bindE_InrE) (rule if_versions)
  then have "(\<exists>a b. p_src p = V4 a \<and> p_dst p = V4 b) \<or> (\<exists>a b. p_src p = V6 a \<and> p_dst p = V6 b)"
    by (blast dest: parse_ipv4_addresses parse_ipv6_addresses)
  then show ?thesis by (auto simp: packet_client_def packet_remote_def)
qed

definition flows :: "tun_loop \<Rightarrow> (transport_protocol \<times> flow) set" where
  "flows s = Pair Tp_udp ` snd ` set (nt_opened (tl_nat s)) \<union> Pair Tp_tcp ` ft_flow ` set (tt_tasks (tl_tcp s))"

definition answers :: "(transport_protocol \<times> flow) set \<Rightarrow> bytes \<Rightarrow> bool" where
  "answers F pkt \<longleftrightarrow> (\<exists>p proto client remote. parse_ip_packet pkt = Inr (Some p) \<and> flow_is p proto remote client \<and> (proto, client, remote) \<in> F)"

definition bridge_inv :: "tcp_table \<Rightarrow> bool" where
  "bridge_inv t \<longleftrightarrow> 1 \<le> tt_max t \<and> length (tt_entries t) \<le> tt_max t \<and> distinct (map fst (tt_entries t))
     \<and> (\<forall>(key, e)\<in>set (tt_entries t). te_flow e < length (tt_tasks t) \<and> ft_flow (tt_tasks t ! te_flow e) = key)
     \<and> (\<forall>ft\<in>set (tt_tasks t). task_inv ft)"

fun action_ok :: "(transport_protocol \<times> flow) set \<Rightarrow> flow_task list \<Rightarrow> action \<Rightarrow> bool" where
  "action_ok F ts (To_device pkt) = answers F pkt"
| "action_ok F ts (To_flow key n data) = (n < length ts \<and> ft_flow (ts ! n) = key)"
| "action_ok F ts (Drop_flow key) = True"

definition loop_inv :: "tun_loop \<Rightarrow> bool" where
  "loop_inv s \<longleftrightarrow> nat_inv (tl_nat s) \<and> bridge_inv (tl_tcp s) \<and> length (tl_chan s) \<le> WRITE_CHAN_CAP
     \<and> (\<forall>a\<in>set (tl_pending s). action_ok (flows s) (tt_tasks (tl_tcp s)) a)
     \<and> (\<forall>pkt\<in>set (tl_chan s) \<union> set (tl_device s). answers (flows s) pkt)"

definition grows :: "flow_task list \<Rightarrow> flow_task list \<Rightarrow> bool" where
  "grows ts ts' \<longleftrightarrow> (\<exists>fs. map ft_flow ts' = map ft_flow ts @ fs)"

lemma grows_refl [simp]: "grows ts ts" and grows_append: "grows ts (ts @ ts2)"
  by (simp_all add: grows_def)

lemma grows_nth: "grows ts ts' \<Longrightarrow> n < length ts \<Longrightarrow> n < length ts' \<and> ft_flow (ts' ! n) = ft_flow (ts ! n)"
  unfolding grows_def by (metis length_append length_map nth_append nth_map trans_less_add1)

lemma grows_flows: "grows ts ts' \<Longrightarrow> ft_flow ` set ts \<subseteq> ft_flow ` set ts'"
  unfolding grows_def by (metis Un_upper1 set_append set_map)

lemma answers_mono: "answers F pkt \<Longrightarrow> F \<subseteq> F' \<Longrightarrow> answers F' pkt"
  unfolding answers_def by blast

lemma action_ok_mono: "action_ok F ts a \<Longrightarrow> F \<subseteq> F' \<Longrightarrow> grows ts ts' \<Longrightarrow> action_ok F' ts' a"
  by (cases a) (auto simp: grows_nth intro: answers_mono)

lemma built_tcp_answers:
  assumes "build_tcp_packet remote client seq ack flags pl = Some pkt" and "(Tp_tcp, client, remote) \<in> F"
  shows "answers F pkt"
  using parse_built_tcp [OF assms(1)] assms(2) unfolding answers_def by blast

lemma send_control_ok:
  assumes "a \<in> set (send_control remote client seq ack flags)" and "(Tp_tcp, client, remote) \<in> F"
  shows "action_ok F ts a"
  using assms by (auto simp: send_control_def intro: built_tcp_answers [OF sym] split: option.splits)

section \<open>The TCP table under a packet\<close>

lemma bridge_inv_entries:
  assumes "bridge_inv t" and "set es \<subseteq> set (tt_entries t)" and "distinct (map fst es)" and "length es \<le> tt_max t"
  shows "bridge_inv (t\<lparr>tt_entries := es\<rparr>)"
  using assms by (auto simp: bridge_inv_def)

lemma bridge_inv_delete:
  assumes "bridge_inv t"
  shows "bridge_inv (t\<lparr>tt_entries := AList.delete key (tt_entries t)\<rparr>)"
proof (rule bridge_inv_entries [OF assms])
  show "set (AList.delete key (tt_entries t)) \<subseteq> set (tt_entries t)" by (auto simp: AList.delete_eq)
  show "distinct (map fst (AList.delete key (tt_entries t)))" using assms by (simp add: bridge_inv_def distinct_delete)
  show "length (AList.delete key (tt_entries t)) \<le> tt_max t"
    using assms le_trans [OF length_delete_le [of key "tt_entries t"]] by (simp add: bridge_inv_def)
qed

lemma bridge_inv_evict:
  assumes "bridge_inv t"
  shows "bridge_inv (snd (tcp_evict_idle now t))"
proof -
  let ?es = "evict_idle te_seen (tt_idle t) now (tt_entries t)"
  have "length ?es \<le> tt_max t" and "distinct (map fst ?es)"
    using assms le_trans [OF evict_idle_subset(2) [of te_seen "tt_idle t" now "tt_entries t"]]
    by (simp_all add: bridge_inv_def) (simp add: evict_idle_def distinct_filter_fst)
  then show ?thesis using bridge_inv_entries [OF assms evict_idle_subset(1)] by (simp add: tcp_evict_idle_def Let_def)
qed

lemma bridge_inv_update:
  assumes "bridge_inv t" and "map_of (tt_entries t) key = Some e" and "te_flow e' = te_flow e"
  shows "bridge_inv (t\<lparr>tt_entries := AList.update key e' (tt_entries t)\<rparr>)"
proof -
  have ok: "te_flow x < length (tt_tasks t) \<and> ft_flow (tt_tasks t ! te_flow x) = k" if "(k, x) \<in> set (tt_entries t)" for k x
    using assms(1) that by (auto simp: bridge_inv_def)
  have "te_flow x < length (tt_tasks t) \<and> ft_flow (tt_tasks t ! te_flow x) = k"
    if "(k, x) \<in> set (AList.update key e' (tt_entries t))" for k x
  proof -
    have "(k, x) = (key, e') \<or> (k, x) \<in> set (tt_entries t)" using that set_update_subset [of key e' "tt_entries t"] by blast
    then show ?thesis using ok [of k x] ok [OF map_of_SomeD [OF assms(2)]] assms(3) by auto
  qed
  then show ?thesis
    using assms(1) update_known_length [OF assms(2)] by (auto simp: bridge_inv_def distinct_update)
qed

lemma new_task_inv:
  assumes "same_family (fst key) (snd key)"
  shows "task_inv \<lparr>ft_flow = key, ft_server_seq = (SERVER_ISN XOR ucast (sock_port (fst key))) + 1, ft_client_ack = ack, ft_queue = [],
    ft_connected = False, ft_sending = None, ft_done = False, ft_written = [], ft_read = [], ft_sent = []\<rparr>"
  using assms by (simp add: task_inv_def seq_at_def first_seq_def)

lemma tcp_open_inv:
  assumes inv: "bridge_inv t" and fresh: "map_of (tt_entries t) key = None" and fam: "same_family (fst key) (snd key)"
    and o: "tcp_open ck key seq t = (err, acts, t')"
  shows "bridge_inv t' \<and> err = None \<and> grows (tt_tasks t) (tt_tasks t')
    \<and> (\<forall>a\<in>set acts. action_ok (Pair Tp_tcp ` ft_flow ` set (tt_tasks t')) (tt_tasks t') a)"
proof -
  define es where "es = make_room te_seen (tt_idle t) (ck_evict ck) (tt_max t) (tt_entries t)"
  define tk where "tk = \<lparr>ft_flow = key, ft_server_seq = (SERVER_ISN XOR ucast (sock_port (fst key))) + 1, ft_client_ack = seq + 1, ft_queue = [],
    ft_connected = False, ft_sending = None, ft_done = False, ft_written = [], ft_read = [], ft_sent = []\<rparr>"
  define e where "e = \<lparr>te_flow = length (tt_tasks t), te_seen = ck_now ck, te_client_next = seq + 1\<rparr>"
  have t: "1 \<le> tt_max t" "length (tt_entries t) \<le> tt_max t" "distinct (map fst (tt_entries t))" using inv by (simp_all add: bridge_inv_def)
  have len: "length es < tt_max t" unfolding es_def by (rule make_room_length [OF t(1,2)])
  have sub: "set es \<subseteq> set (tt_entries t)" unfolding es_def by (rule make_room_subset)
  have dist: "distinct (map fst es)" unfolding es_def by (rule make_room_distinct [OF t(3)])
  have "fst ` set es \<subseteq> fst ` set (tt_entries t)" using sub by blast
  then have fresh': "map_of es key = None" using fresh unfolding map_of_eq_None_iff by blast
  have res: "err = None" "acts = send_control (snd key) (fst key) (SERVER_ISN XOR ucast (sock_port (fst key))) (seq + 1) (TCP_SYN OR TCP_ACK)"
      "t' = t\<lparr>tt_entries := AList.update key e es, tt_tasks := tt_tasks t @ [tk]\<rparr>"
    using o len by (simp_all add: tcp_open_def Let_def es_def [symmetric] tk_def e_def)
  have tk: "ft_flow tk = key" "task_inv tk" using new_task_inv [OF fam] by (simp_all add: tk_def)
  have "te_flow x < Suc (length (tt_tasks t)) \<and> ft_flow ((tt_tasks t @ [tk]) ! te_flow x) = k" if "(k, x) \<in> set (AList.update key e es)" for k x
  proof -
    have "(k, x) = (key, e) \<or> (k, x) \<in> set (tt_entries t)" using that sub set_update_subset [of key e es] by blast
    then show ?thesis using inv tk(1) by (fastforce simp: e_def bridge_inv_def nth_append)
  qed
  then have "bridge_inv t'"
    using inv tk(2) t(1) len dist update_fresh_length [OF fresh', of e] by (auto simp: bridge_inv_def res(3) distinct_update)
  moreover have "(Tp_tcp, fst key, snd key) \<in> Pair Tp_tcp ` ft_flow ` set (tt_tasks t')" using tk(1) by (force simp: res(3))
  ultimately show ?thesis using send_control_ok by (auto simp: res grows_append)
qed

lemma tcp_data_inv:
  assumes inv: "bridge_inv t" and d: "tcp_data ck key seq flags pl t = (acts, t')"
  shows "bridge_inv t' \<and> tt_tasks t' = tt_tasks t \<and> (\<forall>a\<in>set acts. action_ok (Pair Tp_tcp ` ft_flow ` set (tt_tasks t)) (tt_tasks t) a)"
proof (cases "map_of (tt_entries t) key")
  case None
  then show ?thesis using assms by (auto simp: tcp_data_def)
next
  case (Some e)
  have flow: "te_flow e < length (tt_tasks t)" "ft_flow (tt_tasks t ! te_flow e) = key"
    using inv map_of_SomeD [OF Some] by (auto simp: bridge_inv_def)
  then have "(Tp_tcp, fst key, snd key) \<in> Pair Tp_tcp ` ft_flow ` set (tt_tasks t)" by (metis imageI nth_mem prod.collapse)
  then have ctl: "action_ok (Pair Tp_tcp ` ft_flow ` set (tt_tasks t)) (tt_tasks t) a"
    if "a \<in> set (send_control (snd key) (fst key) sq ak fl)" for a sq ak fl
    using send_control_ok [OF that] by simp
  have upd: "bridge_inv (t\<lparr>tt_entries := AList.update key e' (tt_entries t)\<rparr>)" if "te_flow e' = te_flow e" for e'
    by (rule bridge_inv_update [OF inv Some that])
  show ?thesis
    using d ctl flow upd by (auto simp: tcp_data_def Some Let_def split: if_splits option.splits)
qed

lemma tcp_forward_inv:
  assumes inv: "bridge_inv t" and fam: "same_family (packet_client p) (packet_remote p)" and f: "tcp_forward ck p raw t = (err, acts, t')"
  shows "bridge_inv t' \<and> err \<noteq> Some Table_full \<and> grows (tt_tasks t) (tt_tasks t')
    \<and> (\<forall>a\<in>set acts. action_ok (Pair Tp_tcp ` ft_flow ` set (tt_tasks t')) (tt_tasks t') a)"
proof -
  let ?key = "(packet_client p, packet_remote p)"
  consider (none) "acts = []" "t' = t" "err \<noteq> Some Table_full"
    | (reset) "acts = []" "t' = t\<lparr>tt_entries := AList.delete ?key (tt_entries t)\<rparr>" "err = None"
    | (opened) seq where "map_of (tt_entries t) ?key = None" "tcp_open ck ?key seq t = (err, acts, t')"
    | (data) seq flags where "tcp_data ck ?key seq flags (payload p raw) t = (acts, t')" "err = None"
    using f unfolding tcp_forward_def Let_def by (auto split: if_splits option.splits)
  then show ?thesis
  proof cases
    case none
    then show ?thesis using inv by simp
  next
    case reset
    then show ?thesis using bridge_inv_delete [OF inv] by simp
  next
    case opened
    from tcp_open_inv [OF inv opened(1) _ opened(2)] fam show ?thesis by simp
  next
    case data
    from tcp_data_inv [OF inv data(1)] data(2) show ?thesis by simp
  qed
qed

section \<open>Every step keeps the invariant\<close>

lemma with_task_table:
  assumes "bridge_inv (tl_tcp s)" and "n < tasks s" and "task_inv (g (task s n))" and "ft_flow (g (task s n)) = ft_flow (task s n)"
  shows "bridge_inv (tl_tcp (with_task n g s))" and "flows (with_task n g s) = flows s"
    and "grows (tt_tasks (tl_tcp s)) (tt_tasks (tl_tcp (with_task n g s)))"
proof -
  have map: "map ft_flow ((tt_tasks (tl_tcp s))[n := g (task s n)]) = map ft_flow (tt_tasks (tl_tcp s))"
    using assms(2,4) by (simp add: map_update list_update_same_conv)
  then have "ft_flow ` set ((tt_tasks (tl_tcp s))[n := g (task s n)]) = ft_flow ` set (tt_tasks (tl_tcp s))"
    by (metis set_map)
  then show "flows (with_task n g s) = flows s" by (simp add: flows_def with_task_def)
  show "grows (tt_tasks (tl_tcp s)) (tt_tasks (tl_tcp (with_task n g s)))" using map by (simp add: grows_def with_task_def)
  have "ft_flow ((tt_tasks (tl_tcp s))[n := g (task s n)] ! m) = ft_flow (task s m)" if "m < tasks s" for m
    using that assms(4) by (cases "m = n") simp_all
  then show "bridge_inv (tl_tcp (with_task n g s))"
    using assms(1,3) set_update_subset_insert [of "tt_tasks (tl_tcp s)" n "g (task s n)"]
    by (fastforce simp: bridge_inv_def with_task_def)
qed

lemma loop_inv_change:
  assumes "loop_inv s" and "nat_inv (tl_nat s')" and "bridge_inv (tl_tcp s')" and "flows s \<subseteq> flows s'"
    and "grows (tt_tasks (tl_tcp s)) (tt_tasks (tl_tcp s'))" and "length (tl_chan s') \<le> WRITE_CHAN_CAP"
    and "\<And>a. a \<in> set (tl_pending s') \<Longrightarrow> a \<in> set (tl_pending s) \<or> action_ok (flows s') (tt_tasks (tl_tcp s')) a"
    and "\<And>pkt. pkt \<in> set (tl_chan s') \<union> set (tl_device s') \<Longrightarrow>
      pkt \<in> set (tl_chan s) \<union> set (tl_device s) \<or> To_device pkt \<in> set (tl_pending s) \<or> answers (flows s') pkt"
  shows "loop_inv s'"
proof -
  have pend: "action_ok (flows s') (tt_tasks (tl_tcp s')) a" if "a \<in> set (tl_pending s)" for a
    using assms(1,4,5) that action_ok_mono unfolding loop_inv_def by blast
  have old: "answers (flows s') pkt" if "pkt \<in> set (tl_chan s) \<union> set (tl_device s)" for pkt
    using assms(1,4) that answers_mono unfolding loop_inv_def by blast
  have "answers (flows s') pkt" if "To_device pkt \<in> set (tl_pending s)" for pkt using pend [OF that] by simp
  then show ?thesis unfolding loop_inv_def using assms(2,3,6,7,8) pend old by blast
qed

lemma task_flow_simps [simp]:
  "ft_flow (task_send flags pl nxt ends ft) = ft_flow ft" "ft_flow (task_fail ft) = ft_flow ft" "ft_flow (task_connect reply ft) = ft_flow ft"
  "ft_flow (task_payload ok ft) = ft_flow ft" "ft_flow (task_read r ft) = ft_flow ft" "ft_flow (task_sent ft) = ft_flow ft"
  by (simp_all add: task_send_def task_fail_def task_connect_def task_payload_def task_read_def task_sent_def Let_def
      split: option.split sum.split list.split prod.split)

lemma loop_inv_task:
  assumes "loop_inv s" and "n < tasks s" and "task_inv (task s n) \<Longrightarrow> task_inv (g (task s n))" and "ft_flow (g (task s n)) = ft_flow (task s n)"
  shows "loop_inv (with_task n g s)"
proof -
  have "bridge_inv (tl_tcp s)" and "task_inv (task s n)" using assms(1,2) by (auto simp: loop_inv_def bridge_inv_def)
  from with_task_table [of s n g, OF this(1) assms(2) assms(3) [OF this(2)] assms(4)] show ?thesis
    using assms(1) by (intro loop_inv_change [OF assms(1)]) (simp_all add: loop_inv_def)
qed

lemma flows_tcp: "Pair Tp_tcp ` ft_flow ` set (tt_tasks (tl_tcp s)) \<subseteq> flows s"
  by (simp add: flows_def)

lemma task_in: "loop_inv s \<Longrightarrow> n < tasks s \<Longrightarrow> task_inv (task s n)"
  by (auto simp: loop_inv_def bridge_inv_def)

lemma dispatch_inv:
  assumes inv: "loop_inv s" and idle: "tl_pending s = []" and d: "dispatch ck socket_ok send_ok raw s = Inr s'"
  shows "loop_inv s'"
proof -
  have i: "nat_inv (tl_nat s)" "bridge_inv (tl_tcp s)" "length (tl_chan s) \<le> 1024" using inv by (simp_all add: loop_inv_def)
  obtain r where r: "parse_ip_packet raw = Inr r" using d by (auto simp: dispatch_def bindE_eq_Inr)
  have "s' = s \<or> (\<exists>p. s' = s\<lparr>tl_nat := snd (nat_forward ck socket_ok send_ok p raw (tl_nat s))\<rparr>)
      \<or> (\<exists>p err acts t. r = Some p \<and> tcp_forward ck p raw (tl_tcp s) = (err, acts, t) \<and> s' = s\<lparr>tl_tcp := t, tl_pending := acts\<rparr>)"
  proof (cases r)
    case (Some p)
    have "dispatch ck socket_ok send_ok raw s = (case p_protocol p of
        Tp_udp \<Rightarrow> Inr (if p_dst_port p = 53 then s else s\<lparr>tl_nat := snd (nat_forward ck socket_ok send_ok p raw (tl_nat s))\<rparr>)
      | Tp_tcp \<Rightarrow> (case tcp_forward ck p raw (tl_tcp s) of (_, acts, t) \<Rightarrow> Inr (s\<lparr>tl_tcp := t, tl_pending := acts\<rparr>))
      | Tp_other _ \<Rightarrow> Inr s)" by (simp add: dispatch_def r Some)
    with d Some show ?thesis by (cases "p_protocol p"; cases "tcp_forward ck p raw (tl_tcp s)") (simp_all, metis)
  qed (use d r in \<open>simp add: dispatch_def\<close>)
  then consider (same) "s' = s"
    | (udp) p where "s' = s\<lparr>tl_nat := snd (nat_forward ck socket_ok send_ok p raw (tl_nat s))\<rparr>"
    | (tcp) p err acts t where "r = Some p" "tcp_forward ck p raw (tl_tcp s) = (err, acts, t)" "s' = s\<lparr>tl_tcp := t, tl_pending := acts\<rparr>"
    by blast
  then show ?thesis
  proof cases
    case same
    then show ?thesis using inv by simp
  next
    case udp
    obtain err t where f: "nat_forward ck socket_ok send_ok p raw (tl_nat s) = (err, t)" by force
    have "nat_inv t" using nat_forward_inv [OF i(1) f] by blast
    moreover obtain fs where "nt_opened t = nt_opened (tl_nat s) @ fs" using nat_opened_mono [OF f] by blast
    then have "flows s \<subseteq> flows s'" by (simp add: flows_def udp f image_Un le_supI1)
    ultimately show ?thesis using i by (intro loop_inv_change [OF inv]) (simp_all add: udp f idle)
  next
    case tcp
    have fam: "same_family (packet_client p) (packet_remote p)" using parse_same_family r tcp(1) by simp
    note t = tcp_forward_inv [OF i(2) fam tcp(2)]
    have "flows s \<subseteq> flows s'" using grows_flows t by (fastforce simp: flows_def tcp(3))
    moreover have "action_ok (flows s') (tt_tasks t) a" if "a \<in> set acts" for a
      using t that flows_tcp [of s'] by (auto simp: tcp(3) intro: action_ok_mono)
    ultimately show ?thesis using i t by (intro loop_inv_change [OF inv]) (simp_all add: tcp(3))
  qed
qed

lemma drop_flow_inv:
  assumes "loop_inv s" and "set acts \<subseteq> set (tl_pending s)"
  shows "loop_inv ((drop_flow key s)\<lparr>tl_pending := acts\<rparr>)"
  using assms(2) by (intro loop_inv_change [OF assms(1)])
    (use assms(1) in \<open>auto simp: loop_inv_def drop_flow_def flows_def intro: bridge_inv_delete\<close>)

lemma queue_payload_inv:
  assumes inv: "loop_inv s" and pend: "tl_pending s = To_flow key n data # acts" and room: "length (ft_queue (task s n)) < FLOW_CHAN_CAP"
  shows "loop_inv ((with_task n (\<lambda>ft. ft\<lparr>ft_queue := ft_queue ft @ [data]\<rparr>) s)\<lparr>tl_pending := acts\<rparr>)"
proof -
  have n: "n < tasks s" using inv pend by (simp add: loop_inv_def)
  have i1: "loop_inv (with_task n (\<lambda>ft. ft\<lparr>ft_queue := ft_queue ft @ [data]\<rparr>) s)"
  proof (rule loop_inv_task [OF inv n])
    show "task_inv ((task s n)\<lparr>ft_queue := ft_queue (task s n) @ [data]\<rparr>)" if "task_inv (task s n)"
      by (rule task_inv_cong [OF that]) (use room in simp_all)
  qed simp
  define s1 where "s1 = with_task n (\<lambda>ft. ft\<lparr>ft_queue := ft_queue ft @ [data]\<rparr>) s"
  have "tl_pending s1 = To_flow key n data # acts" by (simp add: s1_def pend)
  then show ?thesis
    unfolding s1_def [symmetric]
    by (intro loop_inv_change [OF i1 [folded s1_def]]) (use i1 [folded s1_def] in \<open>auto simp: loop_inv_def flows_def\<close>)
qed

lemma push_inv:
  assumes "loop_inv s" and "has_room s" and "answers (flows s) pkt" and "chan = tl_chan s @ [pkt]"
  shows "loop_inv (s\<lparr>tl_chan := chan\<rparr>)"
  by (intro loop_inv_change [OF assms(1)]) (use assms in \<open>auto simp: loop_inv_def flows_def has_room_def\<close>)

lemma flow_sent_inv:
  assumes inv: "loop_inv s" and n: "n < tasks s" and sending: "ft_sending (task s n) = Some (pkt, nxt, ends)" and room: "has_room s"
  shows "loop_inv ((with_task n task_sent s)\<lparr>tl_chan := tl_chan s @ [pkt]\<rparr>)"
proof -
  have ti: "task_inv (task s n)" by (rule task_in [OF inv n])
  have inv': "loop_inv (with_task n task_sent s)" by (rule loop_inv_task [OF inv n]) (use task_sent_inv [OF _ sending] in simp_all)
  have "flows (with_task n task_sent s) = flows s"
    by (rule with_task_table(2)) (use inv n task_sent_inv [OF ti sending] in \<open>simp_all add: loop_inv_def\<close>)
  moreover have "is_segment (task s n) (length (ft_sent (task s n))) pkt" using ti sending by (simp add: task_inv_def)
  then obtain p where "parse_ip_packet pkt = Inr (Some p)" "flow_is p Tp_tcp (snd (ft_flow (task s n))) (fst (ft_flow (task s n)))"
    unfolding is_segment_def by blast
  moreover have "(Tp_tcp, fst (ft_flow (task s n)), snd (ft_flow (task s n))) \<in> flows s" using n by (simp add: flows_def)
  ultimately have "answers (flows (with_task n task_sent s)) pkt" unfolding answers_def by metis
  then show ?thesis
    by (intro push_inv [OF inv']) (use room in simp_all)
qed

lemma loop_step_inv:
  assumes "loop_step s s'" and inv: "loop_inv s"
  shows "loop_inv s'"
  using assms(1)
proof cases
  case read_packet
  then show ?thesis using dispatch_inv [OF inv] by blast
next
  case write_packet
  then show ?thesis by (intro loop_inv_change [OF inv]) (use inv in \<open>auto simp: loop_inv_def flows_def split: if_splits\<close>)
next
  case evict_tick
  then show ?thesis
    by (intro loop_inv_change [OF inv])
      (use inv nat_evict_inv bridge_inv_evict in \<open>auto simp: loop_inv_def flows_def tcp_evict_idle_def nat_evict_idle_def Let_def\<close>)
next
  case stop
  then show ?thesis by (intro loop_inv_change [OF inv]) (use inv in \<open>auto simp: loop_inv_def flows_def\<close>)
next
  case queue_packet
  then show ?thesis by (intro loop_inv_change [OF inv]) (use inv in \<open>auto simp: loop_inv_def flows_def has_room_def\<close>)
next
  case queue_payload
  then show ?thesis using queue_payload_inv [OF inv] by blast
next
  case queue_closed
  then show ?thesis using drop_flow_inv [OF inv] by (simp add: subset_insertI)
next
  case remove_flow
  then show ?thesis using drop_flow_inv [OF inv] by (simp add: subset_insertI)
next
  case (udp_response n client remote dgram pkt)
  obtain r where "parse_ip_packet pkt = Inr (Some r)" "flow_is r Tp_udp remote client"
    using parse_built_udp [OF udp_response(6) [unfolded build_response_packet_def]] by auto
  moreover have "(Tp_udp, client, remote) \<in> flows s" using udp_response(3) by (force simp: flows_def)
  ultimately have "answers (flows s) pkt" unfolding answers_def by blast
  then show ?thesis using udp_response push_inv [OF inv] by blast
next
  case udp_reader_exit
  then show ?thesis by (intro loop_inv_change [OF inv]) (use inv in \<open>auto simp: loop_inv_def flows_def\<close>)
next
  case flow_connect
  then show ?thesis by (auto intro!: loop_inv_task [OF inv] task_connect_inv)
next
  case flow_payload
  then show ?thesis by (auto simp: task_ready_def intro!: loop_inv_task [OF inv] task_payload_inv)
next
  case flow_read
  then show ?thesis by (auto simp: task_ready_def intro!: loop_inv_task [OF inv] task_read_inv)
next
  case flow_sent
  then show ?thesis using flow_sent_inv [OF inv] by blast
next
  case flow_cancel
  then show ?thesis
    by (auto simp: task_ready_def intro!: loop_inv_task [OF inv] task_cancel_inv)
qed

lemma tun_start_inv: "loop_inv tun_start"
  by (simp add: loop_inv_def tun_start_def nat_new_inv tcp_new_def bridge_inv_def)

lemma loop_reaches_inv: "loop_reaches tun_start s \<Longrightarrow> loop_inv s"
  by (induction rule: rtranclp_induct) (auto intro: tun_start_inv loop_step_inv)

lemma tcp_forward_max: "tt_max (snd (snd (tcp_forward ck p raw t))) = tt_max t"
  by (simp add: tcp_forward_def tcp_open_def tcp_data_def Let_def split: option.split)

lemma nat_forward_max: "nt_max (snd (nat_forward ck socket_ok send_ok p raw t)) = nt_max t"
  using nat_apply_max [of "Nat_packet ck socket_ok send_ok p raw" t] by simp

lemma dispatch_max:
  assumes "dispatch ck socket_ok send_ok raw s = Inr s'"
  shows "nt_max (tl_nat s') = nt_max (tl_nat s) \<and> tt_max (tl_tcp s') = tt_max (tl_tcp s)"
proof -
  obtain r where r: "parse_ip_packet raw = Inr r" using assms by (auto simp: dispatch_def bindE_eq_Inr)
  show ?thesis
  proof (cases r)
    case (Some p)
    obtain err acts t where f: "tcp_forward ck p raw (tl_tcp s) = (err, acts, t)" by (rule prod_cases3)
    have "tt_max t = tt_max (tl_tcp s)" using tcp_forward_max [of ck p raw "tl_tcp s"] by (simp add: f)
    with assms nat_forward_max [of ck socket_ok send_ok p raw "tl_nat s"] show ?thesis
      by (cases "p_protocol p") (auto simp: dispatch_def r Some f)
  qed (use assms r in \<open>simp add: dispatch_def\<close>)
qed

lemma loop_step_max: "loop_step s s' \<Longrightarrow> nt_max (tl_nat s') = nt_max (tl_nat s) \<and> tt_max (tl_tcp s') = tt_max (tl_tcp s)"
  by (erule loop_step.cases) (simp_all add: dispatch_max nat_evict_idle_def tcp_evict_idle_def Let_def with_task_def drop_flow_def)

lemma loop_reaches_max: "loop_reaches tun_start s \<Longrightarrow> nt_max (tl_nat s) = 4096 \<and> tt_max (tl_tcp s) = 4096"
  by (induction rule: rtranclp_induct) (simp_all add: loop_step_max, simp add: tun_start_def nat_new_def tcp_new_def)

text \<open>
  Property C9. The packet loop stays well formed. Whatever packets the client sends and however the loop, the flow tasks
  and the socket readers interleave: neither flow table exceeds its limit, neither the device queue nor a payload queue
  exceeds its capacity, every TCP entry points at the task of its own flow, and every packet queued for or written to
  the device parses as an answer, from remote to client, of a flow some packet of the client opened.
\<close>

theorem tun_loop_well_formed:
  assumes "loop_reaches tun_start s"
  shows "length (nt_entries (tl_nat s)) \<le> 4096 \<and> length (tt_entries (tl_tcp s)) \<le> 4096 \<and> length (tl_chan s) \<le> WRITE_CHAN_CAP
    \<and> (\<forall>ft\<in>set (tt_tasks (tl_tcp s)). length (ft_queue ft) \<le> FLOW_CHAN_CAP)
    \<and> (\<forall>(key, e)\<in>set (tt_entries (tl_tcp s)). te_flow e < tasks s \<and> ft_flow (task s (te_flow e)) = key)
    \<and> (\<forall>pkt\<in>set (tl_chan s) \<union> set (tl_device s). answers (flows s) pkt)"
proof -
  have inv: "nat_inv (tl_nat s)" "bridge_inv (tl_tcp s)" "length (tl_chan s) \<le> 1024"
    "\<forall>pkt\<in>set (tl_chan s) \<union> set (tl_device s). answers (flows s) pkt"
    using loop_reaches_inv [OF assms] by (simp_all add: loop_inv_def)
  have "length (nt_entries (tl_nat s)) \<le> 4096" and "length (tt_entries (tl_tcp s)) \<le> 4096"
    using inv(1,2) loop_reaches_max [OF assms] by (simp_all add: nat_inv_def bridge_inv_def)
  moreover have "\<forall>(key, e)\<in>set (tt_entries (tl_tcp s)). te_flow e < tasks s \<and> ft_flow (task s (te_flow e)) = key"
    and "\<forall>ft\<in>set (tt_tasks (tl_tcp s)). length (ft_queue ft) \<le> 256"
    using inv(2) by (auto simp: bridge_inv_def task_inv_def)
  ultimately show ?thesis using inv(3,4) by blast
qed

theorem tun_loop_well_formed_witness:
  "\<exists>s. loop_reaches tun_start s \<and> length (tl_chan s) = 2 \<and> tasks s = 1 \<and> (\<forall>pkt\<in>set (tl_chan s) \<union> set (tl_device s). answers (flows s) pkt)"
proof -
  obtain s where s: "loop_reaches tun_start s" "primed (Suc 1) s" using primed_full [of 1] by auto
  then show ?thesis using tun_loop_well_formed [OF s(1)] by (auto simp: primed_def)
qed

text \<open>
  Property C13. A bridged connection reaches the client as one gapless stream. The packets a flow's task queues carry, in
  order, exactly the chunks it read from the local proxy, from remote to client; the sequence number of each is the
  first after the handshake's plus the number of bytes sent before it, modulo the width of the counter; a packet after
  the last chunk is a control packet without payload.
\<close>

theorem tun_flow_segments:
  assumes "loop_reaches tun_start s" and "n < tasks s" and "ft_flow (task s n) = (client, remote)" and "i < length (ft_sent (task s n))"
  shows "\<exists>p. parse_ip_packet (ft_sent (task s n) ! i) = Inr (Some p) \<and> flow_is p Tp_tcp remote client
    \<and> p_tcp_seq p = Some ((SERVER_ISN XOR ucast (sock_port client)) + 1 + of_nat (length (concat (take i (ft_read (task s n))))))
    \<and> payload p (ft_sent (task s n) ! i) = Some (if i < length (ft_read (task s n)) then ft_read (task s n) ! i else [])"
proof -
  have "task_inv (task s n)" by (rule task_in [OF loop_reaches_inv [OF assms(1)] assms(2)])
  then have "is_segment (task s n) i (ft_sent (task s n) ! i)" using assms(4) by (simp add: task_inv_def)
  then show ?thesis by (simp add: is_segment_def seq_at_def first_seq_def chunk_at_def assms(3))
qed

theorem tun_flow_segments_witness:
  "\<exists>s p. loop_reaches tun_start s \<and> 0 < length (ft_sent (task s 0)) \<and> parse_ip_packet (ft_sent (task s 0) ! 0) = Inr (Some p)
     \<and> p_tcp_seq p = Some ((SERVER_ISN XOR 40000) + 1)"
proof -
  obtain s where s: "loop_reaches tun_start s" "primed (Suc 1) s" using primed_full [of 1] by auto
  then have "0 < tasks s" "ft_flow (task s 0) = (client0, remote0)" "0 < length (ft_sent (task s 0))" by (auto simp: primed_def)
  from tun_flow_segments [OF s(1) this] obtain p where "parse_ip_packet (ft_sent (task s 0) ! 0) = Inr (Some p)"
      "p_tcp_seq p = Some ((SERVER_ISN XOR 40000) + 1)" by auto
  then show ?thesis using s(1) \<open>0 < length (ft_sent (task s 0))\<close> by blast
qed

end
