(* ===== verification/Router.thy ===== *)
theory Router
  imports Address "HOL-Library.Sublist"
begin

text \<open>
  Routing (\<^verbatim>\<open>crates/blackwire-app/src/router.rs\<close>), the geo matchers it consults (\<^verbatim>\<open>geo/geoip.rs\<close>, \<^verbatim>\<open>geo/geosite.rs\<close>) and the
  dispatcher's use of it (\<^verbatim>\<open>dispatcher.rs\<close>). The crates \<^verbatim>\<open>ipnet\<close>, \<^verbatim>\<open>aho-corasick\<close> and \<^verbatim>\<open>regex\<close> are the functions of the record
  \<open>libs\<close>, an argument of every definition that calls them; lowercasing of text outside ASCII is another.
\<close>

section \<open>Text\<close>

record 'n libs =
  net_new :: "ip_addr \<Rightarrow> u8 \<Rightarrow> 'n option"
  net_parse :: "rstr \<Rightarrow> 'n option"
  net_le :: "'n \<Rightarrow> 'n \<Rightarrow> bool"
  net_contains :: "'n \<Rightarrow> ip_addr \<Rightarrow> bool"
  ac_builds :: "rstr list \<Rightarrow> bool"
  ac_match :: "rstr list \<Rightarrow> rstr \<Rightarrow> bool"
  regex_builds :: "rstr list \<Rightarrow> bool"
  regex_match :: "rstr list \<Rightarrow> rstr \<Rightarrow> bool"
  unicode_lower :: "rstr \<Rightarrow> rstr"

definition is_ascii_uppercase :: "u8 \<Rightarrow> bool" where
  "is_ascii_uppercase b \<longleftrightarrow> 0x41 \<le> b \<and> b \<le> 0x5A"

definition to_ascii_lowercase :: "rstr \<Rightarrow> rstr" where
  "to_ascii_lowercase s = map (\<lambda>b. if is_ascii_uppercase b then b + 0x20 else b) s"

definition to_lowercase :: "'n libs \<Rightarrow> rstr \<Rightarrow> rstr" where
  "to_lowercase L s = (if list_all (\<lambda>b. b < 0x80) s then to_ascii_lowercase s else unicode_lower L s)"

text \<open>The UTF-8 forms of the characters \<^verbatim>\<open>str::trim\<close> removes.\<close>

definition white_space :: "rstr list" where
  "white_space = [[0x09], [0x0A], [0x0B], [0x0C], [0x0D], [0x20], [0xC2, 0x85], [0xC2, 0xA0], [0xE1, 0x9A, 0x80],
     [0xE2, 0x80, 0x80], [0xE2, 0x80, 0x81], [0xE2, 0x80, 0x82], [0xE2, 0x80, 0x83], [0xE2, 0x80, 0x84], [0xE2, 0x80, 0x85],
     [0xE2, 0x80, 0x86], [0xE2, 0x80, 0x87], [0xE2, 0x80, 0x88], [0xE2, 0x80, 0x89], [0xE2, 0x80, 0x8A], [0xE2, 0x80, 0xA8],
     [0xE2, 0x80, 0xA9], [0xE2, 0x80, 0xAF], [0xE2, 0x81, 0x9F], [0xE3, 0x80, 0x80]]"

lemma white_space_nonempty: "[] \<notin> set white_space"
  by (simp add: white_space_def)

function trim_start :: "rstr \<Rightarrow> rstr" where
  "trim_start s = (case find (\<lambda>w. prefix w s) white_space of None \<Rightarrow> s | Some w \<Rightarrow> trim_start (drop (length w) s))"
  by pat_completeness auto

termination
proof (relation "measure length")
  fix s w
  assume "find (\<lambda>w. prefix w s) white_space = Some w"
  then have "w \<in> set white_space" and "prefix w s" by (auto simp: find_Some_iff)
  then have "w \<noteq> []" and "length w \<le> length s" using white_space_nonempty prefix_length_le by auto
  then show "(drop (length w) s, s) \<in> measure length" by (cases w) (auto simp: less_diff_conv2)
qed simp

function trim_end :: "rstr \<Rightarrow> rstr" where
  "trim_end s = (case find (\<lambda>w. suffix w s) white_space of None \<Rightarrow> s | Some w \<Rightarrow> trim_end (take (length s - length w) s))"
  by pat_completeness auto

termination
proof (relation "measure length")
  fix s w
  assume "find (\<lambda>w. suffix w s) white_space = Some w"
  then have "w \<in> set white_space" and "suffix w s" by (auto simp: find_Some_iff)
  then have "w \<noteq> []" and "length w \<le> length s" using white_space_nonempty suffix_length_le by auto
  then show "(take (length s - length w) s, s) \<in> measure length" by (cases w) auto
qed simp

declare trim_start.simps [simp del] trim_end.simps [simp del]

definition trim :: "rstr \<Rightarrow> rstr" where
  "trim s = trim_end (trim_start s)"

section \<open>Domains\<close>

record domain_matcher =
  dm_full :: "rstr list"
  dm_suffix :: "rstr list"
  dm_keyword :: "rstr list"
  dm_regex :: "rstr list"

definition domain_matcher_new :: "'n libs \<Rightarrow> rstr list \<Rightarrow> rstr list \<Rightarrow> rstr list \<Rightarrow> rstr list \<Rightarrow> domain_matcher option" where
  "domain_matcher_new L full sufs keywords regexes =
     (if \<not> ac_builds L keywords then None
      else if \<not> regex_builds L regexes then None
      else Some \<lparr>dm_full = map (to_lowercase L) full, dm_suffix = map (to_lowercase L) sufs, dm_keyword = keywords, dm_regex = regexes\<rparr>)"

text \<open>The text after the first dot.\<close>

fun after_dot :: "rstr \<Rightarrow> rstr option" where
  "after_dot [] = None"
| "after_dot (b # s) = (if b = 0x2E then Some s else after_dot s)"

lemma after_dot_length: "after_dot s = Some t \<Longrightarrow> length t < length s"
  by (induction s) (auto split: if_splits)

function suffix_walk :: "rstr list \<Rightarrow> rstr \<Rightarrow> bool" where
  "suffix_walk pats s =
     (if s = [] then False
      else if s \<in> set pats then True
      else case after_dot s of None \<Rightarrow> False | Some t \<Rightarrow> suffix_walk pats t)"
  by pat_completeness auto

termination
  by (relation "measure (length \<circ> snd)") (auto dest: after_dot_length)

declare suffix_walk.simps [simp del]

definition lower_lazy :: "'n libs \<Rightarrow> rstr \<Rightarrow> rstr" where
  "lower_lazy L d = (if list_ex is_ascii_uppercase d then to_lowercase L d else d)"

definition domain_matches :: "'n libs \<Rightarrow> domain_matcher \<Rightarrow> rstr \<Rightarrow> bool" where
  "domain_matches L dm d =
     (let lower = lower_lazy L d in
      if lower \<in> set (dm_full dm) then True
      else if suffix_walk (dm_suffix dm) lower then True
      else if ac_match L (dm_keyword dm) lower then True
      else if regex_match L (dm_regex dm) lower then True
      else False)"

text \<open>The geosite matcher keeps hash sets where the rule matcher keeps maps and asks the same questions in the same order.\<close>

definition match_domain :: "'n libs \<Rightarrow> domain_matcher \<Rightarrow> rstr \<Rightarrow> bool" where
  [simp]: "match_domain L dm d = domain_matches L dm d"

text \<open>A geosite entry sorts its patterns by type; a type outside the enumeration counts as a keyword.\<close>

datatype domain_type = Plain | Regex | Domain_type | Full

definition domain_type_of :: "int \<Rightarrow> domain_type" where
  "domain_type_of t = (if t = 1 then Regex else if t = 2 then Domain_type else if t = 3 then Full else Plain)"

definition pick_type :: "domain_type \<Rightarrow> (int \<times> rstr) list \<Rightarrow> rstr list" where
  "pick_type ty ds = map snd (filter (\<lambda>(t, v). domain_type_of t = ty) ds)"

definition geosite_from_proto :: "'n libs \<Rightarrow> (int \<times> rstr) list \<Rightarrow> domain_matcher" where
  "geosite_from_proto L ds =
     (let keywords = map (to_lowercase L) (pick_type Plain ds);
          patterns = pick_type Regex ds;
          valid = filter (\<lambda>r. regex_builds L [r]) patterns
      in \<lparr>dm_full = map (to_lowercase L) (pick_type Full ds), dm_suffix = map (to_lowercase L) (pick_type Domain_type ds),
          dm_keyword = (if ac_builds L keywords then keywords else []),
          dm_regex = (if regex_builds L patterns then patterns else if regex_builds L valid then valid else [])\<rparr>)"

section \<open>Address ranges\<close>

fun full_prefix :: "ip_addr \<Rightarrow> u8" where
  "full_prefix (V4 _) = 32"
| "full_prefix (V6 _) = 128"

fun insert_net :: "'n libs \<Rightarrow> 'n \<Rightarrow> 'n list \<Rightarrow> 'n list" where
  "insert_net L n [] = [n]"
| "insert_net L n (m # ms) = (if net_le L n m then n # m # ms else m # insert_net L n ms)"

definition sort_nets :: "'n libs \<Rightarrow> 'n list \<Rightarrow> 'n list" where
  "sort_nets L ns = foldr (insert_net L) ns []"

fun parse_all :: "'n libs \<Rightarrow> rstr list \<Rightarrow> 'n list option" where
  "parse_all L [] = Some []"
| "parse_all L (r # rs) = (case net_parse L r of None \<Rightarrow> None | Some n \<Rightarrow> map_option (Cons n) (parse_all L rs))"

definition ip_matcher_new :: "'n libs \<Rightarrow> rstr list \<Rightarrow> 'n list option" where
  "ip_matcher_new L ranges = map_option (sort_nets L) (parse_all L ranges)"

definition scan_ranges :: "'n libs \<Rightarrow> 'n list \<Rightarrow> ip_addr \<Rightarrow> bool" where
  "scan_ranges L ranges a =
     (if ranges = [] then False
      else case net_new L a (full_prefix a) of
        None \<Rightarrow> list_ex (\<lambda>net. net_contains L net a) ranges
      | Some probe \<Rightarrow>
          let idx = length (takeWhile (\<lambda>net. net_le L net probe) ranges)
          in list_ex (\<lambda>net. net_contains L net a) (rev (drop (idx - 4) (take idx ranges))))"

text \<open>The matcher of a country runs the same search, with the window named \<^verbatim>\<open>MAX_OVERLAP_SCAN\<close>.\<close>

definition match_ip :: "'n libs \<Rightarrow> 'n list \<Rightarrow> ip_addr \<Rightarrow> bool" where
  [simp]: "match_ip L ranges a = scan_ranges L ranges a"

definition parse_cidr :: "'n libs \<Rightarrow> bytes \<times> u32 \<Rightarrow> 'n option" where
  "parse_cidr L c =
     (let prefix = ucast (snd c) :: u8 in
      if length (fst c) = 4 then net_new L (V4 (from_be (fst c))) prefix
      else if length (fst c) = 16 then net_new L (V6 (from_be (fst c))) prefix
      else None)"

definition geoip_from_proto :: "'n libs \<Rightarrow> (bytes \<times> u32) list \<Rightarrow> 'n list" where
  "geoip_from_proto L cidrs = sort_nets L (List.map_filter (parse_cidr L) cidrs)"

section \<open>Rules\<close>

record 'n compiled_rule =
  cr_outbound :: rstr
  cr_domain :: "domain_matcher option"
  cr_geosite :: "rstr list"
  cr_ip :: "'n list option"
  cr_geoip :: "rstr list"
  cr_ports :: "(u16 \<times> u16) list"
  cr_inbounds :: "rstr list"
  cr_protocols :: "rstr list"

record routing_context =
  rc_dest :: address
  rc_inbound :: rstr
  rc_user :: "rstr option"
  rc_protocol :: "rstr option"
  rc_domain :: "rstr option"

type_synonym 'n geoip = "rstr \<rightharpoonup> 'n list"
type_synonym geosite = "rstr \<rightharpoonup> domain_matcher"

definition rule_domain_ok :: "'n libs \<Rightarrow> geosite \<Rightarrow> 'n compiled_rule \<Rightarrow> routing_context \<Rightarrow> bool" where
  "rule_domain_ok L gs r ctx =
     (if cr_domain r = None \<and> cr_geosite r = [] then True
      else case (case rc_dest ctx of Domain d _ \<Rightarrow> Some d | _ \<Rightarrow> rc_domain ctx) of
        None \<Rightarrow> False
      | Some name \<Rightarrow>
          (case cr_domain r of None \<Rightarrow> False | Some dm \<Rightarrow> domain_matches L dm name)
          \<or> list_ex (\<lambda>code. case gs code of None \<Rightarrow> False | Some m \<Rightarrow> match_domain L m name) (cr_geosite r))"

definition rule_ip_ok :: "'n libs \<Rightarrow> 'n geoip \<Rightarrow> 'n compiled_rule \<Rightarrow> routing_context \<Rightarrow> bool" where
  "rule_ip_ok L gi r ctx =
     (if cr_ip r = None \<and> cr_geoip r = [] then True
      else case ip (rc_dest ctx) of
        None \<Rightarrow> False
      | Some a \<Rightarrow>
          (case cr_ip r of None \<Rightarrow> False | Some nets \<Rightarrow> scan_ranges L nets a)
          \<or> list_ex (\<lambda>code. case gi code of None \<Rightarrow> False | Some nets \<Rightarrow> match_ip L nets a) (cr_geoip r))"

definition matches_with_geo :: "'n libs \<Rightarrow> 'n geoip \<Rightarrow> geosite \<Rightarrow> 'n compiled_rule \<Rightarrow> routing_context \<Rightarrow> bool" where
  "matches_with_geo L gi gs r ctx =
     (if cr_inbounds r \<noteq> [] \<and> \<not> list_ex (\<lambda>t. t = rc_inbound ctx) (cr_inbounds r) then False
      else if cr_protocols r \<noteq> [] \<and> (case rc_protocol ctx of None \<Rightarrow> True | Some proto \<Rightarrow> \<not> list_ex (\<lambda>q. q = proto) (cr_protocols r)) then False
      else if cr_ports r \<noteq> [] \<and> \<not> list_ex (\<lambda>(lo, hi). lo \<le> port (rc_dest ctx) \<and> port (rc_dest ctx) \<le> hi) (cr_ports r) then False
      else if \<not> rule_domain_ok L gs r ctx then False
      else if \<not> rule_ip_ok L gi r ctx then False
      else True)"

record 'n router_inner =
  ri_rules :: "'n compiled_rule list"
  ri_default :: rstr
  ri_geoip :: "'n geoip"
  ri_geosite :: geosite
  ri_strategy :: "rstr option"
  ri_has_ip :: bool

definition live_router_new :: "'n compiled_rule list \<Rightarrow> rstr \<Rightarrow> 'n geoip \<Rightarrow> geosite \<Rightarrow> rstr option \<Rightarrow> 'n router_inner" where
  "live_router_new rules dflt gi gs strategy =
     \<lparr>ri_rules = rules, ri_default = dflt, ri_geoip = gi, ri_geosite = gs, ri_strategy = strategy,
      ri_has_ip = list_ex (\<lambda>r. cr_ip r \<noteq> None \<or> cr_geoip r \<noteq> []) rules\<rparr>"

text \<open>A reload replaces the whole inner state.\<close>

definition live_router_swap :: "'n compiled_rule list \<Rightarrow> rstr \<Rightarrow> 'n geoip \<Rightarrow> geosite \<Rightarrow> rstr option \<Rightarrow> 'n router_inner \<Rightarrow> 'n router_inner" where
  "live_router_swap rules dflt gi gs strategy _ = live_router_new rules dflt gi gs strategy"

fun first_match :: "'n libs \<Rightarrow> 'n geoip \<Rightarrow> geosite \<Rightarrow> 'n compiled_rule list \<Rightarrow> routing_context \<Rightarrow> rstr option" where
  "first_match L gi gs [] ctx = None"
| "first_match L gi gs (r # rs) ctx = (if matches_with_geo L gi gs r ctx then Some (cr_outbound r) else first_match L gi gs rs ctx)"

definition pick_route_match :: "'n libs \<Rightarrow> 'n router_inner \<Rightarrow> routing_context \<Rightarrow> rstr \<times> bool" where
  "pick_route_match L ri ctx = (case first_match L (ri_geoip ri) (ri_geosite ri) (ri_rules ri) ctx of
      Some tag \<Rightarrow> (tag, True) | None \<Rightarrow> (ri_default ri, False))"

datatype routing_domain_strategy = AsIs | IpIfNonMatch | IpOnDemand

definition normalize_routing_domain_strategy :: "rstr option \<Rightarrow> routing_domain_strategy" where
  "normalize_routing_domain_strategy s = (case map_option (\<lambda>t. to_ascii_lowercase (trim t)) s of
      None \<Rightarrow> AsIs
    | Some t \<Rightarrow> if t = ascii ''ipifnonmatch'' then IpIfNonMatch else if t = ascii ''ipondemand'' then IpOnDemand else AsIs)"

section \<open>The dispatcher's routing\<close>

text \<open>
  The DNS module and the system resolver are functions from a name to the addresses they return, \<open>None\<close> for an error or
  a timeout. \<open>df_fake\<close> is the FakeIP table: whether an address is in the pool, and the name it stands for.
\<close>

record 'n dispatcher =
  df_router :: "'n router_inner"
  df_dns :: "(rstr \<Rightarrow> ip_addr list option) option"
  df_lookup :: "rstr \<Rightarrow> u16 \<Rightarrow> ip_addr list option"
  df_is_fake :: "u32 \<Rightarrow> bool"
  df_reverse_fake :: "u32 \<Rightarrow> rstr option"
  df_outbounds :: "rstr list"

fun with_port :: "u16 \<Rightarrow> ip_addr \<Rightarrow> address" where
  "with_port p (V4 a) = Ipv4 a p"
| "with_port p (V6 a) = Ipv6 a p"

definition routing_ctx :: "address \<Rightarrow> routing_context \<Rightarrow> routing_context" where
  "routing_ctx dest ctx = ctx\<lparr>rc_dest := dest\<rparr>"

definition resolve_domain_ips :: "'n dispatcher \<Rightarrow> address \<Rightarrow> address list option" where
  "resolve_domain_ips df dest = (case dest of
      Domain name p \<Rightarrow>
        let found = (case df_dns df of None \<Rightarrow> [] | Some resolve \<Rightarrow> (case resolve name of None \<Rightarrow> [] | Some as \<Rightarrow> map (with_port p) as));
            ips = (if found = [] then (case df_lookup df name p of None \<Rightarrow> [] | Some as \<Rightarrow> map (with_port p) as) else found)
        in if ips = [] then None else Some ips
    | _ \<Rightarrow> None)"

definition prefetch_dns :: "'n dispatcher \<Rightarrow> address \<Rightarrow> address list option option" where
  "prefetch_dns df dest = (case dest of
      Domain name p \<Rightarrow> (case df_dns df of None \<Rightarrow> None | Some resolve \<Rightarrow> Some (resolve_domain_ips df dest))
    | _ \<Rightarrow> None)"

fun first_routed :: "'n libs \<Rightarrow> 'n router_inner \<Rightarrow> routing_context \<Rightarrow> address list \<Rightarrow> rstr option" where
  "first_routed L ri ctx [] = None"
| "first_routed L ri ctx (d # ds) = (case pick_route_match L ri (routing_ctx d ctx) of
      (tag, matched) \<Rightarrow> if matched then Some tag else first_routed L ri ctx ds)"

definition pick_route_xray :: "'n libs \<Rightarrow> 'n dispatcher \<Rightarrow> routing_context \<Rightarrow> rstr" where
  "pick_route_xray L df ctx =
     (let ri = df_router df;
          dest = rc_dest ctx;
          strategy = normalize_routing_domain_strategy (ri_strategy ri);
          on_demand = (if strategy = IpOnDemand \<and> is_domain dest \<and> ri_has_ip ri
                       then (case resolve_domain_ips df dest of None \<Rightarrow> None | Some ips \<Rightarrow> first_routed L ri ctx ips)
                       else None)
      in case on_demand of
        Some tag \<Rightarrow> tag
      | None \<Rightarrow>
          let prefetch = (if strategy = IpIfNonMatch \<and> is_domain dest \<and> ri_has_ip ri then prefetch_dns df dest else None);
              (route, matched) = pick_route_match L ri ctx
          in if matched \<or> strategy = AsIs then route
             else if strategy = IpIfNonMatch \<and> is_domain dest
             then (case (case prefetch of Some r \<Rightarrow> r | None \<Rightarrow> resolve_domain_ips df dest) of
                     None \<Rightarrow> route
                   | Some ips \<Rightarrow> (case first_routed L ri ctx ips of Some tag \<Rightarrow> tag | None \<Rightarrow> route))
             else route)"

definition restore_fakeip_destination :: "'n dispatcher \<Rightarrow> address \<Rightarrow> address" where
  "restore_fakeip_destination df dest = (case df_dns df of
      None \<Rightarrow> dest
    | Some _ \<Rightarrow> (case dest of
        Ipv4 a p \<Rightarrow> if df_is_fake df a then (case df_reverse_fake df a of Some d \<Rightarrow> Domain d p | None \<Rightarrow> Ipv4 a p) else dest
      | _ \<Rightarrow> dest))"

text \<open>The outbound a connection goes to, with the destination it is given.\<close>

definition connect_outbound :: "'n libs \<Rightarrow> 'n dispatcher \<Rightarrow> routing_context \<Rightarrow> (rstr \<times> address) result" where
  "connect_outbound L df ctx =
     (let dest = restore_fakeip_destination df (rc_dest ctx);
          tag = pick_route_xray L df (routing_ctx dest ctx)
      in if tag \<in> set (df_outbounds df) then Inr (tag, dest) else Inl (Err (Protocol ''outbound not found'')))"

end
