(* ===== verification/RouterProps.thy ===== *)
theory RouterProps
  imports Router
begin

text \<open>
  Routing decisions: the label walk against its specification, the range search against a scan of all ranges, and what
  resolving before routing does to domain rules.
\<close>

section \<open>Label suffixes\<close>

lemma after_dot_append: "0x2E \<notin> set pre \<Longrightarrow> after_dot (pre @ 0x2E # t) = Some t"
  by (induction pre) auto

lemma after_dot_split: "after_dot s = Some t \<Longrightarrow> \<exists>pre. s = pre @ 0x2E # t \<and> 0x2E \<notin> set pre"
proof (induction s)
  case (Cons b s)
  show ?case
  proof (cases "b = 0x2E")
    case True
    then have "b # s = [] @ 0x2E # t" using Cons.prems by simp
    then show ?thesis by (intro exI [of _ "[]"]) simp
  next
    case False
    then obtain pre where "s = pre @ 0x2E # t" "0x2E \<notin> set pre" using Cons by auto
    then show ?thesis using False by (intro exI [of _ "b # pre"]) simp
  qed
qed simp

lemma after_dot_None: "after_dot s = None \<longleftrightarrow> 0x2E \<notin> set s"
  by (induction s) auto

text \<open>A suffix of a name that starts at a label.\<close>

definition label_suffix :: "rstr \<Rightarrow> rstr \<Rightarrow> bool" where
  "label_suffix t s \<longleftrightarrow> t = s \<or> (\<exists>pre. s = pre @ 0x2E # t)"

lemma label_suffix_after_dot:
  assumes "after_dot s = Some u" and "t \<noteq> s"
  shows "label_suffix t s \<longleftrightarrow> label_suffix t u"
proof -
  obtain pre where s: "s = pre @ 0x2E # u" and pre: "0x2E \<notin> set pre" using after_dot_split [OF assms(1)] by blast
  have "(\<exists>q. s = q @ 0x2E # t) \<longleftrightarrow> u = t \<or> (\<exists>q. u = q @ 0x2E # t)"
  proof
    assume "\<exists>q. s = q @ 0x2E # t"
    then obtain q where q: "pre @ 0x2E # u = q @ 0x2E # t" by (auto simp: s)
    then consider r where "pre = q @ r" "r @ 0x2E # u = 0x2E # t" | r where "pre @ r = q" "0x2E # u = r @ 0x2E # t"
      by (auto simp: append_eq_append_conv2)
    then show "u = t \<or> (\<exists>q. u = q @ 0x2E # t)"
    proof cases
      case 1
      then show ?thesis using pre by (cases r) auto
    next
      case 2
      then show ?thesis by (cases r) auto
    qed
  next
    assume "u = t \<or> (\<exists>q. u = q @ 0x2E # t)"
    then show "\<exists>q. s = q @ 0x2E # t" unfolding s by (metis append.assoc append_Cons)
  qed
  then show ?thesis using assms(2) by (auto simp: label_suffix_def)
qed

lemma suffix_walk_iff: "suffix_walk pats s \<longleftrightarrow> (\<exists>t\<in>set pats. t \<noteq> [] \<and> label_suffix t s)"
proof (induction pats s rule: suffix_walk.induct)
  case (1 pats s)
  show ?case
  proof (cases "s = [] \<or> s \<in> set pats")
    case True
    then show ?thesis by (subst suffix_walk.simps) (auto simp: label_suffix_def)
  next
    case False
    then have walk: "suffix_walk pats s = (case after_dot s of None \<Rightarrow> False | Some u \<Rightarrow> suffix_walk pats u)"
      by (subst suffix_walk.simps) simp
    show ?thesis
    proof (cases "after_dot s")
      case None
      then have "\<not> suffix_walk pats s" and "0x2E \<notin> set s" using walk None by (simp_all, simp add: after_dot_None)
      then show ?thesis using False by (auto simp: label_suffix_def)
    next
      case (Some u)
      have "suffix_walk pats u \<longleftrightarrow> (\<exists>t\<in>set pats. t \<noteq> [] \<and> label_suffix t u)" using 1 False Some by auto
      moreover have "label_suffix t s \<longleftrightarrow> label_suffix t u" if "t \<in> set pats" for t
        using label_suffix_after_dot [OF Some, of t] that False by auto
      ultimately show ?thesis using walk Some by auto
    qed
  qed
qed

section \<open>Address ranges\<close>

fun ip_bits :: "ip_addr \<Rightarrow> nat" where
  "ip_bits (V4 _) = 32"
| "ip_bits (V6 _) = 128"

fun ip_num :: "ip_addr \<Rightarrow> nat" where
  "ip_num (V4 a) = unat a"
| "ip_num (V6 a) = unat a"

text \<open>
  What \<^verbatim>\<open>ipnet\<close> documents of a network with its address and prefix length: the constructor keeps both and refuses a prefix
  longer than the address; networks are ordered by family, address and prefix length; a network contains the addresses
  of its family that agree with it on the prefix.
\<close>

definition net_laws :: "'n libs \<Rightarrow> ('n \<Rightarrow> ip_addr) \<Rightarrow> ('n \<Rightarrow> nat) \<Rightarrow> bool" where
  "net_laws L addr plen \<longleftrightarrow>
     (\<forall>a q. (case net_new L a q of Some n \<Rightarrow> addr n = a \<and> plen n = unat q | None \<Rightarrow> unat q > ip_bits a))
   \<and> (\<forall>n. plen n \<le> ip_bits (addr n))
   \<and> (\<forall>m n. net_le L m n \<longleftrightarrow> ip_bits (addr m) < ip_bits (addr n) \<or> ip_bits (addr m) = ip_bits (addr n)
        \<and> (ip_num (addr m) < ip_num (addr n) \<or> ip_num (addr m) = ip_num (addr n) \<and> plen m \<le> plen n))
   \<and> (\<forall>n a. net_contains L n a \<longleftrightarrow> ip_bits (addr n) = ip_bits a
        \<and> ip_num (addr n) div 2 ^ (ip_bits a - plen n) = ip_num a div 2 ^ (ip_bits a - plen n))"

definition canonical :: "('n \<Rightarrow> ip_addr) \<Rightarrow> ('n \<Rightarrow> nat) \<Rightarrow> 'n \<Rightarrow> bool" where
  "canonical addr plen n \<longleftrightarrow> 2 ^ (ip_bits (addr n) - plen n) dvd ip_num (addr n)"

lemma net_le_law:
  assumes "net_laws L addr plen"
  shows "net_le L m n \<longleftrightarrow> ip_bits (addr m) < ip_bits (addr n) \<or> ip_bits (addr m) = ip_bits (addr n)
        \<and> (ip_num (addr m) < ip_num (addr n) \<or> ip_num (addr m) = ip_num (addr n) \<and> plen m \<le> plen n)"
  using assms unfolding net_laws_def by blast

lemma net_contains_law:
  assumes "net_laws L addr plen"
  shows "net_contains L n a \<longleftrightarrow> ip_bits (addr n) = ip_bits a
        \<and> ip_num (addr n) div 2 ^ (ip_bits a - plen n) = ip_num a div 2 ^ (ip_bits a - plen n)"
  using assms unfolding net_laws_def by blast

lemma net_new_law:
  assumes "net_laws L addr plen"
  shows "net_new L a q = Some n \<Longrightarrow> addr n = a \<and> plen n = unat q" and "unat q \<le> ip_bits a \<Longrightarrow> \<exists>n. net_new L a q = Some n"
proof -
  have new: "case net_new L a q of Some n \<Rightarrow> addr n = a \<and> plen n = unat q | None \<Rightarrow> unat q > ip_bits a"
    using assms unfolding net_laws_def by blast
  show "net_new L a q = Some n \<Longrightarrow> addr n = a \<and> plen n = unat q" using new by simp
  show "unat q \<le> ip_bits a \<Longrightarrow> \<exists>n. net_new L a q = Some n" using new by (cases "net_new L a q") simp_all
qed

lemma net_plen_law: "net_laws L addr plen \<Longrightarrow> plen n \<le> ip_bits (addr n)"
  unfolding net_laws_def by blast

lemma net_order:
  assumes "net_laws L addr plen"
  shows "net_le L m n \<or> net_le L n m" and "net_le L k m \<Longrightarrow> net_le L m n \<Longrightarrow> net_le L k n"
  unfolding net_le_law [OF assms] by auto

lemma set_insert_net [simp]: "set (insert_net L n ms) = insert n (set ms)"
  by (induction ms) auto

lemma set_sort_nets [simp]: "set (sort_nets L ns) = set ns"
  by (induction ns) (simp_all add: sort_nets_def)

lemma filter_insert_net: "length (filter P (insert_net L n ms)) = length (filter P (n # ms))"
  by (induction ms) auto

lemma filter_sort_nets: "length (filter P (sort_nets L ns)) = length (filter P ns)"
  by (induction ns) (simp_all add: sort_nets_def filter_insert_net)

lemma sorted_insert_net:
  assumes "net_laws L addr plen" and "sorted_wrt (net_le L) ms"
  shows "sorted_wrt (net_le L) (insert_net L n ms)"
  using assms(2)
proof (induction ms)
  case (Cons m ms)
  show ?case
  proof (cases "net_le L n m")
    case True
    then show ?thesis using Cons.prems net_order(2) [OF assms(1) True] by auto
  next
    case False
    then have "net_le L m n" using net_order(1) [OF assms(1)] by blast
    then show ?thesis using False Cons by auto
  qed
qed simp

lemma sorted_sort_nets: "net_laws L addr plen \<Longrightarrow> sorted_wrt (net_le L) (sort_nets L ns)"
  by (induction ns) (simp_all add: sort_nets_def sorted_insert_net)

text \<open>Whatever lies in the order between a canonical network and an address it contains starts inside the network.\<close>

lemma between_inside:
  assumes laws: "net_laws L addr plen" and n: "net_contains L n a" and probe: "addr probe = a"
    and le: "net_le L n m" "net_le L m probe"
  shows "net_contains L n (addr m)"
proof -
  let ?B = "2 ^ (ip_bits a - plen n) :: nat"
  have fam: "ip_bits (addr n) = ip_bits a" and same: "ip_num (addr n) div ?B = ip_num a div ?B"
    using n unfolding net_contains_law [OF laws] by blast+
  have fam_m: "ip_bits (addr m) = ip_bits a" and lo: "ip_num (addr n) \<le> ip_num (addr m)" and hi: "ip_num (addr m) \<le> ip_num a"
    using le [unfolded net_le_law [OF laws] probe fam] by linarith+
  have "ip_num (addr n) div ?B \<le> ip_num (addr m) div ?B" "ip_num (addr m) div ?B \<le> ip_num a div ?B"
    using lo hi by (simp_all add: div_le_mono)
  with same have "ip_num (addr n) div ?B = ip_num (addr m) div ?B" by linarith
  then show ?thesis unfolding net_contains_law [OF laws] fam fam_m by blast
qed

lemma canonical_below:
  assumes laws: "net_laws L addr plen" and n: "net_contains L n a" and canon: "canonical addr plen n"
    and probe: "addr probe = a" "plen probe = ip_bits a"
  shows "net_le L n probe"
proof -
  let ?B = "2 ^ (ip_bits a - plen n) :: nat"
  have fam: "ip_bits (addr n) = ip_bits a" and same: "ip_num (addr n) div ?B = ip_num a div ?B"
    using n unfolding net_contains_law [OF laws] by blast+
  have "ip_num (addr n) = ip_num (addr n) div ?B * ?B" using canon fam by (simp add: canonical_def)
  also have "\<dots> \<le> ip_num a" by (simp add: same)
  finally show ?thesis using net_plen_law [OF laws, of n] unfolding net_le_law [OF laws] probe fam by linarith
qed

lemma sorted_takeWhile:
  assumes "sorted_wrt R xs" and "\<And>x y. R x y \<Longrightarrow> P y \<Longrightarrow> P x" and "x \<in> set xs" and "P x"
  shows "x \<in> set (takeWhile P xs)"
  using assms(1,3)
proof (induction xs)
  case (Cons y ys)
  then have "P y" using assms(2,4) by auto
  then show ?case using Cons by auto
qed simp

lemma suffix_of_few:
  assumes "j < length xs" and "\<forall>y\<in>set (drop j xs). P y" and "length (filter P xs) \<le> k"
  shows "xs ! j \<in> set (drop (length xs - k) xs)"
proof -
  have "length (filter P (drop j xs)) \<le> length (filter P xs)"
    by (metis append_take_drop_id filter_append le_add2 length_append)
  moreover have "filter P (drop j xs) = drop j xs" using assms(2) by (simp add: filter_id_conv)
  ultimately have "length xs - k \<le> j" using assms(3) by simp
  then have "drop (length xs - k) xs ! (j - (length xs - k)) = xs ! j" using assms(1) by simp
  moreover have "j - (length xs - k) < length (drop (length xs - k) xs)" using assms(1) \<open>length xs - k \<le> j\<close> by simp
  ultimately show ?thesis by (metis nth_mem)
qed

lemma filter_takeWhile_length: "length (filter P (takeWhile Q xs)) \<le> length (filter P xs)"
  by (metis filter_append le_add1 length_append takeWhile_dropWhile_id)

lemma full_prefix_bits: "unat (full_prefix a) = ip_bits a"
  by (cases a) simp_all

lemma scan_ranges_probe:
  assumes "net_new L a (full_prefix a) = Some probe"
  shows "scan_ranges L xs a \<longleftrightarrow> (let ws = takeWhile (\<lambda>net. net_le L net probe) xs in \<exists>net\<in>set (drop (length ws - 4) ws). net_contains L net a)"
proof -
  have "take (length (takeWhile (\<lambda>net. net_le L net probe) xs)) xs = takeWhile (\<lambda>net. net_le L net probe) xs"
    by (metis append_eq_conv_conj takeWhile_dropWhile_id)
  then show ?thesis using assms by (auto simp: scan_ranges_def Let_def list_ex_iff)
qed

text \<open>
  Property C30. The range search is exact for well-kept lists: whatever the order in which networks were configured, if
  none has host bits set and none has more than three of the others starting inside it, an address matches the rule or
  country exactly when some network of the list contains it.
\<close>

theorem range_search_exact:
  assumes laws: "net_laws L addr plen" and canon: "\<forall>n\<in>set nets. canonical addr plen n"
    and depth: "\<forall>n\<in>set nets. length (filter (\<lambda>m. net_contains L n (addr m)) nets) \<le> 4"
  shows "scan_ranges L (sort_nets L nets) a \<longleftrightarrow> (\<exists>n\<in>set nets. net_contains L n a)"
proof -
  obtain probe where new: "net_new L a (full_prefix a) = Some probe"
    using net_new_law(2) [OF laws, of "full_prefix a" a] full_prefix_bits by auto
  then have probe: "addr probe = a" "plen probe = ip_bits a"
    using net_new_law(1) [OF laws new] by (simp_all add: full_prefix_bits)
  define ws where "ws = takeWhile (\<lambda>net. net_le L net probe) (sort_nets L nets)"
  have sorted: "sorted_wrt (net_le L) (sort_nets L nets)" by (rule sorted_sort_nets [OF laws])
  have sub: "set ws \<subseteq> set nets" using set_takeWhileD by (fastforce simp: ws_def)
  have "n \<in> set (drop (length ws - 4) ws)" if n: "n \<in> set nets" "net_contains L n a" for n
  proof -
    have "net_le L n probe" by (rule canonical_below [OF laws n(2) _ probe]) (use canon n(1) in blast)
    then have "n \<in> set ws"
      unfolding ws_def by (intro sorted_takeWhile [OF sorted]) (use n(1) net_order(2) [OF laws] in auto)
    then obtain j where j: "j < length ws" "ws ! j = n" by (auto simp: in_set_conv_nth)
    have "net_contains L n (addr m)" if m: "m \<in> set (drop j ws)" for m
    proof -
      obtain i where "i < length (drop j ws)" "drop j ws ! i = m" using m by (meson in_set_conv_nth)
      then have i: "j + i < length ws" "m = ws ! (j + i)" using j(1) by simp_all
      have "sorted_wrt (net_le L) ws" unfolding ws_def by (metis sorted sorted_wrt_append takeWhile_dropWhile_id)
      then have "net_le L n m"
        using i j net_order(1) [OF laws, of n n] by (cases "i = 0") (auto simp: sorted_wrt_iff_nth_less)
      moreover have "net_le L m probe" using i set_takeWhileD nth_mem unfolding ws_def by fastforce
      ultimately show ?thesis by (rule between_inside [OF laws n(2) probe(1)])
    qed
    moreover have "length (filter (\<lambda>m. net_contains L n (addr m)) ws) \<le> 4"
      using depth n(1) filter_takeWhile_length le_trans unfolding ws_def by (metis filter_sort_nets)
    ultimately show ?thesis using suffix_of_few [OF j(1), of "\<lambda>m. net_contains L n (addr m)" 4] j(2) by blast
  qed
  moreover have "set (drop (length ws - 4) ws) \<subseteq> set nets" using sub set_drop_subset by (rule subset_trans [rotated])
  ultimately show ?thesis unfolding scan_ranges_probe [OF new] ws_def [symmetric] Let_def by blast
qed

text \<open>Networks as address and prefix length satisfy the laws.\<close>

definition plain_plen :: "ip_addr \<times> nat \<Rightarrow> nat" where
  "plain_plen n = min (snd n) (ip_bits (fst n))"

definition plain_libs :: "(ip_addr \<times> nat) libs" where
  "plain_libs = \<lparr>net_new = (\<lambda>a q. if unat q \<le> ip_bits a then Some (a, unat q) else None), net_parse = (\<lambda>_. None),
     net_le = (\<lambda>m n. ip_bits (fst m) < ip_bits (fst n) \<or> ip_bits (fst m) = ip_bits (fst n)
        \<and> (ip_num (fst m) < ip_num (fst n) \<or> ip_num (fst m) = ip_num (fst n) \<and> plain_plen m \<le> plain_plen n)),
     net_contains = (\<lambda>n a. ip_bits (fst n) = ip_bits a
        \<and> ip_num (fst n) div 2 ^ (ip_bits a - plain_plen n) = ip_num a div 2 ^ (ip_bits a - plain_plen n)),
     ac_builds = (\<lambda>_. True), ac_match = (\<lambda>ks d. \<exists>k\<in>set ks. sublist k d), regex_builds = (\<lambda>_. True), regex_match = (\<lambda>_ _. False),
     unicode_lower = id\<rparr>"

lemma plain_laws: "net_laws plain_libs fst plain_plen"
  by (auto simp: net_laws_def plain_libs_def plain_plen_def)

theorem range_search_exact_witness:
  "scan_ranges plain_libs (sort_nets plain_libs [(V4 0x0A010000, 16), (V4 0x0A000000, 8)]) (V4 0x0A020304)
     \<longleftrightarrow> (\<exists>n\<in>set [(V4 0x0A010000, 16), (V4 0x0A000000, 8)]. net_contains plain_libs n (V4 0x0A020304))"
  by (rule range_search_exact [OF plain_laws]) (simp_all add: canonical_def plain_plen_def)

text \<open>A network that holds four more specific ones hides behind them; so does one written with host bits.\<close>

lemma range_search_misses:
  assumes laws: "net_laws L addr plen"
    and nets: "net_new L (V4 0x0A000000) 8 = Some n0" "net_new L (V4 0x0A010000) 16 = Some n1" "net_new L (V4 0x0A020000) 16 = Some n2"
      "net_new L (V4 0x0A030000) 16 = Some n3" "net_new L (V4 0x0A040000) 16 = Some n4" "net_new L (V4 0x0AC80000) 8 = Some n5"
  shows "net_contains L n0 (V4 0x0A050001) \<and> \<not> scan_ranges L (sort_nets L [n0, n1, n2, n3, n4]) (V4 0x0A050001)"
    and "net_contains L n5 (V4 0x0A050001) \<and> \<not> scan_ranges L (sort_nets L [n5]) (V4 0x0A050001)"
proof -
  obtain probe where new: "net_new L (V4 0x0A050001) (full_prefix (V4 0x0A050001)) = Some probe"
    using net_new_law(2) [OF laws, of "32" "V4 0x0A050001"] by auto
  note f = nets [THEN net_new_law(1) [OF laws]] net_new_law(1) [OF laws new]
  show "net_contains L n0 (V4 0x0A050001) \<and> \<not> scan_ranges L (sort_nets L [n0, n1, n2, n3, n4]) (V4 0x0A050001)"
    and "net_contains L n5 (V4 0x0A050001) \<and> \<not> scan_ranges L (sort_nets L [n5]) (V4 0x0A050001)"
    unfolding scan_ranges_probe [OF new]
    by (simp_all add: sort_nets_def net_le_law [OF laws] net_contains_law [OF laws] f)
qed

section \<open>Rules\<close>

text \<open>A rule matches when every restriction it states holds; the restrictions are checked in order but independently.\<close>

lemma matches_with_geo_iff:
  "matches_with_geo L gi gs r ctx \<longleftrightarrow>
     (cr_inbounds r = [] \<or> rc_inbound ctx \<in> set (cr_inbounds r))
   \<and> (cr_protocols r = [] \<or> (\<exists>proto\<in>set (cr_protocols r). rc_protocol ctx = Some proto))
   \<and> (cr_ports r = [] \<or> (\<exists>(lo, hi)\<in>set (cr_ports r). lo \<le> port (rc_dest ctx) \<and> port (rc_dest ctx) \<le> hi))
   \<and> rule_domain_ok L gs r ctx \<and> rule_ip_ok L gi r ctx"
  by (auto simp: matches_with_geo_def list_ex_iff split: option.split)

lemma first_match_Some:
  "first_match L gi gs rs ctx = Some tag \<longleftrightarrow>
     (\<exists>i<length rs. matches_with_geo L gi gs (rs ! i) ctx \<and> cr_outbound (rs ! i) = tag \<and> (\<forall>j<i. \<not> matches_with_geo L gi gs (rs ! j) ctx))"
proof (induction rs)
  case (Cons r rs)
  then show ?case by (cases "matches_with_geo L gi gs r ctx") (auto simp: Ex_less_Suc2 All_less_Suc2)
qed simp

lemma first_match_None: "first_match L gi gs rs ctx = None \<longleftrightarrow> (\<forall>r\<in>set rs. \<not> matches_with_geo L gi gs r ctx)"
  by (induction rs) auto

lemma ip_rule_needs_address:
  "matches_with_geo L gi gs r ctx \<Longrightarrow> is_domain (rc_dest ctx) \<Longrightarrow> cr_ip r = None \<and> cr_geoip r = []"
  by (cases "rc_dest ctx") (auto simp: matches_with_geo_iff rule_ip_ok_def split: if_splits)

lemma domain_rule_needs_name:
  "matches_with_geo L gi gs r ctx \<Longrightarrow> \<not> is_domain (rc_dest ctx) \<Longrightarrow> rc_domain ctx = None \<Longrightarrow> cr_domain r = None \<and> cr_geosite r = []"
  by (cases "rc_dest ctx") (auto simp: matches_with_geo_iff rule_domain_ok_def split: if_splits)

section \<open>The dispatcher\<close>

lemma pick_route_match_cases:
  assumes "pick_route_match L ri ctx = (tag, matched)"
  shows "if matched then \<exists>r\<in>set (ri_rules ri). matches_with_geo L (ri_geoip ri) (ri_geosite ri) r ctx \<and> cr_outbound r = tag
      else tag = ri_default ri \<and> (\<forall>r\<in>set (ri_rules ri). \<not> matches_with_geo L (ri_geoip ri) (ri_geosite ri) r ctx)"
proof (cases "first_match L (ri_geoip ri) (ri_geosite ri) (ri_rules ri) ctx")
  case None
  then have "\<forall>r\<in>set (ri_rules ri). \<not> matches_with_geo L (ri_geoip ri) (ri_geosite ri) r ctx" unfolding first_match_None .
  then show ?thesis using assms None by (auto simp: pick_route_match_def)
next
  case (Some t)
  then obtain i where "i < length (ri_rules ri)" "matches_with_geo L (ri_geoip ri) (ri_geosite ri) (ri_rules ri ! i) ctx" "cr_outbound (ri_rules ri ! i) = t"
    unfolding first_match_Some by blast
  then show ?thesis using assms Some nth_mem by (auto simp: pick_route_match_def)
qed

lemma first_routed_Some:
  "first_routed L ri ctx ds = Some tag \<Longrightarrow>
     \<exists>d\<in>set ds. \<exists>r\<in>set (ri_rules ri). matches_with_geo L (ri_geoip ri) (ri_geosite ri) r (routing_ctx d ctx) \<and> cr_outbound r = tag"
proof (induction ds)
  case (Cons d ds)
  obtain t m where p: "pick_route_match L ri (routing_ctx d ctx) = (t, m)" by force
  then show ?case using Cons pick_route_match_cases [OF p] by (cases m) auto
qed simp

lemma first_routed_exists:
  assumes "d \<in> set ds" and "r \<in> set (ri_rules ri)" and "matches_with_geo L (ri_geoip ri) (ri_geosite ri) r (routing_ctx d ctx)"
  shows "\<exists>tag. first_routed L ri ctx ds = Some tag"
  using assms(1)
proof (induction ds)
  case (Cons e ds)
  obtain t m where p: "pick_route_match L ri (routing_ctx e ctx) = (t, m)" by force
  have "m" if "e = d" using pick_route_match_cases [OF p] assms(2,3) that by (auto split: if_splits)
  then show ?case using Cons p by auto
qed simp

lemma with_port_not_domain: "d \<in> set (map (with_port p) as) \<Longrightarrow> \<not> is_domain d"
proof -
  have "\<not> is_domain (with_port p a)" for a by (cases a) simp_all
  then show "d \<in> set (map (with_port p) as) \<Longrightarrow> \<not> is_domain d" by auto
qed

lemma resolved_not_domain:
  assumes "resolve_domain_ips df dest = Some ips" and "d \<in> set ips"
  shows "\<not> is_domain d"
proof -
  obtain name p as where "ips = map (with_port p) as"
    using assms(1) by (cases dest) (auto simp: resolve_domain_ips_def Let_def split: option.splits if_splits)
  then show ?thesis using assms(2) with_port_not_domain by blast
qed


abbreviation (input) "plain_rule \<equiv> \<lparr>cr_outbound = [], cr_domain = None, cr_geosite = [], cr_ip = None, cr_geoip = [], cr_ports = [],
  cr_inbounds = [], cr_protocols = []\<rparr>"

definition demo_router :: "(ip_addr \<times> nat) router_inner" where
  "demo_router = live_router_new
     [plain_rule\<lparr>cr_outbound := ascii ''block'', cr_domain := Some \<lparr>dm_full = [ascii ''ads.io''], dm_suffix = [], dm_keyword = [], dm_regex = []\<rparr>\<rparr>,
      plain_rule\<lparr>cr_outbound := ascii ''lan'', cr_ip := Some [(V4 0x0A000000, 8)]\<rparr>,
      plain_rule\<lparr>cr_outbound := ascii ''proxy''\<rparr>] (ascii ''direct'') (\<lambda>_. None) (\<lambda>_. None) (Some (ascii ''IPOnDemand''))"

definition demo_dispatcher :: "(ip_addr \<times> nat) dispatcher" where
  "demo_dispatcher = \<lparr>df_router = demo_router, df_dns = Some (\<lambda>_. Some [V4 0x01020304]), df_lookup = (\<lambda>_ _. None),
     df_is_fake = (\<lambda>_. False), df_reverse_fake = (\<lambda>_. None), df_outbounds = []\<rparr>"

lemma trim_plain: "find (\<lambda>w. prefix w s) white_space = None \<Longrightarrow> find (\<lambda>w. suffix w s) white_space = None \<Longrightarrow> trim s = s"
  by (simp add: trim_def trim_start.simps trim_end.simps)

lemma demo_strategy: "normalize_routing_domain_strategy (ri_strategy demo_router) = IpOnDemand"
proof -
  have "trim (ascii ''IPOnDemand'') = ascii ''IPOnDemand''"
    by (rule trim_plain) (simp_all add: white_space_def suffix_to_prefix)
  then show ?thesis
    by (simp add: normalize_routing_domain_strategy_def demo_router_def live_router_new_def to_ascii_lowercase_def is_ascii_uppercase_def)
qed


end
