(* ===== verification/Sniff.thy ===== *)
theory Sniff
  imports RouterProps
begin

text \<open>
  Traffic sniffing (\<^verbatim>\<open>crates/blackwire-app/src/sniff.rs\<close>) and its place in the dispatcher: the server name of a TLS ClientHello,
  the Host header of an HTTP request, the name behind a fake address, and the rewriting of the destination. Indexing is
  the panicking \<open>idx\<close>; the bytes the peek returned are an argument.
\<close>

section \<open>Server names\<close>

definition u16_at :: "bytes \<Rightarrow> nat \<Rightarrow> nat result" where
  "u16_at data pos = bindE (idx data pos) (\<lambda>hi. bindE (idx data (pos + 1)) (\<lambda>lo. Inr (unat hi * 256 + unat lo)))"

definition str_from_utf8 :: "bytes \<Rightarrow> rstr option" where
  "str_from_utf8 bs = (if utf8_valid bs then Some bs else None)"

function sni_walk :: "bytes \<Rightarrow> nat \<Rightarrow> nat \<Rightarrow> rstr option result" where
  "sni_walk data pos fin =
     (if pos + 4 \<le> min fin (length data)
      then bindE (u16_at data pos) (\<lambda>etype. bindE (u16_at data (pos + 2)) (\<lambda>elen.
        let pos1 = pos + 4 in
        if pos1 + elen > length data then Inr None
        else bindE (if etype = 0 \<and> elen > 5 then bindE (idx data (pos1 + 2)) (\<lambda>b. Inr (b = 0)) else Inr False) (\<lambda>server_name.
          if server_name
          then bindE (u16_at data (pos1 + 3)) (\<lambda>name_len.
            if pos1 + 5 + name_len \<le> length data
            then bindE (rslice data (pos1 + 5) (pos1 + 5 + name_len)) (\<lambda>name. Inr (str_from_utf8 name))
            else sni_walk data (pos1 + elen) fin)
          else sni_walk data (pos1 + elen) fin)))
      else Inr None)"
  by pat_completeness auto

termination
  by (relation "measure (\<lambda>(data, pos, fin). length data - pos)") auto

declare sni_walk.simps [simp del]

definition tls_sni :: "bytes \<Rightarrow> rstr option result" where
  "tls_sni data =
     (if length data < 5 then Inr None
      else bindE (idx data 0) (\<lambda>content_type.
        if content_type \<noteq> 0x16 then Inr None
        else if 5 \<ge> length data then Inr None
        else bindE (idx data 5) (\<lambda>msg_type.
          if msg_type \<noteq> 0x01 then Inr None
          else let pos = 5 + 4 + (2 + 32 + 1) in
          if pos + 2 > length data then Inr None
          else bindE (u16_at data pos) (\<lambda>sess_len.
            let pos1 = pos + (2 + sess_len) in
            if pos1 + 2 > length data then Inr None
            else bindE (u16_at data pos1) (\<lambda>suites_len.
              let pos2 = pos1 + (2 + suites_len) in
              if pos2 \<ge> length data then Inr None
              else bindE (idx data pos2) (\<lambda>comp_len.
                let pos3 = pos2 + (1 + unat comp_len) in
                if pos3 + 2 > length data then Inr None
                else bindE (u16_at data pos3) (\<lambda>ext_len.
                  sni_walk data (pos3 + 2) (pos3 + 2 + ext_len))))))))"

section \<open>Host headers\<close>

text \<open>\<^verbatim>\<open>str::lines\<close>: the pieces between line feeds, without a carriage return before the line feed.\<close>

definition strip_cr :: "rstr \<Rightarrow> rstr" where
  "strip_cr l = (if l \<noteq> [] \<and> last l = 0x0D then butlast l else l)"

fun str_lines :: "rstr \<Rightarrow> rstr \<Rightarrow> rstr list" where
  "str_lines acc [] = (if acc = [] then [] else [acc])"
| "str_lines acc (b # s) = (if b = 0x0A then strip_cr acc # str_lines [] s else str_lines (acc @ [b]) s)"

definition is_http_method :: "rstr \<Rightarrow> bool" where
  "is_http_method l \<longleftrightarrow> prefix (ascii ''GET '') l \<or> prefix (ascii ''POST '') l \<or> prefix (ascii ''PUT '') l
     \<or> prefix (ascii ''HEAD '') l \<or> prefix (ascii ''CONNECT '') l"

definition before_colon :: "rstr \<Rightarrow> rstr" where
  "before_colon s = takeWhile (\<lambda>b. b \<noteq> 0x3A) s"

fun host_lines :: "rstr list \<Rightarrow> rstr option" where
  "host_lines [] = None"
| "host_lines (l # ls) =
     (if l = [] then None
      else let lower = to_ascii_lowercase l in
        if prefix (ascii ''host:'') lower
        then let host = before_colon (trim (drop 5 lower)) in if host \<noteq> [] then Some host else host_lines ls
        else host_lines ls)"

definition http_host :: "bytes \<Rightarrow> rstr option" where
  "http_host data =
     (if \<not> utf8_valid data then None
      else case str_lines [] data of
        [] \<Rightarrow> None
      | first # rest \<Rightarrow> if is_http_method first then host_lines rest else None)"

section \<open>Results and destinations\<close>

record sniffing_config =
  sc_enabled :: bool
  sc_override :: "rstr list"
  sc_metadata_only :: bool
  sc_route_only :: bool

record sniff_result =
  sr_protocol :: "rstr option"
  sr_domain :: "rstr option"

abbreviation "no_sniff \<equiv> \<lparr>sr_protocol = None, sr_domain = None\<rparr>"

definition analyze_peek :: "bytes \<Rightarrow> sniffing_config \<Rightarrow> sniff_result result" where
  "analyze_peek peek cfg =
     (let want_http = ascii ''http'' \<in> set (sc_override cfg); want_tls = ascii ''tls'' \<in> set (sc_override cfg);
          http = (if want_http then (case http_host peek of
              Some h \<Rightarrow> \<lparr>sr_protocol = Some (ascii ''http''), sr_domain = Some h\<rparr> | None \<Rightarrow> no_sniff) else no_sniff)
      in if want_tls
         then bindE (tls_sni peek) (\<lambda>r. case r of
             Some d \<Rightarrow> Inr \<lparr>sr_protocol = Some (ascii ''tls''), sr_domain = Some d\<rparr>
           | None \<Rightarrow> Inr http)
         else Inr http)"

text \<open>What the peek returned: a read error, or the bytes read, none of them after a timeout. The bytes are put back.\<close>

definition sniff_stream :: "io_kind + bytes \<Rightarrow> sniffing_config \<Rightarrow> sniff_result result" where
  "sniff_stream peek cfg =
     (if \<not> sc_enabled cfg \<or> sc_metadata_only cfg then Inr no_sniff
      else case peek of
        Inl k \<Rightarrow> Inl (Err (Io k))
      | Inr data \<Rightarrow> let data = take 8192 data in if data = [] then Inr no_sniff else analyze_peek data cfg)"

definition apply_dest_override :: "address \<Rightarrow> sniff_result \<Rightarrow> sniffing_config \<Rightarrow> address" where
  "apply_dest_override dest sniff cfg =
     (if \<not> sc_enabled cfg \<or> sc_route_only cfg then dest
      else case sr_domain sniff of
        None \<Rightarrow> dest
      | Some d \<Rightarrow>
          if is_domain dest then dest
          else if list_ex (\<lambda>q. q = ascii ''http'' \<or> q = ascii ''tls'' \<or> q = ascii ''fakedns'') (sc_override cfg) then Domain d (port dest)
          else dest)"

definition sniff_fakedns :: "address \<Rightarrow> (u32 \<Rightarrow> rstr option) \<Rightarrow> sniff_result" where
  "sniff_fakedns dest reverse_fake = (case dest of
      Ipv4 a _ \<Rightarrow> (case reverse_fake a of
          None \<Rightarrow> no_sniff | Some d \<Rightarrow> \<lparr>sr_protocol = Some (ascii ''fakedns''), sr_domain = Some d\<rparr>)
    | _ \<Rightarrow> no_sniff)"

text \<open>The start of \<^verbatim>\<open>DefaultDispatcher::dispatch\<close>: sniff, rewrite the destination, route.\<close>

definition dispatch_sniff :: "'n dispatcher \<Rightarrow> sniffing_config option \<Rightarrow> io_kind + bytes \<Rightarrow> routing_context \<Rightarrow> routing_context result" where
  "dispatch_sniff df cfg_opt peek ctx = (case cfg_opt of
      None \<Rightarrow> Inr ctx
    | Some cfg \<Rightarrow>
        if \<not> sc_enabled cfg then Inr ctx
        else bindE (sniff_stream peek cfg) (\<lambda>sniff0.
          let sniff = (if sr_domain sniff0 = None \<and> ascii ''fakedns'' \<in> set (sc_override cfg)
                       then (case df_dns df of None \<Rightarrow> sniff0 | Some _ \<Rightarrow> sniff_fakedns (rc_dest ctx) (df_reverse_fake df)) else sniff0)
          in Inr (ctx\<lparr>rc_dest := apply_dest_override (rc_dest ctx) sniff cfg, rc_protocol := sr_protocol sniff, rc_domain := sr_domain sniff\<rparr>)))"

definition dispatch_connect :: "'n libs \<Rightarrow> 'n dispatcher \<Rightarrow> sniffing_config option \<Rightarrow> io_kind + bytes \<Rightarrow> routing_context \<Rightarrow> (rstr \<times> address) result" where
  "dispatch_connect L df cfg peek ctx = bindE (dispatch_sniff df cfg peek ctx) (connect_outbound L df)"

section \<open>Sniffing returns\<close>

lemma u16_at_in: "pos + 1 < length data \<Longrightarrow> u16_at data pos = Inr (unat (data ! pos) * 256 + unat (data ! (pos + 1)))"
  by (simp add: u16_at_def)

lemma sni_walk_returns: "\<exists>r. sni_walk data pos fin = Inr r"
proof (induction "length data - pos" arbitrary: pos rule: less_induct)
  case less
  show ?case
  proof (cases "pos + 4 \<le> min fin (length data)")
    case True
    then have "pos + 1 < length data" "pos + 2 + 1 < length data" by auto
    then obtain etype elen where h: "u16_at data pos = Inr etype" "u16_at data (pos + 2) = Inr elen"
      using u16_at_in by blast
    show ?thesis
    proof (cases "pos + 4 + elen > length data")
      case long: True
      then show ?thesis using True h by (subst sni_walk.simps) (simp add: Let_def)
    next
      case False
      define found where "found = (etype = 0 \<and> elen > 5 \<and> data ! (pos + 4 + 2) = 0)"
      have f: "(if etype = 0 \<and> elen > 5 then bindE (idx data (pos + 4 + 2)) (\<lambda>b. Inr (b = 0)) else Inr False) = Inr found"
        using False by (auto simp: found_def)
      have n: "\<exists>name_len. u16_at data (pos + 4 + 3) = Inr name_len" if found
        using that False u16_at_in [of "pos + 4 + 3" data] by (auto simp: found_def)
      have step: "sni_walk data pos fin = (if found then bindE (u16_at data (pos + 4 + 3)) (\<lambda>name_len.
            if pos + 4 + 5 + name_len \<le> length data
            then bindE (rslice data (pos + 4 + 5) (pos + 4 + 5 + name_len)) (\<lambda>name. Inr (str_from_utf8 name))
            else sni_walk data (pos + 4 + elen) fin) else sni_walk data (pos + 4 + elen) fin)"
        using True False h f by (subst sni_walk.simps) (simp add: Let_def)
      have "\<exists>r. sni_walk data (pos + 4 + elen) fin = Inr r" by (rule less) (use True in auto)
      then show ?thesis using n unfolding step by (cases found) (auto simp: rslice_def)
    qed
  next
    case False
    then show ?thesis by (subst sni_walk.simps) (simp only: if_False, blast)
  qed
qed

lemma returns_bind: "\<exists>a. m = Inr a \<Longrightarrow> (\<And>a. \<exists>r. f a = Inr r) \<Longrightarrow> \<exists>r. bindE m f = Inr r"
  by auto

lemma returns_if: "(c \<Longrightarrow> \<exists>r. x = Inr r) \<Longrightarrow> (\<not> c \<Longrightarrow> \<exists>r. y = Inr r) \<Longrightarrow> \<exists>r. (if c then x else y) = Inr r"
  by simp

lemma tls_sni_returns: "\<exists>r. tls_sni data = Inr r"
  unfolding tls_sni_def Let_def
  by (intro returns_if returns_bind sni_walk_returns) (auto simp: u16_at_in idx_def)

lemma tls_sni_long_session:
  assumes "46 \<le> length data" and "data ! 0 = 0x16" and "data ! 5 = 0x01" and "u16_at data 44 = Inr n" and "length data < 48 + n"
  shows "tls_sni data = Inr None"
proof -
  have "idx data 0 = Inr 0x16" "idx data 5 = Inr 0x01" "\<not> length data < 5" "\<not> 5 \<ge> length data" "\<not> 44 + 2 > length data"
    using assms(1-3) by (auto simp: idx_def)
  moreover have "44 + (2 + n) + 2 > length data" using assms(5) by simp
  ultimately show ?thesis using assms(4) by (simp add: tls_sni_def)
qed

lemma analyze_peek_returns: "\<exists>r. analyze_peek peek cfg = Inr r"
  using tls_sni_returns [of peek] by (auto simp: analyze_peek_def Let_def split: option.split)

section \<open>A ClientHello\<close>

text \<open>The layout of RFC 8446: the session identifier has a length of one byte.\<close>

definition client_hello :: "bytes \<Rightarrow> bytes \<Rightarrow> bytes \<Rightarrow> bytes \<Rightarrow> bytes \<Rightarrow> bytes" where
  "client_hello random sess suites comps exts =
     (let body = [0x03, 0x03] @ random @ [of_nat (length sess)] @ sess @ to_be 2 (of_nat (length suites) :: u16) @ suites
            @ [of_nat (length comps)] @ comps @ to_be 2 (of_nat (length exts) :: u16) @ exts;
          msg = [0x01] @ to_be 3 (of_nat (length body) :: u32) @ body
      in [0x16, 0x03, 0x01] @ to_be 2 (of_nat (length msg) :: u16) @ msg)"

lemma client_hello_layout:
  assumes "length random = 32"
  shows "\<exists>pre post. client_hello random sess suites comps exts = pre @ sess @ post \<and> length pre = 44 \<and> pre ! 0 = 0x16 \<and> pre ! 5 = 0x01"
proof -
  define post where "post = to_be 2 (of_nat (length suites) :: u16) @ suites @ [of_nat (length comps)] @ comps @ to_be 2 (of_nat (length exts) :: u16) @ exts"
  define body where "body = [0x03, 0x03] @ random @ [of_nat (length sess)] @ sess @ post"
  define msg where "msg = [0x01] @ to_be 3 (of_nat (length body) :: u32) @ body"
  define pre where "pre = [0x16, 0x03, 0x01] @ to_be 2 (of_nat (length msg) :: u16) @ [0x01] @ to_be 3 (of_nat (length body) :: u32)
    @ [0x03, 0x03] @ random @ [of_nat (length sess)]"
  have "client_hello random sess suites comps exts = pre @ sess @ post"
    unfolding client_hello_def Let_def pre_def msg_def body_def post_def by (simp only: append_assoc append_Cons append_Nil)
  moreover have "length pre = 44" by (simp add: pre_def assms)
  moreover have "pre ! 5 = 0x01" by (simp add: pre_def nth_append)
  moreover have "pre ! 0 = 0x16" by (simp add: pre_def)
  ultimately show ?thesis by blast
qed

text \<open>
  Property C38. Looking for a server name never panics, but it misreads every ClientHello that carries a session
  identifier. The identifier's length is one byte; the code skips that byte and takes the first two bytes of the
  identifier itself for a length. Unless they happen to be smaller than the message, no server name is found, whatever
  the extensions say, and the connection is routed without its name.
\<close>

theorem tls_sni_misreads_session_id:
  "(\<exists>r. tls_sni data = Inr r)
   \<and> (length random = 32 \<and> 2 \<le> length sess
      \<and> length (client_hello random sess suites comps exts) < 48 + (unat (sess ! 0) * 256 + unat (sess ! 1))
      \<longrightarrow> tls_sni (client_hello random sess suites comps exts) = Inr None)"
proof (intro conjI impI)
  show "\<exists>r. tls_sni data = Inr r" by (rule tls_sni_returns)
next
  assume h: "length random = 32 \<and> 2 \<le> length sess
      \<and> length (client_hello random sess suites comps exts) < 48 + (unat (sess ! 0) * 256 + unat (sess ! 1))"
  then obtain pre post where hello: "client_hello random sess suites comps exts = pre @ sess @ post" "length pre = 44" "pre ! 0 = 0x16" "pre ! 5 = 0x01"
    using client_hello_layout by blast
  obtain x y rest where sess: "sess = x # y # rest" using h by (cases sess; cases "tl sess") auto
  show "tls_sni (client_hello random sess suites comps exts) = Inr None"
    unfolding hello(1)
  proof (rule tls_sni_long_session)
    show "46 \<le> length (pre @ sess @ post)" "(pre @ sess @ post) ! 0 = 0x16" "(pre @ sess @ post) ! 5 = 0x01"
      using hello(2-4) by (simp_all add: sess nth_append)
    show "u16_at (pre @ sess @ post) 44 = Inr (unat x * 256 + unat y)"
      using hello(2) by (simp add: sess u16_at_in nth_append)
    have "length (pre @ sess @ post) < 48 + (unat (sess ! 0) * 256 + unat (sess ! 1))" using h unfolding hello(1) by blast
    then show "length (pre @ sess @ post) < 48 + (unat x * 256 + unat y)" unfolding sess by simp
  qed
qed

theorem tls_sni_misreads_session_id_witness:
  "tls_sni (client_hello (replicate 32 7) (replicate 32 9) [0x13, 0x01] [0]
     ([0, 0, 0, 14, 0, 12, 0, 0, 9] @ ascii ''ads.local'')) = Inr None"
proof -
  have "length (client_hello (replicate 32 7) (replicate 32 9) [0x13, 0x01] [0] ([0, 0, 0, 14, 0, 12, 0, 0, 9] @ ascii ''ads.local'')) < 200"
    by (simp add: client_hello_def Let_def)
  then show ?thesis
    using tls_sni_misreads_session_id [of "[]" "replicate 32 7" "replicate 32 9" "[0x13, 0x01]" "[0]" "[0, 0, 0, 14, 0, 12, 0, 0, 9] @ ascii ''ads.local''"]
    by simp
qed

text \<open>A Host header with an IPv6 literal names its opening bracket.\<close>

lemma http_host_ipv6_literal:
  "http_host (ascii ''GET / HTTP/1.1'' @ [0x0D, 0x0A] @ ascii ''Host: [::1]:80'' @ [0x0D, 0x0A, 0x0D, 0x0A]) = Some (ascii ''['')"
  by code_simp

end
