(* ===== verification/AeadStream.thy ===== *)
theory AeadStream
  imports Prelude "HOL-Library.Sublist"
begin

text \<open>
  Encrypted chunk streams. \<^verbatim>\<open>Ss2022Stream\<close> and \<^verbatim>\<open>VmessStream\<close> have the same \<^verbatim>\<open>poll_read\<close>, \<^verbatim>\<open>poll_write\<close> and \<^verbatim>\<open>poll_flush\<close>
  around their own chunk format; the loops are here, with the format as an argument, and the locale \<open>chunk_codec\<close> says what
  the loops need of it. The ciphers are third-party code: the record \<open>aead\<close>.
\<close>

section \<open>Ciphers and polls\<close>

text \<open>
  \<^verbatim>\<open>encrypt_in_place_detached\<close> gives ciphertext and tag, \<^verbatim>\<open>decrypt_in_place_detached\<close> checks the tag. The laws: texts of up
  to 64 KiB are encrypted, the ciphertext is as long as the text, the tag has 16 bytes, and what was encrypted decrypts.
\<close>

record aead =
  seal :: "bytes \<Rightarrow> bytes \<Rightarrow> bytes \<Rightarrow> (bytes \<times> bytes) option"
  unseal :: "bytes \<Rightarrow> bytes \<Rightarrow> bytes \<Rightarrow> bytes \<Rightarrow> bytes option"

definition aead_laws :: "aead \<Rightarrow> bool" where
  "aead_laws C \<longleftrightarrow> (\<forall>k n d. length d \<le> 65536 \<longrightarrow> (\<exists>ct tag. seal C k n d = Some (ct, tag) \<and> length ct = length d
     \<and> length tag = 16 \<and> unseal C k n ct tag = Some d))"

lemma aead_seal:
  assumes "aead_laws C" and "length d \<le> 65536"
  obtains ct tag where "seal C k n d = Some (ct, tag)" "length ct = length d" "length tag = 16" "unseal C k n ct tag = Some d"
  using assms unfolding aead_laws_def by blast

text \<open>
  \<^verbatim>\<open>Aead::encrypt\<close> puts the tag behind the ciphertext; \<^verbatim>\<open>decrypt\<close> and \<^verbatim>\<open>decrypt_in_place\<close> split it off the end of the buffer, and a
  buffer shorter than a tag does not decrypt.
\<close>

definition seal_buffer :: "aead \<Rightarrow> bytes \<Rightarrow> bytes \<Rightarrow> bytes \<Rightarrow> bytes option" where
  "seal_buffer C key nonce data = (case seal C key nonce data of None \<Rightarrow> None | Some (ct, tag) \<Rightarrow> Some (ct @ tag))"

definition unseal_buffer :: "aead \<Rightarrow> bytes \<Rightarrow> bytes \<Rightarrow> bytes \<Rightarrow> bytes option" where
  "unseal_buffer C key nonce buf = (if length buf < 16 then None else unseal C key nonce (take (length buf - 16) buf) (drop (length buf - 16) buf))"

lemma seal_buffer_law:
  assumes "aead_laws C" and "length d \<le> 65536"
  obtains buf where "seal_buffer C k n d = Some buf" "length buf = length d + 16" "unseal_buffer C k n buf = Some d"
proof -
  obtain ct tag where f: "seal C k n d = Some (ct, tag)" "length ct = length d" "length tag = 16" "unseal C k n ct tag = Some d"
    by (rule aead_seal [OF assms])
  show thesis by (rule that [of "ct @ tag"]) (use f in \<open>simp_all add: seal_buffer_def unseal_buffer_def\<close>)
qed

text \<open>\<^verbatim>\<open>Poll<io::Result<T>>\<close>.\<close>

datatype 'a poll = Pending | Ready "io_kind + 'a"

abbreviation (input) "MAX_CHUNK_SIZE \<equiv> (16384 :: nat)"

section \<open>Writing\<close>

text \<open>
  Polling the inner stream to write gives the entries of a script, one per poll; after the last it is pending. An inner stream
  takes at most the bytes it is offered. \<open>drain\<close> is the loop over \<^verbatim>\<open>write_buf\<close>; it also returns what the inner stream took.
\<close>

datatype drained = Drained | Blocked | Failed io_kind

fun drain :: "bytes \<Rightarrow> nat poll list \<Rightarrow> drained \<times> bytes \<times> bytes \<times> nat poll list" where
  "drain buf script =
     (if buf = [] then (Drained, buf, [], script)
      else case script of
        [] \<Rightarrow> (Blocked, buf, [], [])
      | Pending # script1 \<Rightarrow> (Blocked, buf, [], script1)
      | Ready (Inl e) # script1 \<Rightarrow> (Failed e, buf, [], script1)
      | Ready (Inr n) # script1 \<Rightarrow>
          if n = 0 then (Failed WriteZero, buf, [], script1)
          else case drain (drop n buf) script1 of (res, buf1, sent, script2) \<Rightarrow> (res, buf1, take n buf @ sent, script2))"

declare drain.simps [simp del]

record 'w chunk_writer =
  cw_state :: 'w
  cw_buf :: bytes

type_synonym 'w appender = "'w \<Rightarrow> bytes \<Rightarrow> bytes \<Rightarrow> 'w \<times> bytes \<times> io_kind option"

definition chunk_poll_write ::
    "'w appender \<Rightarrow> bytes \<Rightarrow> 'w chunk_writer \<Rightarrow> nat poll list \<Rightarrow> nat poll \<times> 'w chunk_writer \<times> bytes" where
  "chunk_poll_write append_chunk buf cw script = (case drain (cw_buf cw) script of
      (Blocked, buf1, sent, _) \<Rightarrow> (Pending, cw\<lparr>cw_buf := buf1\<rparr>, sent)
    | (Failed e, buf1, sent, _) \<Rightarrow> (Ready (Inl e), cw\<lparr>cw_buf := buf1\<rparr>, sent)
    | (Drained, buf1, sent, script1) \<Rightarrow>
        let chunk = take MAX_CHUNK_SIZE buf in
        case append_chunk (cw_state cw) buf1 chunk of
          (st, staged, Some e) \<Rightarrow> (Ready (Inl e), \<lparr>cw_state = st, cw_buf = staged\<rparr>, sent)
        | (st, staged, None) \<Rightarrow>
            (case drain staged script1 of
               (Failed e, buf2, sent2, _) \<Rightarrow> (Ready (Inl e), \<lparr>cw_state = st, cw_buf = buf2\<rparr>, sent @ sent2)
             | (_, buf2, sent2, _) \<Rightarrow> (Ready (Inr (length chunk)), \<lparr>cw_state = st, cw_buf = buf2\<rparr>, sent @ sent2)))"

definition chunk_poll_flush :: "unit poll \<Rightarrow> 'w chunk_writer \<Rightarrow> nat poll list \<Rightarrow> unit poll \<times> 'w chunk_writer \<times> bytes" where
  "chunk_poll_flush inner_flush cw script = (case drain (cw_buf cw) script of
      (Blocked, buf1, sent, _) \<Rightarrow> (Pending, cw\<lparr>cw_buf := buf1\<rparr>, sent)
    | (Failed e, buf1, sent, _) \<Rightarrow> (Ready (Inl e), cw\<lparr>cw_buf := buf1\<rparr>, sent)
    | (Drained, buf1, sent, _) \<Rightarrow> (inner_flush, cw\<lparr>cw_buf := buf1\<rparr>, sent))"

text \<open>Shutting down asks the inner stream only; what is still in \<^verbatim>\<open>write_buf\<close> is not written.\<close>

definition chunk_poll_shutdown :: "unit poll \<Rightarrow> 'w chunk_writer \<Rightarrow> unit poll \<times> 'w chunk_writer \<times> bytes" where
  "chunk_poll_shutdown inner_shutdown cw = (inner_shutdown, cw, [])"

section \<open>Reading\<close>

record 'r chunk_reader =
  cr_state :: 'r
  cr_buf :: bytes
  cr_raw :: bytes

type_synonym 'r decryptor = "'r \<Rightarrow> bytes \<Rightarrow> 'r \<times> bytes \<times> (io_kind + bytes) option"

text \<open>
  One call of \<^verbatim>\<open>poll_read\<close> with room for \<open>room\<close> bytes. The script holds what polling the inner stream gives, no bytes at its end;
  the result is the poll, the reader and what is left of the script. Returning no bytes is the end of the stream.
\<close>

function chunk_poll_read :: "'r decryptor \<Rightarrow> nat \<Rightarrow> 'r chunk_reader \<Rightarrow> bytes poll list \<Rightarrow> bytes poll \<times> 'r chunk_reader \<times> bytes poll list" where
  "chunk_poll_read decrypt room cr script =
     (if cr_buf cr \<noteq> []
      then let n = min (length (cr_buf cr)) room in (Ready (Inr (take n (cr_buf cr))), cr\<lparr>cr_buf := drop n (cr_buf cr)\<rparr>, script)
      else case decrypt (cr_state cr) (cr_raw cr) of
        (st, raw, Some (Inr pt)) \<Rightarrow>
          if pt = [] then (Ready (Inr []), \<lparr>cr_state = st, cr_buf = [], cr_raw = raw\<rparr>, script)
          else chunk_poll_read decrypt room \<lparr>cr_state = st, cr_buf = pt, cr_raw = raw\<rparr> script
      | (st, raw, Some (Inl e)) \<Rightarrow> (Ready (Inl e), \<lparr>cr_state = st, cr_buf = [], cr_raw = raw\<rparr>, script)
      | (st, raw, None) \<Rightarrow>
          (case script of
             [] \<Rightarrow> (Pending, \<lparr>cr_state = st, cr_buf = [], cr_raw = raw\<rparr>, [])
           | Pending # script1 \<Rightarrow> (Pending, \<lparr>cr_state = st, cr_buf = [], cr_raw = raw\<rparr>, script1)
           | Ready (Inl e) # script1 \<Rightarrow> (Ready (Inl e), \<lparr>cr_state = st, cr_buf = [], cr_raw = raw\<rparr>, script1)
           | Ready (Inr data) # script1 \<Rightarrow>
               if data = [] then (Ready (Inr []), \<lparr>cr_state = st, cr_buf = [], cr_raw = raw\<rparr>, script1)
               else case decrypt st (raw @ data) of
                 (st1, raw1, Some (Inr pt)) \<Rightarrow>
                   if pt = [] then (Ready (Inr []), \<lparr>cr_state = st1, cr_buf = [], cr_raw = raw1\<rparr>, script1)
                   else chunk_poll_read decrypt room \<lparr>cr_state = st1, cr_buf = pt, cr_raw = raw1\<rparr> script1
               | (st1, raw1, Some (Inl e)) \<Rightarrow> (Ready (Inl e), \<lparr>cr_state = st1, cr_buf = [], cr_raw = raw1\<rparr>, script1)
               | (st1, raw1, None) \<Rightarrow> chunk_poll_read decrypt room \<lparr>cr_state = st1, cr_buf = [], cr_raw = raw1\<rparr> script1))"
  by pat_completeness auto

termination
  by (relation "measure (\<lambda>(_, _, cr, script). 2 * length script + (if cr_buf cr = [] then 1 else 0))") auto

declare chunk_poll_read.simps [simp del]

section \<open>Runs of the two ends\<close>

text \<open>A caller writes and flushes; it is told how many bytes of each buffer were accepted. The result: the accepted bytes, the
  bytes given to the inner stream, the writer.\<close>

datatype write_op = Put bytes "nat poll list" | Flush "unit poll" "nat poll list"

fun run_writes :: "'w appender \<Rightarrow> 'w chunk_writer \<Rightarrow> write_op list \<Rightarrow> bytes \<times> bytes \<times> 'w chunk_writer" where
  "run_writes append_chunk cw [] = ([], [], cw)"
| "run_writes append_chunk cw (Put buf script # ops) = (case chunk_poll_write append_chunk buf cw script of
      (res, cw1, sent) \<Rightarrow> (case run_writes append_chunk cw1 ops of
        (accepted, wire, cw2) \<Rightarrow> ((case res of Ready (Inr n) \<Rightarrow> take n buf | _ \<Rightarrow> []) @ accepted, sent @ wire, cw2)))"
| "run_writes append_chunk cw (Flush inner_flush script # ops) = (case chunk_poll_flush inner_flush cw script of
      (_, cw1, sent) \<Rightarrow> (case run_writes append_chunk cw1 ops of (accepted, wire, cw2) \<Rightarrow> (accepted, sent @ wire, cw2)))"

fun run_reads :: "'r decryptor \<Rightarrow> 'r chunk_reader \<Rightarrow> nat list \<Rightarrow> bytes poll list \<Rightarrow> bytes poll list \<times> 'r chunk_reader \<times> bytes poll list" where
  "run_reads decrypt cr [] script = ([], cr, script)"
| "run_reads decrypt cr (room # rooms) script = (case chunk_poll_read decrypt room cr script of
      (res, cr1, script1) \<Rightarrow> (case run_reads decrypt cr1 rooms script1 of (outs, cr2, script2) \<Rightarrow> (res # outs, cr2, script2)))"

definition polled :: "bytes poll list \<Rightarrow> bytes" where
  "polled ps = concat (map (\<lambda>p. case p of Ready (Inr b) \<Rightarrow> b | _ \<Rightarrow> []) ps)"

lemma polled_simps [simp]:
  "polled [] = []" "polled (Pending # ps) = polled ps" "polled (Ready (Inl e) # ps) = polled ps" "polled (Ready (Inr b) # ps) = b @ polled ps"
  by (simp_all add: polled_def)

text \<open>Inner streams that neither fail nor end.\<close>

definition accepting :: "nat poll list \<Rightarrow> bool" where
  "accepting = list_all (\<lambda>p. case p of Pending \<Rightarrow> True | Ready (Inl _) \<Rightarrow> False | Ready (Inr n) \<Rightarrow> n \<noteq> 0)"

definition flowing :: "bytes poll list \<Rightarrow> bool" where
  "flowing = list_all (\<lambda>p. case p of Pending \<Rightarrow> True | Ready (Inl _) \<Rightarrow> False | Ready (Inr b) \<Rightarrow> b \<noteq> [])"

lemma accepting_simps [simp]:
  "accepting []" "accepting (Pending # ps) \<longleftrightarrow> accepting ps" "\<not> accepting (Ready (Inl e) # ps)"
  "accepting (Ready (Inr n) # ps) \<longleftrightarrow> n \<noteq> 0 \<and> accepting ps"
  by (simp_all add: accepting_def)

lemma flowing_simps [simp]:
  "flowing []" "flowing (Pending # ps) \<longleftrightarrow> flowing ps" "\<not> flowing (Ready (Inl e) # ps)"
  "flowing (Ready (Inr b) # ps) \<longleftrightarrow> b \<noteq> [] \<and> flowing ps"
  by (simp_all add: flowing_def)

fun op_ok :: "write_op \<Rightarrow> bool" where
  "op_ok (Put buf script) \<longleftrightarrow> buf \<noteq> [] \<and> accepting script"
| "op_ok (Flush _ script) \<longleftrightarrow> accepting script"

lemma drain_sent: "drain buf script = (res, buf1, sent, script1) \<Longrightarrow> buf = sent @ buf1 \<and> (res = Drained \<longrightarrow> buf1 = [])"
proof (induction buf script arbitrary: res buf1 sent script1 rule: drain.induct)
  case (1 buf script)
  show ?case
  proof (cases "\<exists>n ps. buf \<noteq> [] \<and> script = Ready (Inr n) # ps \<and> n \<noteq> 0")
    case True
    then obtain n ps where s: "buf \<noteq> []" "script = Ready (Inr n) # ps" "n \<noteq> 0" by blast
    obtain r b sn sc where d: "drain (drop n buf) ps = (r, b, sn, sc)" by (cases "drain (drop n buf) ps") auto
    have "drop n buf = sn @ b \<and> (r = Drained \<longrightarrow> b = [])" using "1.IH" s d by auto
    moreover have "res = r" "buf1 = b" "sent = take n buf @ sn" using "1.prems" s d by (simp_all add: drain.simps [of buf])
    ultimately show ?thesis by (metis append_assoc append_take_drop_id)
  next
    case False
    then show ?thesis using "1.prems"
      by (subst (asm) drain.simps) (auto split: if_splits list.splits poll.splits sum.splits)
  qed
qed

lemma drain_accepting:
  "drain buf script = (res, buf1, sent, script1) \<Longrightarrow> accepting script \<Longrightarrow> (\<forall>e. res \<noteq> Failed e) \<and> accepting script1"
proof (induction buf script arbitrary: res buf1 sent script1 rule: drain.induct)
  case (1 buf script)
  show ?case
  proof (cases "\<exists>n ps. buf \<noteq> [] \<and> script = Ready (Inr n) # ps \<and> n \<noteq> 0")
    case True
    then obtain n ps where s: "buf \<noteq> []" "script = Ready (Inr n) # ps" "n \<noteq> 0" by blast
    obtain r b sn sc where d: "drain (drop n buf) ps = (r, b, sn, sc)" by (cases "drain (drop n buf) ps") auto
    have "(\<forall>e. r \<noteq> Failed e) \<and> accepting sc" using "1.IH" s d "1.prems"(2) by auto
    moreover have "res = r" "script1 = sc" using "1.prems"(1) s d by (simp_all add: drain.simps [of buf])
    ultimately show ?thesis by simp
  next
    case False
    then show ?thesis using "1.prems"
      by (subst (asm) drain.simps) (auto split: if_splits list.splits poll.splits sum.splits)
  qed
qed

section \<open>What the loops need of a chunk format\<close>

definition chunk_next :: "'w appender \<Rightarrow> 'w \<Rightarrow> bytes \<Rightarrow> 'w" where
  "chunk_next a w d = fst (a w [] d)"

definition chunk_bytes :: "'w appender \<Rightarrow> 'w \<Rightarrow> bytes \<Rightarrow> bytes" where
  "chunk_bytes a w d = fst (snd (a w [] d))"

primrec chunk_stream :: "'w appender \<Rightarrow> 'w \<Rightarrow> bytes list \<Rightarrow> bytes" where
  "chunk_stream a w [] = []"
| "chunk_stream a w (d # ds) = chunk_bytes a w d @ chunk_stream a (chunk_next a w d) ds"

definition chunk_ok :: "bytes \<Rightarrow> bool" where
  "chunk_ok d \<longleftrightarrow> d \<noteq> [] \<and> length d \<le> MAX_CHUNK_SIZE"

text \<open>
  Writer and reader states that belong together produce and consume the same chunk. A reader that has only a part of it waits,
  and having looked at the part changes nothing about what it will answer later.
\<close>

locale chunk_codec =
  fixes append_chunk :: "'w appender"
    and decrypt :: "'r decryptor"
    and synced :: "'w \<Rightarrow> 'r \<Rightarrow> bool"
  assumes append_law: "synced w r \<Longrightarrow> chunk_ok d \<Longrightarrow> append_chunk w dst d = (chunk_next append_chunk w d, dst @ chunk_bytes append_chunk w d, None)"
    and decrypt_law: "synced w r \<Longrightarrow> chunk_ok d \<Longrightarrow>
      \<exists>r'. synced (chunk_next append_chunk w d) r' \<and> (\<forall>rest. decrypt r (chunk_bytes append_chunk w d @ rest) = (r', rest, Some (Inr d)))"
    and chunk_nonempty: "synced w r \<Longrightarrow> chunk_ok d \<Longrightarrow> chunk_bytes append_chunk w d \<noteq> []"
    and wait_law: "synced w r \<Longrightarrow> chunk_ok d \<Longrightarrow> chunk_bytes append_chunk w d = part @ q \<Longrightarrow> q \<noteq> [] \<Longrightarrow>
      \<exists>r'. decrypt r part = (r', part, None) \<and> (\<forall>x. decrypt r' (part @ x) = decrypt r (part @ x))"
begin

lemma poll_write_cases:
  assumes "synced (cw_state cw) r" and "buf \<noteq> []" and "accepting script" and "chunk_poll_write append_chunk buf cw script = (res, cw1, sent)"
  shows "res = Pending \<and> cw_state cw1 = cw_state cw \<and> cw_buf cw = sent @ cw_buf cw1
    \<or> (\<exists>d. d = take MAX_CHUNK_SIZE buf \<and> chunk_ok d \<and> res = Ready (Inr (length d)) \<and> cw_state cw1 = chunk_next append_chunk (cw_state cw) d
        \<and> cw_buf cw @ chunk_bytes append_chunk (cw_state cw) d = sent @ cw_buf cw1)"
proof -
  define d where "d = take MAX_CHUNK_SIZE buf"
  have ok: "chunk_ok d" using assms(2) by (simp add: d_def chunk_ok_def)
  obtain res1 b1 s1 sc1 where d1: "drain (cw_buf cw) script = (res1, b1, s1, sc1)" by (cases "drain (cw_buf cw) script") auto
  obtain res2 b2 s2 sc2 where d2: "drain (chunk_bytes append_chunk (cw_state cw) d) sc1 = (res2, b2, s2, sc2)"
    by (cases "drain (chunk_bytes append_chunk (cw_state cw) d) sc1") auto
  note f1 = drain_sent [OF d1] drain_accepting [OF d1 assms(3)]
  note f2 = drain_sent [OF d2] drain_accepting [OF d2]
  show ?thesis
  proof (cases res1)
    case Drained
    then have "b1 = []" using f1 by simp
    then show ?thesis
      using assms(4) Drained d1 d2 f1 f2 ok append_law [OF assms(1) ok, of "[]"]
      by (cases res2) (auto simp: chunk_poll_write_def Let_def d_def [symmetric])
  qed (use assms(4) d1 f1 in \<open>auto simp: chunk_poll_write_def\<close>)
qed

lemma poll_flush_sent:
  assumes "chunk_poll_flush fl cw script = (res, cw1, sent)"
  shows "cw_state cw1 = cw_state cw \<and> cw_buf cw = sent @ cw_buf cw1"
  using assms drain_sent [of "cw_buf cw" script]
  by (cases "drain (cw_buf cw) script"; cases "fst (drain (cw_buf cw) script)") (auto simp: chunk_poll_flush_def)

lemma run_writes_stream:
  assumes "run_writes append_chunk cw ops = (accepted, wire, cw1)" and "list_all op_ok ops" and "synced (cw_state cw) r"
  shows "\<exists>ds. list_all chunk_ok ds \<and> concat ds = accepted \<and> cw_buf cw @ chunk_stream append_chunk (cw_state cw) ds = wire @ cw_buf cw1"
  using assms
proof (induction ops arbitrary: cw r accepted wire)
  case Nil
  then show ?case by (intro exI [of _ "[]"]) simp
next
  case (Cons op ops)
  show ?case
  proof (cases op)
    case (Put buf script)
    obtain res cw2 sent where w: "chunk_poll_write append_chunk buf cw script = (res, cw2, sent)" by (metis prod_cases3)
    obtain acc wire2 where rest: "run_writes append_chunk cw2 ops = (acc, wire2, cw1)"
        "accepted = (case res of Ready (Inr n) \<Rightarrow> take n buf | _ \<Rightarrow> []) @ acc" "wire = sent @ wire2"
      using Cons.prems(1) by (auto simp: Put w split: prod.splits)
    have ok: "buf \<noteq> []" "accepting script" "list_all op_ok ops" using Cons.prems(2) by (simp_all add: Put)
    from poll_write_cases [OF Cons.prems(3) ok(1,2) w] show ?thesis
    proof
      assume h: "res = Pending \<and> cw_state cw2 = cw_state cw \<and> cw_buf cw = sent @ cw_buf cw2"
      then show ?thesis using Cons.IH [OF rest(1) ok(3)] Cons.prems(3) rest(2,3) by fastforce
    next
      assume "\<exists>d. d = take MAX_CHUNK_SIZE buf \<and> chunk_ok d \<and> res = Ready (Inr (length d)) \<and> cw_state cw2 = chunk_next append_chunk (cw_state cw) d
        \<and> cw_buf cw @ chunk_bytes append_chunk (cw_state cw) d = sent @ cw_buf cw2"
      then obtain d where d: "d = take MAX_CHUNK_SIZE buf" "chunk_ok d" "res = Ready (Inr (length d))"
          "cw_state cw2 = chunk_next append_chunk (cw_state cw) d" "cw_buf cw @ chunk_bytes append_chunk (cw_state cw) d = sent @ cw_buf cw2"
        by blast
      obtain r2 where "synced (cw_state cw2) r2" using decrypt_law [OF Cons.prems(3) d(2)] d(4) by auto
      then obtain ds where ds: "list_all chunk_ok ds" "concat ds = acc" "cw_buf cw2 @ chunk_stream append_chunk (cw_state cw2) ds = wire2 @ cw_buf cw1"
        using Cons.IH [OF rest(1) ok(3)] by blast
      have "take (length d) buf = d" by (simp add: d(1) min_def)
      then have "accepted = concat (d # ds)" using d(3) ds(2) rest(2) by simp
      moreover have "cw_buf cw @ chunk_stream append_chunk (cw_state cw) (d # ds) = wire @ cw_buf cw1"
        using d(4,5) ds(3) rest(3) by (metis append.assoc chunk_stream.simps(2))
      ultimately show ?thesis using d(2) ds(1) by (intro exI [of _ "d # ds"]) simp
    qed
  next
    case (Flush fl script)
    obtain res cw2 sent where w: "chunk_poll_flush fl cw script = (res, cw2, sent)" by (metis prod_cases3)
    obtain wire2 where rest: "run_writes append_chunk cw2 ops = (accepted, wire2, cw1)" "wire = sent @ wire2"
      using Cons.prems(1) by (auto simp: Flush w split: prod.splits)
    then show ?thesis using Cons.IH [OF rest(1)] Cons.prems(2,3) poll_flush_sent [OF w] by (fastforce simp: Flush)
  qed
qed

text \<open>
  The reader is about to return the texts \<open>ds\<close>: the raw bytes it has, the bytes \<open>fut\<close> the inner stream will deliver and the
  bytes \<open>missing\<close> that will not arrive make up their chunks, and it answers as a state that belongs to their writer.
\<close>

definition reading :: "'r \<Rightarrow> bytes \<Rightarrow> bytes \<Rightarrow> bytes \<Rightarrow> bytes list \<Rightarrow> bool" where
  "reading st raw fut missing ds \<longleftrightarrow> list_all chunk_ok ds \<and> (\<exists>w r. synced w r \<and> (\<forall>x. decrypt st (raw @ x) = decrypt r (raw @ x))
     \<and> raw @ fut @ missing = chunk_stream append_chunk w ds)"

lemma reading_extend: "reading st raw (data @ fut) missing ds \<Longrightarrow> reading st (raw @ data) fut missing ds"
  unfolding reading_def by (metis append.assoc)

lemma reading_step:
  assumes "reading st raw fut missing ds"
  shows "(\<exists>st'. decrypt st raw = (st', raw, None) \<and> reading st' raw fut missing ds \<and> (fut = [] \<and> missing = [] \<longrightarrow> ds = []))
    \<or> (\<exists>st' raw' d ds'. ds = d # ds' \<and> decrypt st raw = (st', raw', Some (Inr d)) \<and> reading st' raw' fut missing ds')"
proof -
  obtain w r where h: "list_all chunk_ok ds" "synced w r" "\<And>x. decrypt st (raw @ x) = decrypt r (raw @ x)"
      "raw @ fut @ missing = chunk_stream append_chunk w ds"
    using assms unfolding reading_def by blast
  have now: "decrypt st raw = decrypt r raw" using h(3) [of "[]"] by simp
  have wait: ?thesis if part: "decrypt r raw = (st', raw, None)" "\<And>x. decrypt st' (raw @ x) = decrypt r (raw @ x)"
      and "fut = [] \<and> missing = [] \<longrightarrow> ds = []" for st'
    using that h now unfolding reading_def by metis
  show ?thesis
  proof (cases ds)
    case Nil
    have "chunk_ok [0]" by (simp add: chunk_ok_def)
    moreover have "chunk_bytes append_chunk w [0] \<noteq> []"
      using chunk_nonempty [OF h(2) \<open>chunk_ok [0]\<close>] .
    ultimately obtain st' where "decrypt r [] = (st', [], None)" "\<And>x. decrypt st' ([] @ x) = decrypt r ([] @ x)"
      using wait_law [OF h(2), of "[0]" "[]"] by auto
    then show ?thesis using wait Nil h(4) by simp
  next
    case (Cons d ds')
    define c where "c = chunk_bytes append_chunk w d"
    have ok: "chunk_ok d" "list_all chunk_ok ds'" using h(1) Cons by simp_all
    obtain r' where r': "synced (chunk_next append_chunk w d) r'" "\<And>rest. decrypt r (c @ rest) = (r', rest, Some (Inr d))"
      using decrypt_law [OF h(2) ok(1)] c_def by auto
    have split: "raw @ fut @ missing = c @ chunk_stream append_chunk (chunk_next append_chunk w d) ds'"
      using h(4) by (simp add: Cons c_def)
    show ?thesis
    proof (cases "length raw < length c")
      case True
      have "take (length raw) c = take (length raw) (raw @ fut @ missing)" using True by (simp add: split)
      then have "c = raw @ drop (length raw) c" by (metis append_eq_conv_conj append_take_drop_id)
      moreover have "drop (length raw) c \<noteq> []" using True by simp
      moreover have "\<not> (fut = [] \<and> missing = [])" using True arg_cong [OF split, of length] by auto
      ultimately show ?thesis using wait wait_law [OF h(2) ok(1), of raw "drop (length raw) c"] c_def by metis
    next
      case False
      then have "take (length c) raw = take (length c) (c @ chunk_stream append_chunk (chunk_next append_chunk w d) ds')"
        by (simp add: split [symmetric])
      then obtain raw' where raw: "raw = c @ raw'" by (metis append_eq_conv_conj append_take_drop_id)
      then have "raw' @ fut @ missing = chunk_stream append_chunk (chunk_next append_chunk w d) ds'" using split by simp
      then show ?thesis using Cons now raw r' ok(2) unfolding reading_def by auto
    qed
  qed
qed

definition upcoming :: "'r chunk_reader \<Rightarrow> bytes poll list \<Rightarrow> bytes \<Rightarrow> bytes list \<Rightarrow> bool" where
  "upcoming cr script missing ds \<longleftrightarrow> flowing script \<and> reading (cr_state cr) (cr_raw cr) (polled script) missing ds"

text \<open>A poll returns the next bytes, or it is pending: then it has used up a part of the script or nothing is left to return.\<close>

definition poll_ok :: "bytes \<Rightarrow> 'r chunk_reader \<Rightarrow> bytes poll list \<Rightarrow> bytes list \<Rightarrow> bytes poll \<times> 'r chunk_reader \<times> bytes poll list \<Rightarrow> bool" where
  "poll_ok missing cr script ds out \<longleftrightarrow> (case out of (res, cr1, script1) \<Rightarrow> \<exists>ds1. upcoming cr1 script1 missing ds1 \<and>
    ((\<exists>bs. res = Ready (Inr bs) \<and> bs \<noteq> [] \<and> cr_buf cr @ concat ds = bs @ cr_buf cr1 @ concat ds1 \<and> length script1 \<le> length script)
     \<or> res = Pending \<and> cr_buf cr @ concat ds = cr_buf cr1 @ concat ds1
       \<and> (length script1 < length script \<or> script1 = script \<and> (missing = [] \<longrightarrow> cr_buf cr1 @ concat ds1 = []))))"

lemma poll_read_buffered:
  assumes "reading (cr_state cr) (cr_raw cr) (polled script) missing ds" and "flowing script" and "0 < room" and "cr_buf cr \<noteq> []"
    and "cr_buf cr0 @ concat ds0 = cr_buf cr @ concat ds" and "length script \<le> length script0"
  shows "poll_ok missing cr0 script0 ds0 (chunk_poll_read decrypt room cr script)"
  using assms by (subst chunk_poll_read.simps)
    (auto simp: poll_ok_def upcoming_def Let_def intro!: exI [of _ ds] simp flip: append_assoc)

lemma poll_read_waiting:
  assumes "decrypt (cr_state cr) (cr_raw cr) = (st, cr_raw cr, None)" and "cr_buf cr = []"
    and "reading st (cr_raw cr) (polled script) missing ds" and "flowing script" and "0 < room"
    and "script = [] \<and> missing = [] \<longrightarrow> ds = []"
    and IH: "\<And>data script1 st1. script = Ready (Inr data) # script1 \<Longrightarrow> decrypt st (cr_raw cr @ data) = (st1, cr_raw cr @ data, None)
      \<Longrightarrow> reading st1 (cr_raw cr @ data) (polled script1) missing ds
      \<Longrightarrow> poll_ok missing cr script ds (chunk_poll_read decrypt room \<lparr>cr_state = st1, cr_buf = [], cr_raw = cr_raw cr @ data\<rparr> script1)"
  shows "poll_ok missing cr script ds (chunk_poll_read decrypt room cr script)"
proof (cases script)
  case Nil
  then show ?thesis using assms by (subst chunk_poll_read.simps) (auto simp: poll_ok_def upcoming_def intro!: exI [of _ ds])
next
  case (Cons q script1)
  consider (wait) "q = Pending" | (data) data where "q = Ready (Inr data)" "data \<noteq> []"
    using assms(4) Cons by (cases q; cases "case q of Ready x \<Rightarrow> x | Pending \<Rightarrow> Inr []") auto
  then show ?thesis
  proof cases
    case wait
    then show ?thesis using assms(1-5) Cons by (subst chunk_poll_read.simps) (auto simp: poll_ok_def upcoming_def intro!: exI [of _ ds])
  next
    case data
    have "reading st (cr_raw cr @ data) (polled script1) missing ds"
      using assms(3) by (intro reading_extend) (simp add: Cons data)
    from reading_step [OF this] show ?thesis
    proof (elim disjE exE conjE)
      fix st1 assume d: "decrypt st (cr_raw cr @ data) = (st1, cr_raw cr @ data, None)" "reading st1 (cr_raw cr @ data) (polled script1) missing ds"
      show ?thesis using IH [OF _ d] assms(1,2) data(2) d(1) by (subst chunk_poll_read.simps) (simp add: Cons data(1))
    next
      fix st1 raw1 d ds1
      assume d: "ds = d # ds1" "decrypt st (cr_raw cr @ data) = (st1, raw1, Some (Inr d))" "reading st1 raw1 (polled script1) missing ds1"
      have "d \<noteq> []" using assms(3) d(1) by (simp add: reading_def chunk_ok_def)
      moreover have "flowing script1" using assms(4) by (simp add: Cons data(1))
      ultimately have "poll_ok missing cr script ds (chunk_poll_read decrypt room \<lparr>cr_state = st1, cr_buf = d, cr_raw = raw1\<rparr> script1)"
        by (intro poll_read_buffered [of _ _ _ ds1]) (use d(1,3) assms(2,5) Cons in simp_all)
      then show ?thesis using assms(1,2) data(2) d(2) \<open>d \<noteq> []\<close> by (subst chunk_poll_read.simps) (simp add: Cons data(1))
    qed
  qed
qed

lemma poll_ok_weaken:
  assumes "poll_ok missing cr1 script1 ds out" and "cr_buf cr1 = cr_buf cr" and "length script1 < length script"
  shows "poll_ok missing cr script ds out"
proof -
  obtain res cr2 script2 where out: "out = (res, cr2, script2)" by (metis prod_cases3)
  have "length script2 \<le> length script" if "length script2 \<le> length script1" for script2 :: "bytes poll list"
    using that assms(3) by linarith
  moreover have "length script2 < length script" if "length script2 < length script1 \<or> script2 = script1 \<and> c" for script2 :: "bytes poll list" and c
    using that assms(3) by auto
  ultimately show ?thesis using assms(1) unfolding out poll_ok_def prod.case assms(2) by blast
qed

lemma poll_read_cases:
  assumes "upcoming cr script missing ds" and "0 < room"
  shows "poll_ok missing cr script ds (chunk_poll_read decrypt room cr script)"
proof (cases "cr_buf cr = []")
  case True
  then show ?thesis using assms
  proof (induction "length script" arbitrary: script cr rule: less_induct)
    case less
    have up: "flowing script" "reading (cr_state cr) (cr_raw cr) (polled script) missing ds"
      using less.prems(2) by (simp_all add: upcoming_def)
    from reading_step [OF up(2)] show ?case
    proof (elim disjE exE conjE)
      fix st assume d: "decrypt (cr_state cr) (cr_raw cr) = (st, cr_raw cr, None)" "reading st (cr_raw cr) (polled script) missing ds"
        and e: "polled script = [] \<and> missing = [] \<longrightarrow> ds = []"
      show ?case
      proof (rule poll_read_waiting [OF d(1) less.prems(1) d(2) up(1) less.prems(3)])
        fix data script1 st1
        assume s: "script = Ready (Inr data) # script1" and st1: "reading st1 (cr_raw cr @ data) (polled script1) missing ds"
        have "poll_ok missing \<lparr>cr_state = st1, cr_buf = [], cr_raw = cr_raw cr @ data\<rparr> script1 ds
            (chunk_poll_read decrypt room \<lparr>cr_state = st1, cr_buf = [], cr_raw = cr_raw cr @ data\<rparr> script1)"
          by (rule less.hyps) (use s st1 up(1) less.prems(3) in \<open>simp_all add: upcoming_def\<close>)
        then show "poll_ok missing cr script ds (chunk_poll_read decrypt room \<lparr>cr_state = st1, cr_buf = [], cr_raw = cr_raw cr @ data\<rparr> script1)"
          by (rule poll_ok_weaken) (use less.prems(1) s in simp_all)
      qed (use e in simp)
    next
      fix st1 raw1 d ds1
      assume d: "ds = d # ds1" "decrypt (cr_state cr) (cr_raw cr) = (st1, raw1, Some (Inr d))" "reading st1 raw1 (polled script) missing ds1"
      have "d \<noteq> []" using up(2) d(1) by (simp add: reading_def chunk_ok_def)
      then have "poll_ok missing cr script ds (chunk_poll_read decrypt room \<lparr>cr_state = st1, cr_buf = d, cr_raw = raw1\<rparr> script)"
        by (intro poll_read_buffered [of _ _ _ ds1]) (use d(1,3) up(1) less.prems in simp_all)
      then show ?case using less.prems(1) d(2) \<open>d \<noteq> []\<close> by (subst chunk_poll_read.simps) simp
    qed
  qed
qed (use assms poll_read_buffered upcoming_def in blast)

text \<open>A run of polls returns the texts in order without an error, and all of them when enough polls were made and nothing is missing.\<close>

lemma run_reads_upcoming:
  assumes "upcoming cr script missing ds" and "list_all (\<lambda>room. 0 < room) rooms" and "run_reads decrypt cr rooms script = (outs, cr1, script1)"
  shows "(\<forall>e. Ready (Inl e) \<notin> set outs) \<and> prefix (polled outs) (cr_buf cr @ concat ds)
    \<and> (missing = [] \<and> length (cr_buf cr @ concat ds) + length script \<le> length rooms \<longrightarrow> polled outs = cr_buf cr @ concat ds)"
  using assms
proof (induction rooms arbitrary: cr script ds outs)
  case Nil
  then show ?case by simp
next
  case (Cons room rooms)
  obtain res cr2 script2 where p: "chunk_poll_read decrypt room cr script = (res, cr2, script2)" by (metis prod_cases3)
  obtain outs2 where r: "run_reads decrypt cr2 rooms script2 = (outs2, cr1, script1)" "outs = res # outs2"
    using Cons.prems(3) by (auto simp: p split: prod.splits)
  have "poll_ok missing cr script ds (res, cr2, script2)" using poll_read_cases [OF Cons.prems(1), of room] Cons.prems(2) p by simp
  then obtain ds2 where ds2: "upcoming cr2 script2 missing ds2"
      "(\<exists>bs. res = Ready (Inr bs) \<and> bs \<noteq> [] \<and> cr_buf cr @ concat ds = bs @ cr_buf cr2 @ concat ds2 \<and> length script2 \<le> length script)
       \<or> res = Pending \<and> cr_buf cr @ concat ds = cr_buf cr2 @ concat ds2
         \<and> (length script2 < length script \<or> script2 = script \<and> (missing = [] \<longrightarrow> cr_buf cr2 @ concat ds2 = []))"
    unfolding poll_ok_def prod.case by blast
  have IH: "(\<forall>e. Ready (Inl e) \<notin> set outs2) \<and> prefix (polled outs2) (cr_buf cr2 @ concat ds2)
      \<and> (missing = [] \<and> length (cr_buf cr2 @ concat ds2) + length script2 \<le> length rooms \<longrightarrow> polled outs2 = cr_buf cr2 @ concat ds2)"
    using Cons.IH [OF ds2(1) _ r(1)] Cons.prems(2) by simp
  from ds2(2) show ?case
  proof (elim disjE exE conjE)
    fix bs assume b: "res = Ready (Inr bs)" "bs \<noteq> []" "cr_buf cr @ concat ds = bs @ cr_buf cr2 @ concat ds2" "length script2 \<le> length script"
    have "0 < length bs" using b(2) by simp
    then have "length (cr_buf cr2 @ concat ds2) + length script2 \<le> length rooms"
      if "length (bs @ cr_buf cr2 @ concat ds2) + length script \<le> length (room # rooms)"
      using that b(4) unfolding length_append length_Cons by linarith
    then show ?thesis using IH unfolding r(2) b(1,3) by auto
  next
    assume b: "res = Pending" "cr_buf cr @ concat ds = cr_buf cr2 @ concat ds2" "length script2 < length script"
    have "length (cr_buf cr2 @ concat ds2) + length script2 \<le> length rooms"
      if "length (cr_buf cr2 @ concat ds2) + length script \<le> length (room # rooms)"
      using that b(3) unfolding length_Cons by linarith
    then show ?thesis using IH unfolding r(2) b(1,2) polled_simps by auto
  next
    assume b: "res = Pending" "cr_buf cr @ concat ds = cr_buf cr2 @ concat ds2" "missing = [] \<longrightarrow> cr_buf cr2 @ concat ds2 = []"
    have "polled outs2 = []" if "missing = []" using IH b(3) that by (simp only: prefix_Nil)
    then show ?thesis using IH b(3) unfolding r(2) b(1,2) polled_simps by auto
  qed
qed

text \<open>The stream is transparent, for every way the inner streams cut the bytes.\<close>

lemma transparent:
  assumes "synced w r"
    and writes: "run_writes append_chunk \<lparr>cw_state = w, cw_buf = []\<rparr> ops = (accepted, wire, cw)" "list_all op_ok ops"
    and arrives: "flowing script" "prefix (polled script) wire"
    and reads: "list_all (\<lambda>room. 0 < room) rooms" "run_reads decrypt \<lparr>cr_state = r, cr_buf = initial, cr_raw = []\<rparr> rooms script = (outs, cr, rest)"
  shows "(\<forall>e. Ready (Inl e) \<notin> set outs) \<and> prefix (polled outs) (initial @ accepted)
    \<and> (polled script = wire \<and> cw_buf cw = [] \<and> length (initial @ accepted) + length script \<le> length rooms \<longrightarrow> polled outs = initial @ accepted)"
proof -
  obtain ds where ds: "list_all chunk_ok ds" "concat ds = accepted" "chunk_stream append_chunk w ds = wire @ cw_buf cw"
    using run_writes_stream [OF writes] assms(1) by auto
  obtain missing where m: "wire = polled script @ missing" using arrives(2) by (rule prefixE)
  have "upcoming \<lparr>cr_state = r, cr_buf = initial, cr_raw = []\<rparr> script (missing @ cw_buf cw) ds"
    using ds arrives(1) assms(1) m by (auto simp: upcoming_def reading_def intro!: exI [of _ w] exI [of _ r])
  from run_reads_upcoming [OF this reads] show ?thesis using m unfolding ds(2) by auto
qed

end

end
