(* ===== verification/SsStream.thy ===== *)
theory SsStream
  imports AeadStream
begin

text \<open>
  The chunk format of Shadowsocks 2022 (\<^verbatim>\<open>crates/blackwire-protocol/src/ss2022/stream.rs\<close>): an encrypted length and the encrypted
  text, each under the next nonce of a 64-bit counter. The stream around it is that of \<open>AeadStream\<close>.
\<close>

section \<open>Chunks\<close>

definition make_nonce :: "u64 \<Rightarrow> bytes" where
  "make_nonce counter = to_le 8 counter @ [0, 0, 0, 0]"

record ss_read_half =
  ssr_key :: bytes
  ssr_counter :: u64

record ss_write_half =
  ssw_key :: bytes
  ssw_counter :: u64
  ssw_response_header :: "bytes option"

definition ss_try_decrypt_chunk :: "aead \<Rightarrow> ss_read_half decryptor" where
  "ss_try_decrypt_chunk C r src =
     (if length src < 18 then (r, src, None)
      else case unseal C (ssr_key r) (make_nonce (ssr_counter r)) (take 2 src) (take 16 (drop 2 src)) of
        None \<Rightarrow> (r, src, Some (Inl InvalidData))
      | Some len_scratch \<Rightarrow>
          let data_len = unat (from_be len_scratch :: u16) in
          if data_len = 0 then (r\<lparr>ssr_counter := ssr_counter r + 1\<rparr>, drop 18 src, Some (Inr []))
          else if length src < 18 + data_len + 16 then (r, src, None)
          else let r1 = r\<lparr>ssr_counter := ssr_counter r + 1\<rparr>;
                   data_ct = take data_len (drop 18 src); data_tag = take 16 (drop (18 + data_len) src);
                   src1 = drop (18 + data_len + 16) src
               in case unseal C (ssr_key r1) (make_nonce (ssr_counter r1)) data_ct data_tag of
                 None \<Rightarrow> (r1, src1, Some (Inl InvalidData))
               | Some plain \<Rightarrow> (r1\<lparr>ssr_counter := ssr_counter r1 + 1\<rparr>, src1, Some (Inr plain)))"

text \<open>The text is copied into the buffer and encrypted there.\<close>

definition ss_encrypt_append :: "aead \<Rightarrow> bytes \<Rightarrow> bytes \<Rightarrow> bytes \<Rightarrow> bytes \<Rightarrow> bytes \<times> io_kind option" where
  "ss_encrypt_append C key nonce dst data = (case seal C key nonce data of
      None \<Rightarrow> (dst @ data, Some InvalidData)
    | Some (ct, tag) \<Rightarrow> (dst @ ct @ tag, None))"

definition ss_append_two :: "aead \<Rightarrow> ss_write_half \<Rightarrow> bytes \<Rightarrow> bytes \<Rightarrow> bytes \<Rightarrow> ss_write_half \<times> bytes \<times> io_kind option" where
  "ss_append_two C w dst head data = (case ss_encrypt_append C (ssw_key w) (make_nonce (ssw_counter w)) dst head of
      (dst1, Some e) \<Rightarrow> (w, dst1, Some e)
    | (dst1, None) \<Rightarrow>
        let w1 = w\<lparr>ssw_counter := ssw_counter w + 1\<rparr> in
        (case ss_encrypt_append C (ssw_key w1) (make_nonce (ssw_counter w1)) dst1 data of
           (dst2, Some e) \<Rightarrow> (w1, dst2, Some e)
         | (dst2, None) \<Rightarrow> (w1\<lparr>ssw_counter := ssw_counter w1 + 1\<rparr>, dst2, None)))"

definition ss_append_encrypted_chunk :: "aead \<Rightarrow> ss_write_half appender" where
  "ss_append_encrypted_chunk C w dst data = (case ssw_response_header w of
      Some fixed_header \<Rightarrow> ss_append_two C (w\<lparr>ssw_response_header := None\<rparr>) dst (take 41 fixed_header @ to_be 2 (of_nat (length data) :: u16)) data
    | None \<Rightarrow> ss_append_two C w dst (to_be 2 (of_nat (length data) :: u16)) data)"

section \<open>The stream\<close>

record ss_stream =
  ss_reader :: "ss_read_half chunk_reader"
  ss_writer :: "ss_write_half chunk_writer"

definition ss_new_bidir :: "bytes \<Rightarrow> u64 \<Rightarrow> bytes \<Rightarrow> u64 \<Rightarrow> bytes \<Rightarrow> bytes option \<Rightarrow> ss_stream" where
  "ss_new_bidir read_subkey read_start_nonce write_subkey write_start_nonce initial_read response_header =
     \<lparr>ss_reader = \<lparr>cr_state = \<lparr>ssr_key = read_subkey, ssr_counter = read_start_nonce\<rparr>, cr_buf = initial_read, cr_raw = []\<rparr>,
      ss_writer = \<lparr>cw_state = \<lparr>ssw_key = write_subkey, ssw_counter = write_start_nonce, ssw_response_header = response_header\<rparr>, cw_buf = []\<rparr>\<rparr>"

definition ss_new_with_nonce :: "bytes \<Rightarrow> u64 \<Rightarrow> ss_stream" where
  "ss_new_with_nonce subkey start_nonce = ss_new_bidir subkey start_nonce subkey start_nonce [] None"

section \<open>The format is a chunk codec\<close>

definition ss_synced :: "aead \<Rightarrow> ss_write_half \<Rightarrow> ss_read_half \<Rightarrow> bool" where
  "ss_synced C w r \<longleftrightarrow> aead_laws C \<and> ssw_key w = ssr_key r \<and> ssw_counter w = ssr_counter r \<and> ssw_response_header w = None"

text \<open>A chunk: the sealed length and the sealed text.\<close>

lemma ss_chunk:
  assumes "ss_synced C w r" and "chunk_ok d"
  obtains lct ltag ct tag where
    "\<And>dst. ss_append_encrypted_chunk C w dst d = (w\<lparr>ssw_counter := ssw_counter w + 1 + 1\<rparr>, dst @ lct @ ltag @ ct @ tag, None)"
    and "length lct = 2" "length ltag = 16" "length ct = length d" "length tag = 16"
    and "unseal C (ssr_key r) (make_nonce (ssr_counter r)) lct ltag = Some (to_be 2 (of_nat (length d) :: u16))"
    and "unseal C (ssr_key r) (make_nonce (ssr_counter r + 1)) ct tag = Some d"
proof -
  have laws: "aead_laws C" and len: "length (to_be 2 (of_nat (length d) :: u16)) \<le> 65536" "length d \<le> 65536"
    using assms by (simp_all add: ss_synced_def chunk_ok_def)
  obtain lct ltag where l: "seal C (ssw_key w) (make_nonce (ssw_counter w)) (to_be 2 (of_nat (length d) :: u16)) = Some (lct, ltag)"
      "length lct = length (to_be 2 (of_nat (length d) :: u16))" "length ltag = 16"
      "unseal C (ssw_key w) (make_nonce (ssw_counter w)) lct ltag = Some (to_be 2 (of_nat (length d) :: u16))"
    by (rule aead_seal [OF laws len(1)])
  obtain ct tag where t: "seal C (ssw_key w) (make_nonce (ssw_counter w + 1)) d = Some (ct, tag)" "length ct = length d" "length tag = 16"
      "unseal C (ssw_key w) (make_nonce (ssw_counter w + 1)) ct tag = Some d"
    by (rule aead_seal [OF laws len(2)])
  show thesis
  proof (rule that [of lct ltag ct tag])
    show "ss_append_encrypted_chunk C w dst d = (w\<lparr>ssw_counter := ssw_counter w + 1 + 1\<rparr>, dst @ lct @ ltag @ ct @ tag, None)" for dst
      using assms(1) l(1) t(1) by (simp add: ss_append_encrypted_chunk_def ss_synced_def ss_append_two_def ss_encrypt_append_def Let_def)
  qed (use l t assms(1) in \<open>simp_all add: ss_synced_def\<close>)
qed

lemma chunk_len_word: "chunk_ok d \<Longrightarrow> unat (of_nat (length d) :: u16) = length d"
  by (simp add: chunk_ok_def unat_of_nat)

interpretation ss: chunk_codec "ss_append_encrypted_chunk C" "ss_try_decrypt_chunk C" "ss_synced C" for C
proof
  fix w r d dst
  assume h: "ss_synced C w r" "chunk_ok d"
  then show "ss_append_encrypted_chunk C w dst d
      = (chunk_next (ss_append_encrypted_chunk C) w d, dst @ chunk_bytes (ss_append_encrypted_chunk C) w d, None)"
    by (rule ss_chunk) (simp add: chunk_next_def chunk_bytes_def)
next
  fix w r d
  assume h: "ss_synced C w r" "chunk_ok d"
  from h show "\<exists>r'. ss_synced C (chunk_next (ss_append_encrypted_chunk C) w d) r'
      \<and> (\<forall>rest. ss_try_decrypt_chunk C r (chunk_bytes (ss_append_encrypted_chunk C) w d @ rest) = (r', rest, Some (Inr d)))"
  proof (rule ss_chunk)
    fix lct ltag ct tag
    assume c: "\<And>dst. ss_append_encrypted_chunk C w dst d = (w\<lparr>ssw_counter := ssw_counter w + 1 + 1\<rparr>, dst @ lct @ ltag @ ct @ tag, None)"
      and f: "length lct = 2" "length ltag = 16" "length ct = length d" "length tag = 16"
        "unseal C (ssr_key r) (make_nonce (ssr_counter r)) lct ltag = Some (to_be 2 (of_nat (length d) :: u16))"
        "unseal C (ssr_key r) (make_nonce (ssr_counter r + 1)) ct tag = Some d"
    have "ss_try_decrypt_chunk C r (lct @ ltag @ ct @ tag @ rest) = (r\<lparr>ssr_counter := ssr_counter r + 1 + 1\<rparr>, rest, Some (Inr d))" for rest
      using f h(2) by (simp add: ss_try_decrypt_chunk_def Let_def chunk_len_word chunk_ok_def)
    then show ?thesis
      using c [of "[]"] h(1) by (intro exI [of _ "r\<lparr>ssr_counter := ssr_counter r + 1 + 1\<rparr>"]) (simp add: chunk_next_def chunk_bytes_def ss_synced_def)
  qed
next
  fix w r d
  assume "ss_synced C w r" "chunk_ok d"
  then show "chunk_bytes (ss_append_encrypted_chunk C) w d \<noteq> []"
    by (rule ss_chunk) (auto simp: chunk_bytes_def)
next
  fix w r d part q
  assume h: "ss_synced C w r" "chunk_ok d" and part: "chunk_bytes (ss_append_encrypted_chunk C) w d = part @ q" "q \<noteq> []"
  from h(1,2) show "\<exists>r'. ss_try_decrypt_chunk C r part = (r', part, None) \<and> (\<forall>x. ss_try_decrypt_chunk C r' (part @ x) = ss_try_decrypt_chunk C r (part @ x))"
  proof (rule ss_chunk)
    fix lct ltag ct tag
    assume c: "\<And>dst. ss_append_encrypted_chunk C w dst d = (w\<lparr>ssw_counter := ssw_counter w + 1 + 1\<rparr>, dst @ lct @ ltag @ ct @ tag, None)"
      and f: "length lct = 2" "length ltag = 16" "length ct = length d" "length tag = 16"
        "unseal C (ssr_key r) (make_nonce (ssr_counter r)) lct ltag = Some (to_be 2 (of_nat (length d) :: u16))"
    have whole: "lct @ ltag @ ct @ tag = part @ q" using part(1) c [of "[]"] by (simp add: chunk_bytes_def)
    have short: "length part < 18 + length d + 16" using arg_cong [OF whole, of length] f part(2) by simp
    have "ss_try_decrypt_chunk C r part = (r, part, None)"
    proof (cases "length part < 18")
      case False
      have "take 2 part = take 2 (part @ q)" "take 16 (drop 2 part) = take 16 (drop 2 (part @ q))" using False by simp_all
      then have "take 2 part = lct" "take 16 (drop 2 part) = ltag" using f(1,2) unfolding whole [symmetric] by simp_all
      then show ?thesis using False f(5) short h(2) by (simp add: ss_try_decrypt_chunk_def Let_def chunk_len_word chunk_ok_def)
    qed (simp add: ss_try_decrypt_chunk_def)
    then show ?thesis by blast
  qed
qed

section \<open>Properties\<close>

text \<open>
  Property C10. A Shadowsocks 2022 stream is transparent. However the writing side's buffers and the inner streams cut the bytes,
  a reader with the writer's key and counter returns, after its initial payload, a prefix of the bytes that were accepted, never
  an error; and when everything was flushed and delivered, as many polls as there are bytes and deliveries return all of them.
\<close>

theorem ss_stream_transparent:
  assumes "aead_laws C"
    and "run_writes (ss_append_encrypted_chunk C) (ss_writer (ss_new_bidir key1 m1 key n initial1 None)) ops = (accepted, wire, cw)"
    and "list_all op_ok ops" and "flowing script" and "prefix (polled script) wire"
    and "list_all (\<lambda>room. 0 < room) rooms"
    and "run_reads (ss_try_decrypt_chunk C) (ss_reader (ss_new_bidir key n key2 m2 initial None)) rooms script = (outs, cr, rest)"
  shows "(\<forall>e. Ready (Inl e) \<notin> set outs) \<and> prefix (polled outs) (initial @ accepted)
    \<and> (polled script = wire \<and> cw_buf cw = [] \<and> length (initial @ accepted) + length script \<le> length rooms \<longrightarrow> polled outs = initial @ accepted)"
proof (rule ss.transparent [OF _ _ assms(3-6)])
  show "ss_synced C \<lparr>ssw_key = key, ssw_counter = n, ssw_response_header = None\<rparr> \<lparr>ssr_key = key, ssr_counter = n\<rparr>"
    using assms(1) by (simp add: ss_synced_def)
qed (use assms(2,7) in \<open>simp_all add: ss_new_bidir_def\<close>)

text \<open>A cipher that satisfies the laws: the text itself, with the nonce as its tag.\<close>

definition plain_tag :: "bytes \<Rightarrow> bytes" where
  "plain_tag nonce = take 16 (nonce @ replicate 16 0)"

lemma length_plain_tag [simp]: "length (plain_tag nonce) = 16"
  by (simp add: plain_tag_def min_def)

definition plain_aead :: aead where
  "plain_aead = \<lparr>seal = (\<lambda>k n d. Some (d, plain_tag n)), unseal = (\<lambda>k n ct tag. if tag = plain_tag n then Some ct else None)\<rparr>"

lemma plain_aead_laws: "aead_laws plain_aead"
  by (simp add: aead_laws_def plain_aead_def)

theorem ss_stream_transparent_witness:
  "\<exists>wire cw. run_writes (ss_append_encrypted_chunk plain_aead) (ss_writer (ss_new_bidir [8] 2 [7] 2 [] None)) [Put [1, 2] [Ready (Inr 100)]] = ([1, 2], wire, cw)
     \<and> polled (fst (run_reads (ss_try_decrypt_chunk plain_aead) (ss_reader (ss_new_bidir [7] 2 [8] 2 [] None)) [1, 1, 1, 1] [Pending, Ready (Inr wire)])) = [1, 2]"
proof -
  obtain wire cw where w: "run_writes (ss_append_encrypted_chunk plain_aead) (ss_writer (ss_new_bidir [8] 2 [7] 2 [] None)) [Put [1, 2] [Ready (Inr 100)]] = ([1, 2], wire, cw)"
      "cw_buf cw = []" "wire \<noteq> []"
    by (simp add: ss_new_bidir_def chunk_poll_write_def ss_append_encrypted_chunk_def ss_append_two_def ss_encrypt_append_def plain_aead_def drain.simps Let_def)
  obtain outs cr rest where r: "run_reads (ss_try_decrypt_chunk plain_aead) (ss_reader (ss_new_bidir [7] 2 [8] 2 [] None)) [1, 1, 1, 1] [Pending, Ready (Inr wire)] = (outs, cr, rest)"
    by (metis prod_cases3)
  have "polled outs = [1, 2]" using ss_stream_transparent [OF plain_aead_laws w(1) _ _ _ _ r] w(2,3) by simp
  then show ?thesis using w(1) r by (intro exI [of _ wire] exI [of _ cw]) simp
qed

text \<open>An empty write desynchronises the two ends: the writer seals an empty text after the length, the reader stops after the length.\<close>

lemma ss_empty_write_desynchronises:
  assumes "ss_synced C w r" and "ss_append_encrypted_chunk C w [] [] = (w1, wire, None)"
  shows "\<exists>r1 left. ss_try_decrypt_chunk C r wire = (r1, left, Some (Inr [])) \<and> length left = 16 \<and> ssw_counter w1 = ssr_counter r1 + 1"
proof -
  have laws: "aead_laws C" using assms(1) by (simp add: ss_synced_def)
  obtain lct ltag where l: "seal C (ssw_key w) (make_nonce (ssw_counter w)) (to_be 2 (of_nat (length ([] :: bytes)) :: u16)) = Some (lct, ltag)"
      "length lct = length (to_be 2 (of_nat (length ([] :: bytes)) :: u16))" "length ltag = 16"
      "unseal C (ssw_key w) (make_nonce (ssw_counter w)) lct ltag = Some (to_be 2 (of_nat (length ([] :: bytes)) :: u16))"
    by (rule aead_seal [OF laws, of "to_be 2 (of_nat (length ([] :: bytes)) :: u16)"]) simp
  obtain ct tag where t: "seal C (ssw_key w) (make_nonce (ssw_counter w + 1)) [] = Some (ct, tag)" "length ct = length ([] :: bytes)" "length tag = 16"
    by (rule aead_seal [OF laws, of "[]"]) simp
  have "wire = lct @ ltag @ tag" "w1 = w\<lparr>ssw_counter := ssw_counter w + 1 + 1\<rparr>"
    using assms l(1) t by (simp_all add: ss_append_encrypted_chunk_def ss_synced_def ss_append_two_def ss_encrypt_append_def Let_def)
  then show ?thesis using l t assms(1) by (simp add: ss_try_decrypt_chunk_def Let_def ss_synced_def)
qed

text \<open>
  Closing a stream loses accepted bytes. When the inner stream cannot take a chunk at once, \<^verbatim>\<open>poll_write\<close> reports
  the bytes as written and keeps the chunk, and \<^verbatim>\<open>poll_shutdown\<close> closes the inner stream without writing it: nothing reaches
  the peer.
\<close>

theorem ss_shutdown_loses_data:
  assumes "aead_laws C" and "0 < length buf" and "length buf \<le> 16384"
  shows "\<exists>cw. chunk_poll_write (ss_append_encrypted_chunk C) buf (ss_writer (ss_new_bidir key1 m1 key n initial None)) [Pending]
      = (Ready (Inr (length buf)), cw, []) \<and> cw_buf cw \<noteq> []
    \<and> chunk_poll_shutdown (Ready (Inr ())) cw = (Ready (Inr ()), cw, [])"
proof -
  let ?w = "\<lparr>ssw_key = key, ssw_counter = n, ssw_response_header = None\<rparr>" and ?a = "ss_append_encrypted_chunk C"
  have "ss_synced C ?w \<lparr>ssr_key = key, ssr_counter = n\<rparr>" using assms(1) by (simp add: ss_synced_def)
  moreover have "chunk_ok buf" using assms(2,3) by (auto simp: chunk_ok_def)
  ultimately have "?a ?w dst buf = (chunk_next ?a ?w buf, dst @ chunk_bytes ?a ?w buf, None)" "chunk_bytes ?a ?w buf \<noteq> []" for dst
    by (rule ss.append_law, rule ss.chunk_nonempty)
  then show ?thesis
    using assms(3) by (simp add: chunk_poll_write_def chunk_poll_shutdown_def ss_new_bidir_def drain.simps)
qed

theorem ss_shutdown_loses_data_witness:
  "\<exists>cw. chunk_poll_write (ss_append_encrypted_chunk plain_aead) [1, 2] (ss_writer (ss_new_bidir [8] 2 [7] 2 [] None)) [Pending] = (Ready (Inr 2), cw, [])
     \<and> cw_buf cw \<noteq> []"
  using ss_shutdown_loses_data [OF plain_aead_laws, of "[1, 2]" "[8]" 2 "[7]" 2 "[]"] by auto

end
