(* ===== verification/SsHandshake.thy ===== *)
theory SsHandshake
  imports SsStream Datagrams
begin

text \<open>
  Opening a Shadowsocks 2022 connection: keys (\<^verbatim>\<open>ss2022/subkey.rs\<close>, \<^verbatim>\<open>ss2022.rs\<close>), the filter against replayed salts
  (\<^verbatim>\<open>replay.rs\<close>), the server's side (\<^verbatim>\<open>inbound.rs\<close>) and the client's (\<^verbatim>\<open>outbound.rs\<close>). Hashes, the cipher and the base64 decoders are the
  record \<open>ss_libs\<close>; clock readings and random salts are arguments.
\<close>

section \<open>Keys\<close>

record ss_libs =
  aes256 :: aead
  derive_key :: "rstr \<Rightarrow> bytes \<Rightarrow> bytes"
  blake3_hash :: "bytes \<Rightarrow> bytes"
  base64_decoders :: "(rstr \<Rightarrow> bytes option) list"

definition derive_subkey :: "ss_libs \<Rightarrow> bytes \<Rightarrow> bytes \<Rightarrow> bytes" where
  "derive_subkey L psk salt = derive_key L (ascii ''shadowsocks 2022 session subkey'') (psk @ salt)"

fun first_decoding :: "(rstr \<Rightarrow> bytes option) list \<Rightarrow> rstr \<Rightarrow> bytes option" where
  "first_decoding [] s = None"
| "first_decoding (decode # engines) s = (case decode s of
      Some bs \<Rightarrow> if length bs = 32 then Some bs else first_decoding engines s
    | None \<Rightarrow> first_decoding engines s)"

definition password_to_psk :: "ss_libs \<Rightarrow> rstr \<Rightarrow> bytes" where
  "password_to_psk L password = (case first_decoding (base64_decoders L) password of Some key \<Rightarrow> key | None \<Rightarrow> blake3_hash L password)"

section \<open>Replayed salts\<close>

text \<open>The table of salts with the instant, in milliseconds, at which each was seen.\<close>

type_synonym salt_replay = "(bytes \<times> nat) list"

definition check_and_insert :: "bytes \<Rightarrow> nat \<Rightarrow> salt_replay \<Rightarrow> bool \<times> salt_replay" where
  "check_and_insert salt now tbl = (case map_of tbl salt of Some _ \<Rightarrow> (False, tbl) | None \<Rightarrow> (True, (salt, now) # tbl))"

definition reap :: "nat \<Rightarrow> salt_replay \<Rightarrow> salt_replay" where
  "reap now tbl = filter (\<lambda>(_, ts). now - ts < 60 * 1000) tbl"

section \<open>The server\<close>

abbreviation (input) "MAX_TIME_DIFF \<equiv> (30 :: u64)"

definition abs_diff :: "u64 \<Rightarrow> u64 \<Rightarrow> u64" where
  "abs_diff a b = (if a < b then b - a else a - b)"

definition ss_decrypt :: "ss_libs \<Rightarrow> bytes \<Rightarrow> u64 \<Rightarrow> bytes \<Rightarrow> string \<Rightarrow> bytes result" where
  "ss_decrypt L key counter ct msg = (case unseal_buffer (aes256 L) key (make_nonce counter) ct of
      None \<Rightarrow> Inl (Err (Protocol msg)) | Some pt \<Rightarrow> Inr pt)"

definition ss_encrypt :: "ss_libs \<Rightarrow> bytes \<Rightarrow> u64 \<Rightarrow> bytes \<Rightarrow> string \<Rightarrow> bytes result" where
  "ss_encrypt L key counter pt msg = (case seal_buffer (aes256 L) key (make_nonce counter) pt of
      None \<Rightarrow> Inl (Err (Protocol msg)) | Some ct \<Rightarrow> Inr ct)"

definition u64_from_be8 :: "bytes \<Rightarrow> u64 result" where
  "u64_from_be8 b = (if length b = 8 then Inr (from_be b) else Inl (Err (Protocol ''SS-2022: timestamp field must be 8 bytes'')))"

text \<open>The two headers of a request, after its salt.\<close>

definition ss_read_request :: "ss_libs \<Rightarrow> bytes \<Rightarrow> u64 \<Rightarrow> (address \<times> bytes) reader" where
  "ss_read_request L req_subkey now =
     rbind (read_exact 27) (\<lambda>fixed_ct. rbind (rlift (ss_decrypt L req_subkey 0 fixed_ct ''SS-2022: fixed header decrypt failed'')) (\<lambda>fixed.
       if length fixed \<noteq> 11 \<or> fixed ! 0 \<noteq> 0x00 then rfail (Protocol ''SS-2022: invalid request fixed header'')
       else rbind (rlift (bindE (rslice fixed 1 9) u64_from_be8)) (\<lambda>ts.
         if abs_diff ts now > MAX_TIME_DIFF then rfail AuthFailed
         else let variable_len = unat (from_be [fixed ! 9, fixed ! 10] :: u16) in
           rbind (read_exact (variable_len + 16)) (\<lambda>var_ct.
             rbind (rlift (ss_decrypt L req_subkey 1 var_ct ''SS-2022: variable header decrypt failed'')) (\<lambda>variable.
               rlift (parse_variable_header variable))))))"

definition build_response_fixed_header :: "bytes \<Rightarrow> u64 \<Rightarrow> bytes" where
  "build_response_fixed_header req_salt ts = [0x01] @ to_be 8 ts @ req_salt @ [0, 0]"

definition ss_response_head :: "ss_libs \<Rightarrow> bytes \<Rightarrow> bytes \<Rightarrow> u64 \<Rightarrow> bytes result" where
  "ss_response_head L resp_subkey req_salt ts =
     bindE (ss_encrypt L resp_subkey 0 (build_response_fixed_header req_salt ts) ''SS-2022: resp header encrypt failed'') (\<lambda>hdr_ct.
       bindE (ss_encrypt L resp_subkey 1 [] ''SS-2022: empty initial payload encrypt failed'') (\<lambda>empty_ct. Inr (hdr_ct @ empty_ct)))"

record ss_session =
  sess_dest :: address
  sess_stream :: ss_stream
  sess_sent :: bytes
  sess_rest :: bytes

text \<open>
  \<^verbatim>\<open>Ss2022Inbound::handle\<close> up to the dispatcher: the salt table afterwards, and the destination, the stream, what was sent
  to the client and what is still unread. \<open>instant\<close> and \<open>now\<close> are the readings of the two clocks, \<open>ts\<close> that for the response.
\<close>

definition ss_inbound_handle :: "ss_libs \<Rightarrow> bytes \<Rightarrow> salt_replay \<Rightarrow> bytes \<Rightarrow> nat \<Rightarrow> u64 \<Rightarrow> u64 \<Rightarrow> bytes \<Rightarrow> salt_replay \<times> ss_session result" where
  "ss_inbound_handle L psk tbl input instant now ts resp_salt = (case read_exact 32 input of
      Inl e \<Rightarrow> (tbl, Inl e)
    | Inr (req_salt, input1) \<Rightarrow>
        (case check_and_insert req_salt instant tbl of
          (False, tbl1) \<Rightarrow> (tbl1, Inl (Err AuthFailed))
        | (True, tbl1) \<Rightarrow>
            (tbl1,
             let req_subkey = derive_subkey L psk req_salt in
             bindE (ss_read_request L req_subkey now input1) (\<lambda>((dest, initial_payload), input2).
               let resp_subkey = derive_subkey L psk resp_salt in
               bindE (ss_response_head L resp_subkey req_salt ts) (\<lambda>head.
                 Inr \<lparr>sess_dest = dest, sess_stream = ss_new_bidir req_subkey 2 resp_subkey 2 initial_payload None,
                      sess_sent = resp_salt @ head, sess_rest = input2\<rparr>)))))"

section \<open>The client\<close>

definition ss_request :: "ss_libs \<Rightarrow> bytes \<Rightarrow> address \<Rightarrow> bytes \<Rightarrow> u64 \<Rightarrow> bytes result" where
  "ss_request L psk dest req_salt ts =
     (let req_subkey = derive_subkey L psk req_salt in
      bindE (build_request_variable_header dest) (\<lambda>variable.
        let fixed = [0x00] @ to_be 8 ts @ to_be 2 (of_nat (length variable) :: u16) in
        bindE (ss_encrypt L req_subkey 0 fixed ''SS-2022: fixed header encrypt failed'') (\<lambda>fixed_ct.
          bindE (ss_encrypt L req_subkey 1 variable ''SS-2022: variable header encrypt failed'') (\<lambda>variable_ct.
            Inr (req_salt @ fixed_ct @ variable_ct)))))"

definition ss_read_response :: "ss_libs \<Rightarrow> bytes \<Rightarrow> u64 \<Rightarrow> (bytes \<times> bytes) reader" where
  "ss_read_response L psk now =
     rbind (read_exact 32) (\<lambda>resp_salt.
       let resp_subkey = derive_subkey L psk resp_salt in
       rbind (read_exact (43 + 16)) (\<lambda>resp_hdr_ct.
         rbind (rlift (ss_decrypt L resp_subkey 0 resp_hdr_ct ''SS-2022: response header decrypt failed'')) (\<lambda>resp_hdr.
           if length resp_hdr \<noteq> 43 \<or> resp_hdr ! 0 \<noteq> 0x01 then rfail (Protocol ''SS-2022: invalid response header type'')
           else rbind (rlift (bindE (rslice resp_hdr 1 9) u64_from_be8)) (\<lambda>resp_ts.
             if abs_diff resp_ts now > MAX_TIME_DIFF then rfail AuthFailed
             else let initial_len = unat (from_be [resp_hdr ! 41, resp_hdr ! 42] :: u16) in
               rbind (read_exact (initial_len + 16)) (\<lambda>initial_ct.
                 rbind (rlift (ss_decrypt L resp_subkey 1 initial_ct ''SS-2022: initial payload decrypt failed'')) (\<lambda>initial_pt.
                   rret (resp_subkey, initial_pt)))))))"

text \<open>\<^verbatim>\<open>open_ss2022_stream\<close>: what is sent, then what comes of the server's bytes.\<close>

definition open_ss2022_stream :: "ss_libs \<Rightarrow> bytes \<Rightarrow> address \<Rightarrow> bytes \<Rightarrow> u64 \<Rightarrow> u64 \<Rightarrow> bytes \<Rightarrow> bytes \<times> (ss_stream \<times> bytes) result" where
  "open_ss2022_stream L psk dest req_salt ts now input = (case ss_request L psk dest req_salt ts of
      Inl e \<Rightarrow> (req_salt, Inl e)
    | Inr sent \<Rightarrow> (sent, bindE (ss_read_response L psk now input) (\<lambda>((resp_subkey, initial_pt), rest).
        Inr (ss_new_bidir resp_subkey 2 (derive_subkey L psk req_salt) 2 initial_pt None, rest))))"

section \<open>Client and server agree\<close>

lemma ss_encrypt_law:
  assumes "aead_laws (aes256 L)" and "length pt \<le> 65536"
  obtains ct where "\<And>msg. ss_encrypt L key n pt msg = Inr ct" "length ct = length pt + 16" "\<And>msg. ss_decrypt L key n ct msg = Inr pt"
proof -
  obtain ct where c: "seal_buffer (aes256 L) key (make_nonce n) pt = Some ct" "length ct = length pt + 16" "unseal_buffer (aes256 L) key (make_nonce n) ct = Some pt"
    by (rule seal_buffer_law [OF assms])
  show thesis by (rule that [of ct]) (simp_all add: ss_encrypt_def ss_decrypt_def c)
qed

lemma socks_address_length:
  assumes "wire_ok a" and "write_socks5_address [] a = Inr w"
  shows "length w \<le> 259"
  using assms by (cases a) (auto simp: write_socks5_address_def Let_def split: if_splits)

text \<open>A fixed header: a type, a timestamp, some bytes, a length.\<close>

lemma fixed_header_fields:
  assumes "h = t # to_be 8 (ts :: u64) @ mid @ to_be 2 (k :: u16)"
  shows "length h = 11 + length mid" "h ! 0 = t" "rslice h 1 9 = Inr (to_be 8 ts)" "from_be [h ! (9 + length mid), h ! (10 + length mid)] = k"
proof -
  obtain x y where xy: "to_be 2 k = [x, y]" by (simp add: to_be_eval)
  then have "from_be [x, y] = k" using from_be_to_be [of 2 k] by simp
  then show "length h = 11 + length mid" "h ! 0 = t" "rslice h 1 9 = Inr (to_be 8 ts)" "from_be [h ! (9 + length mid), h ! (10 + length mid)] = k"
    by (simp_all add: assms xy nth_append rslice_def)
qed

lemma ss_request_read:
  assumes "aead_laws (aes256 L)" and "wire_ok dest"
  obtains heads where "ss_request L psk dest req_salt ts = Inr (req_salt @ heads)"
    "\<And>now rest. abs_diff ts now \<le> 30 \<Longrightarrow> ss_read_request L (derive_subkey L psk req_salt) now (heads @ rest) = Inr ((dest, []), rest)"
    "\<And>now rest. \<not> abs_diff ts now \<le> 30 \<Longrightarrow> ss_read_request L (derive_subkey L psk req_salt) now (heads @ rest) = Inl (Err AuthFailed)"
proof -
  obtain a where a: "write_socks5_address [] dest = Inr a" using write_socks5_address_total [OF assms(2)] by blast
  define variable where "variable = a @ to_be 2 (of_nat (length ([] :: bytes)) :: u16)"
  have v: "build_request_variable_header dest = Inr variable" "parse_variable_header variable = Inr (dest, [])" "length variable \<le> 261"
    using variable_header_round_trip [OF assms(2) a, of "[]" "[]"] socks_address_length [OF assms(2) a] by (simp_all add: variable_def)
  define fixed where "fixed = 0x00 # to_be 8 ts @ [] @ to_be 2 (of_nat (length variable) :: u16)"
  note f = fixed_header_fields [OF fixed_def, simplified list.size add_0_right]
  have vl: "unat (of_nat (length variable) :: u16) = length variable" using v(3) by (simp add: unat_of_nat)
  obtain fct where fct: "\<And>msg. ss_encrypt L (derive_subkey L psk req_salt) 0 fixed msg = Inr fct" "length fct = length fixed + 16"
      "\<And>msg. ss_decrypt L (derive_subkey L psk req_salt) 0 fct msg = Inr fixed"
    by (rule ss_encrypt_law [OF assms(1), of fixed "derive_subkey L psk req_salt" 0]) (use f(1) in auto)
  obtain vct where vct: "\<And>msg. ss_encrypt L (derive_subkey L psk req_salt) 1 variable msg = Inr vct" "length vct = length variable + 16"
      "\<And>msg. ss_decrypt L (derive_subkey L psk req_salt) 1 vct msg = Inr variable"
    by (rule ss_encrypt_law [OF assms(1), of variable "derive_subkey L psk req_salt" 1]) (use v(3) in auto)
  show thesis
  proof (rule that [of "fct @ vct"])
    show "ss_request L psk dest req_salt ts = Inr (req_salt @ fct @ vct)"
      using fct(1) vct(1) by (simp add: ss_request_def v(1) Let_def fixed_def)
    have "read_exact 27 (fct @ vct @ rest) = Inr (fct, vct @ rest)" for rest using fct(2) f(1) by (simp add: read_exact_append)
    then have r: "ss_read_request L (derive_subkey L psk req_salt) now ((fct @ vct) @ rest)
        = (if abs_diff ts now > MAX_TIME_DIFF then Inl (Err AuthFailed) else Inr ((dest, []), rest))" for now rest
      using fct(3) vct(2,3) v(2) f by (simp add: ss_read_request_def wire_simps u64_from_be8_def vl Let_def)
    show "abs_diff ts now \<le> 30 \<Longrightarrow> ss_read_request L (derive_subkey L psk req_salt) now ((fct @ vct) @ rest) = Inr ((dest, []), rest)" for now rest
      unfolding r by simp
    show "\<not> abs_diff ts now \<le> 30 \<Longrightarrow> ss_read_request L (derive_subkey L psk req_salt) now ((fct @ vct) @ rest) = Inl (Err AuthFailed)" for now rest
      unfolding r by simp
  qed
qed

lemma ss_response_read:
  assumes "aead_laws (aes256 L)" and "length req_salt = 32" and "length resp_salt = 32" and "abs_diff ts now \<le> 30"
  obtains head where "ss_response_head L (derive_subkey L psk resp_salt) req_salt ts = Inr head"
    "\<And>rest. ss_read_response L psk now (resp_salt @ head @ rest) = Inr ((derive_subkey L psk resp_salt, []), rest)"
proof -
  define hdr where "hdr = 0x01 # to_be 8 ts @ req_salt @ to_be 2 (0 :: u16)"
  have hdr2: "build_response_fixed_header req_salt ts = hdr" by (simp add: build_response_fixed_header_def hdr_def to_be_eval)
  note f = fixed_header_fields [OF hdr_def, unfolded assms(2), simplified]
  obtain hct where hct: "\<And>msg. ss_encrypt L (derive_subkey L psk resp_salt) 0 hdr msg = Inr hct" "length hct = length hdr + 16"
      "\<And>msg. ss_decrypt L (derive_subkey L psk resp_salt) 0 hct msg = Inr hdr"
    by (rule ss_encrypt_law [OF assms(1), of hdr "derive_subkey L psk resp_salt" 0]) (use f(1) in auto)
  obtain ect where ect: "\<And>msg. ss_encrypt L (derive_subkey L psk resp_salt) 1 [] msg = Inr ect" "length ect = length ([] :: bytes) + 16"
      "\<And>msg. ss_decrypt L (derive_subkey L psk resp_salt) 1 ect msg = Inr []"
    by (rule ss_encrypt_law [OF assms(1), of "[]" "derive_subkey L psk resp_salt" 1]) auto
  show thesis
  proof (rule that [of "hct @ ect"])
    show "ss_response_head L (derive_subkey L psk resp_salt) req_salt ts = Inr (hct @ ect)"
      using hct(1) ect(1) by (simp add: ss_response_head_def hdr2)
    have "read_exact 59 (hct @ ect @ rest) = Inr (hct, ect @ rest)" "read_exact 16 (ect @ rest) = Inr (ect, rest)" for rest
      using hct(2) f(1) ect(2) by (simp_all add: read_exact_append)
    then show "ss_read_response L psk now (resp_salt @ (hct @ ect) @ rest) = Inr ((derive_subkey L psk resp_salt, []), rest)" for rest
      using assms(3,4) hct(3) ect(3) f by (simp add: ss_read_response_def wire_simps u64_from_be8_def Let_def)
  qed
qed

text \<open>
  Property C19. A client and a server with the same key open a stream to the requested destination, if their clocks differ by at
  most 30 seconds and the salt is new: the server reads the destination the client asked for, sends its answer, and both hold
  streams whose keys and counters match in both directions, with nothing lost of what follows the two handshakes.
\<close>

theorem ss_handshake_agrees:
  assumes "aead_laws (aes256 L)" and "wire_ok dest" and "length req_salt = 32" and "length resp_salt = 32"
    and "map_of tbl req_salt = None" and "abs_diff ts now \<le> 30" and "abs_diff ts' now' \<le> 30"
  shows "\<exists>req sess client. ss_request L psk dest req_salt ts = Inr req
    \<and> ss_inbound_handle L psk tbl (req @ up) instant now ts' resp_salt = ((req_salt, instant) # tbl, Inr sess)
    \<and> sess_dest sess = dest \<and> sess_rest sess = up
    \<and> open_ss2022_stream L psk dest req_salt ts now' (sess_sent sess @ down) = (req, Inr (client, down))
    \<and> client = ss_new_bidir (derive_subkey L psk resp_salt) 2 (derive_subkey L psk req_salt) 2 [] None
    \<and> sess_stream sess = ss_new_bidir (derive_subkey L psk req_salt) 2 (derive_subkey L psk resp_salt) 2 [] None"
proof -
  obtain heads where h: "ss_request L psk dest req_salt ts = Inr (req_salt @ heads)"
      "\<And>rest. ss_read_request L (derive_subkey L psk req_salt) now (heads @ rest) = Inr ((dest, []), rest)"
    by (rule ss_request_read [OF assms(1,2), of psk req_salt ts]) (use assms(6) in blast)
  obtain head where r: "ss_response_head L (derive_subkey L psk resp_salt) req_salt ts' = Inr head"
      "\<And>rest. ss_read_response L psk now' (resp_salt @ head @ rest) = Inr ((derive_subkey L psk resp_salt, []), rest)"
    by (rule ss_response_read [OF assms(1,3,4,7), of psk]) blast
  have "ss_inbound_handle L psk tbl ((req_salt @ heads) @ up) instant now ts' resp_salt = ((req_salt, instant) # tbl,
      Inr \<lparr>sess_dest = dest, sess_stream = ss_new_bidir (derive_subkey L psk req_salt) 2 (derive_subkey L psk resp_salt) 2 [] None,
        sess_sent = resp_salt @ head, sess_rest = up\<rparr>)"
    using assms(3,5) h(2) r(1) by (simp add: ss_inbound_handle_def read_exact_append check_and_insert_def Let_def)
  then show ?thesis using h(1) r(2) by (simp add: open_ss2022_stream_def)
qed

definition demo_ss :: ss_libs where
  "demo_ss = \<lparr>aes256 = plain_aead, derive_key = (\<lambda>ctx m. take 32 m), blake3_hash = (\<lambda>p. take 32 (p @ replicate 32 0)), base64_decoders = [\<lambda>_. None]\<rparr>"

lemma demo_ss_laws: "aead_laws (aes256 demo_ss)"
  by (simp add: demo_ss_def plain_aead_laws)

theorem ss_handshake_agrees_witness:
  "\<exists>req sess. ss_request demo_ss (replicate 32 1) (Ipv4 5 53) (replicate 32 2) 1000 = Inr req
     \<and> snd (ss_inbound_handle demo_ss (replicate 32 1) [] req 0 1010 1010 (replicate 32 3)) = Inr sess \<and> sess_dest sess = Ipv4 5 53"
proof -
  have "\<exists>req sess client. ss_request demo_ss (replicate 32 1) (Ipv4 5 53) (replicate 32 2) 1000 = Inr req
    \<and> ss_inbound_handle demo_ss (replicate 32 1) [] (req @ []) 0 1010 1010 (replicate 32 3) = ((replicate 32 2, 0) # [], Inr sess)
    \<and> sess_dest sess = Ipv4 5 53 \<and> sess_rest sess = []
    \<and> open_ss2022_stream demo_ss (replicate 32 1) (Ipv4 5 53) (replicate 32 2) 1000 1000 (sess_sent sess @ []) = (req, Inr (client, []))
    \<and> client = ss_new_bidir (derive_subkey demo_ss (replicate 32 1) (replicate 32 3)) 2 (derive_subkey demo_ss (replicate 32 1) (replicate 32 2)) 2 [] None
    \<and> sess_stream sess = ss_new_bidir (derive_subkey demo_ss (replicate 32 1) (replicate 32 2)) 2 (derive_subkey demo_ss (replicate 32 1) (replicate 32 3)) 2 [] None"
    by (rule ss_handshake_agrees [OF demo_ss_laws]) (simp_all add: abs_diff_def)
  then show ?thesis by auto
qed

text \<open>
  The client does not tie the server's answer to its own request. The response header repeats the salt of the
  request it answers, but the client never compares it: an answer recorded from another connection under the same key is accepted as
  long as its timestamp is recent.
\<close>

theorem ss_response_not_bound:
  assumes "aead_laws (aes256 L)" and "wire_ok dest" and "length other_salt = 32" and "length resp_salt = 32" and "abs_diff ts' now \<le> 30"
  shows "\<exists>head req. ss_response_head L (derive_subkey L psk resp_salt) other_salt ts' = Inr head
    \<and> open_ss2022_stream L psk dest req_salt ts now (resp_salt @ head @ rest)
        = (req, Inr (ss_new_bidir (derive_subkey L psk resp_salt) 2 (derive_subkey L psk req_salt) 2 [] None, rest))"
proof -
  obtain heads where h: "ss_request L psk dest req_salt ts = Inr (req_salt @ heads)" by (rule ss_request_read [OF assms(1,2), of psk req_salt ts]) blast
  obtain head where r: "ss_response_head L (derive_subkey L psk resp_salt) other_salt ts' = Inr head"
      "\<And>rest. ss_read_response L psk now (resp_salt @ head @ rest) = Inr ((derive_subkey L psk resp_salt, []), rest)"
    by (rule ss_response_read [OF assms(1,3,4,5), of psk]) blast
  show ?thesis using h r by (simp add: open_ss2022_stream_def)
qed

theorem ss_response_not_bound_witness:
  "\<exists>head req st. ss_response_head demo_ss (derive_subkey demo_ss [1] (replicate 32 3)) (replicate 32 9) 1000 = Inr head
    \<and> open_ss2022_stream demo_ss [1] (Ipv4 5 53) (replicate 32 2) 1000 1000 (replicate 32 3 @ head) = (req, Inr (st, []))"
  using ss_response_not_bound [OF demo_ss_laws, of "Ipv4 5 53" "replicate 32 9" "replicate 32 3" 1000 1000 "[1]" "replicate 32 2" 1000 "[]"]
  by (auto simp: abs_diff_def)

section \<open>Replays\<close>

text \<open>
  What happens to a server: connections, with what the client sends, and sweeps of the table. The wall clock is that of the
  instants, in whole seconds, with an offset.
\<close>

datatype server_event = Connection nat bytes bytes | Sweep nat

fun event_time :: "server_event \<Rightarrow> nat" where
  "event_time (Connection t _ _) = t"
| "event_time (Sweep t) = t"

definition unix_secs :: "nat \<Rightarrow> nat \<Rightarrow> u64" where
  "unix_secs offset t = of_nat ((offset + t) div 1000)"

fun ss_serve :: "ss_libs \<Rightarrow> bytes \<Rightarrow> nat \<Rightarrow> salt_replay \<Rightarrow> server_event list \<Rightarrow> (nat \<times> bytes) list" where
  "ss_serve L psk offset tbl [] = []"
| "ss_serve L psk offset tbl (Sweep t # evs) = ss_serve L psk offset (reap t tbl) evs"
| "ss_serve L psk offset tbl (Connection t input resp_salt # evs) =
     (case ss_inbound_handle L psk tbl input t (unix_secs offset t) (unix_secs offset t) resp_salt of
        (tbl1, Inl _) \<Rightarrow> ss_serve L psk offset tbl1 evs
      | (tbl1, Inr _) \<Rightarrow> (t, input) # ss_serve L psk offset tbl1 evs)"

text \<open>A salt stays in the table for a minute after it was seen, and keeps out connections that use it again.\<close>

lemma reap_keeps: "(s, t) \<in> set tbl \<Longrightarrow> now < t + 60000 \<Longrightarrow> (s, t) \<in> set (reap now tbl)"
  by (auto simp: reap_def)

lemma insert_keeps: "(s, t) \<in> set tbl \<Longrightarrow> (s, t) \<in> set (snd (check_and_insert salt now tbl))"
  by (auto simp: check_and_insert_def split: option.splits)

lemma handle_table:
  assumes "ss_inbound_handle L psk tbl input instant now ts resp_salt = (tbl1, res)"
  shows "set tbl \<subseteq> set tbl1" and "res = Inr sess \<Longrightarrow> map_of tbl (take 32 input) = None \<and> (take 32 input, instant) \<in> set tbl1"
  using assms insert_keeps
  by (auto simp: ss_inbound_handle_def read_exact_def check_and_insert_def Let_def split: if_splits option.splits)

lemma serve_member:
  assumes "(t, input) \<in> set (ss_serve L psk offset tbl evs)"
  shows "t \<in> event_time ` set evs
    \<and> (\<exists>tbl0 tbl1 sess resp_salt. ss_inbound_handle L psk tbl0 input t (unix_secs offset t) (unix_secs offset t) resp_salt = (tbl1, Inr sess))"
  using assms
proof (induction L psk offset tbl evs rule: ss_serve.induct)
  case (3 L psk offset tbl v inp resp_salt evs)
  obtain tbl1 res where h: "ss_inbound_handle L psk tbl inp v (unix_secs offset v) (unix_secs offset v) resp_salt = (tbl1, res)" by (rule prod.exhaust)
  show ?case
  proof (cases res)
    case (Inr sess)
    then have "(t, input) = (v, inp) \<or> (t, input) \<in> set (ss_serve L psk offset tbl1 evs)" using "3.prems" h by simp
    then show ?thesis using "3.IH"(2) h Inr by auto
  qed (use "3.IH"(1) "3.prems" h in simp)
qed simp_all

lemmas serve_times = serve_member [THEN conjunct1] and serve_accepts = serve_member [THEN conjunct2]

lemma serve_refuses:
  assumes "(s, t) \<in> set tbl" and "sorted (map event_time evs)" and "(u, input) \<in> set (ss_serve L psk offset tbl evs)" and "u < t + 60000"
  shows "take 32 input \<noteq> s"
  using assms
proof (induction L psk offset tbl evs rule: ss_serve.induct)
  case (2 L psk offset tbl v evs)
  then have "v \<le> u" using serve_times [of u input L psk offset tbl "Sweep v # evs"] by auto
  then show ?case using 2 reap_keeps [of s t tbl v] by simp
next
  case (3 L psk offset tbl v inp resp_salt evs)
  obtain tbl1 res where h: "ss_inbound_handle L psk tbl inp v (unix_secs offset v) (unix_secs offset v) resp_salt = (tbl1, res)" by (rule prod.exhaust)
  have "(s, t) \<in> set tbl1" using handle_table(1) [OF h] "3.prems"(1) by blast
  moreover have "take 32 inp \<noteq> s" if "res = Inr sess" for sess
    using handle_table(2) [OF h that] "3.prems"(1) by (auto simp: map_of_eq_None_iff image_iff)
  ultimately show ?case using "3.IH" h "3.prems"(2-4) by (cases res) auto
qed simp

lemma serve_gap:
  assumes "sorted (map event_time evs)"
  shows "sorted_wrt (\<lambda>(t1, in1) (t2, in2). t1 \<le> t2 \<and> (take 32 in1 = take 32 in2 \<longrightarrow> t1 + 60000 \<le> t2)) (ss_serve L psk offset tbl evs)"
  using assms
proof (induction L psk offset tbl evs rule: ss_serve.induct)
  case (3 L psk offset tbl v inp resp_salt evs)
  obtain tbl1 res where h: "ss_inbound_handle L psk tbl inp v (unix_secs offset v) (unix_secs offset v) resp_salt = (tbl1, res)" by (rule prod.exhaust)
  show ?case
  proof (cases res)
    case (Inr sess)
    have "(take 32 inp, v) \<in> set tbl1" using handle_table(2) [OF h Inr] by blast
    then have "v \<le> u \<and> (take 32 inp = take 32 input \<longrightarrow> v + 60000 \<le> u)" if "(u, input) \<in> set (ss_serve L psk offset tbl1 evs)" for u input
      using serve_refuses [OF _ _ that] serve_times [OF that] "3.prems" by fastforce
    then show ?thesis using "3.IH" h Inr "3.prems" by auto
  qed (use 3 h in auto)
qed simp_all

text \<open>The timestamp an accepted request was checked against.\<close>

definition request_time :: "ss_libs \<Rightarrow> bytes \<Rightarrow> bytes \<Rightarrow> u64" where
  "request_time L psk head59 = (case unseal_buffer (aes256 L) (derive_subkey L psk (take 32 head59)) (make_nonce 0) (drop 32 head59) of
      None \<Rightarrow> 0 | Some fixed \<Rightarrow> from_be (take 8 (drop 1 fixed)))"

lemma accepted_time:
  assumes "ss_inbound_handle L psk tbl input instant now ts resp_salt = (tbl1, Inr sess)"
  shows "abs_diff (request_time L psk (take 59 input)) now \<le> 30"
proof -
  obtain x input2 where len: "32 \<le> length input" and
      r: "ss_read_request L (derive_subkey L psk (take 32 input)) now (drop 32 input) = Inr (x, input2)"
    using assms by (auto simp: ss_inbound_handle_def read_exact_def check_and_insert_def Let_def bindE_eq_Inr split: if_splits option.splits)
  from r obtain fct rest fixed where f: "drop 32 input = fct @ rest" "length fct = 27"
      "ss_decrypt L (derive_subkey L psk (take 32 input)) 0 fct ''SS-2022: fixed header decrypt failed'' = Inr fixed"
      "length fixed = 11" "abs_diff (from_be (take 8 (drop 1 fixed))) now \<le> 30"
    unfolding ss_read_request_def rbind_eq_Inr rlift_eq_Inr read_exact_eq_Inr rif_eq_Inr
    by (elim exE conjE) (simp add: reader_eq u64_from_be8_def split: if_splits)
  have "unseal_buffer (aes256 L) (derive_subkey L psk (take 32 input)) (make_nonce 0) fct = Some fixed"
    using f(3) by (simp add: ss_decrypt_def split: option.splits)
  moreover have "take 32 (take 59 input) = take 32 input" "drop 32 (take 59 input) = fct" using f(1,2) by (simp_all add: drop_take)
  ultimately show ?thesis using f(5) unfolding request_time_def by simp
qed

lemma abs_diff_near:
  assumes "abs_diff a b \<le> 30"
  shows "unat a \<le> unat b + 30 \<and> unat b \<le> unat a + 30"
proof (cases "a < b")
  case True
  then have "unat (b - a) \<le> 30" "unat (b - a) = unat b - unat a"
    using assms True unat_sub [of a b] by (simp_all add: abs_diff_def word_le_nat_alt word_less_nat_alt)
  then show ?thesis using True by (simp add: word_less_nat_alt)
next
  case False
  then have "unat (a - b) \<le> 30" "unat (a - b) = unat a - unat b"
    using assms False unat_sub [of b a] by (simp_all add: abs_diff_def word_le_nat_alt word_less_nat_alt)
  then show ?thesis using False by (simp add: word_less_nat_alt)
qed


text \<open>The window exists: a client 30 seconds ahead, a sweep one minute after its connection, and the same bytes half a second later.\<close>

lemma ss_replay_possible:
  assumes "aead_laws (aes256 L)" and "wire_ok dest" and "length req_salt = 32" and "length r1 = 32" and "length r2 = 32"
    and req: "ss_request L psk dest req_salt 60 = Inr req"
  shows "ss_serve L psk 30000 [] [Connection 0 req r1, Sweep 60000, Connection 60500 req r2] = [(0, req), (60500, req)]"
proof -
  obtain heads where h: "ss_request L psk dest req_salt 60 = Inr (req_salt @ heads)"
      "\<And>now rest. abs_diff 60 now \<le> 30 \<Longrightarrow> ss_read_request L (derive_subkey L psk req_salt) now (heads @ rest) = Inr ((dest, []), rest)"
    by (rule ss_request_read [OF assms(1,2), of psk req_salt 60]) blast
  have r: "req = req_salt @ heads" using h(1) req by simp
  have acc: "\<exists>sess. ss_inbound_handle L psk [] req t now now r = ([(req_salt, t)], Inr sess)" if r32: "length r = 32" and near: "abs_diff 60 now \<le> 30" for t now r
  proof -
    have "abs_diff now now \<le> 30" by (simp add: abs_diff_def)
    then obtain head where "ss_response_head L (derive_subkey L psk r) req_salt now = Inr head"
      by (rule ss_response_read [OF assms(1,3) r32, of now now psk]) blast
    then show ?thesis using h(2) [OF near, of "[]"] assms(3)
      by (simp add: ss_inbound_handle_def r read_exact_append check_and_insert_def Let_def)
  qed
  obtain s1 where 1: "ss_inbound_handle L psk [] req 0 (unix_secs 30000 0) (unix_secs 30000 0) r1 = ([(req_salt, 0)], Inr s1)"
    using acc [OF assms(4), of "unix_secs 30000 0" 0] by (auto simp: unix_secs_def abs_diff_def)
  obtain s2 where 2: "ss_inbound_handle L psk [] req 60500 (unix_secs 30000 60500) (unix_secs 30000 60500) r2 = ([(req_salt, 60500)], Inr s2)"
    using acc [OF assms(5), of "unix_secs 30000 60500" 60500] by (auto simp: unix_secs_def abs_diff_def)
  show ?thesis by (simp add: 1 2 reap_def)
qed


end
