(* ===== verification/SsUdp.thy ===== *)
theory SsUdp
  imports SsHandshake
begin

text \<open>
  Shadowsocks 2022 over UDP (\<^verbatim>\<open>crates/blackwire-protocol/src/ss2022/udp.rs\<close>): the packet codec, the session table of the relay and
  the reply tasks. The block cipher of the separate header joins the third-party functions. Sockets are numbered in the order
  they are bound; clock readings, random numbers and the outcomes of bind and lookup are part of the events.
\<close>

section \<open>Packets\<close>

record ss_udp_libs =
  base :: ss_libs
  encrypt_block :: "bytes \<Rightarrow> bytes \<Rightarrow> bytes"
  decrypt_block :: "bytes \<Rightarrow> bytes \<Rightarrow> bytes"

definition block_laws :: "ss_udp_libs \<Rightarrow> bool" where
  "block_laws U \<longleftrightarrow> (\<forall>k b. length b = 16 \<longrightarrow> length (encrypt_block U k b) = 16 \<and> decrypt_block U k (encrypt_block U k b) = b)"

definition derive_session_key :: "ss_udp_libs \<Rightarrow> bytes \<Rightarrow> bytes \<Rightarrow> bytes" where
  "derive_session_key U psk session_id = derive_key (base U) (ascii ''shadowsocks 2022 session subkey'') (psk @ session_id)"

definition decrypt_separate_header :: "ss_udp_libs \<Rightarrow> bytes \<Rightarrow> bytes \<Rightarrow> bytes result" where
  "decrypt_separate_header U psk wire =
     (if length wire < 16 then Inl (Err (Protocol ''SS2022 UDP packet too short'')) else Inr (decrypt_block U psk (take 16 wire)))"

definition aead_nonce :: "bytes \<Rightarrow> bytes" where
  "aead_nonce header = take 12 (drop 4 header)"

definition split_target :: "bytes \<Rightarrow> nat \<Rightarrow> (address \<times> bytes) result" where
  "split_target plaintext pos =
     bindE (idx plaintext pos) (\<lambda>atyp. bindE (rslice plaintext (pos + 1) (length plaintext)) (\<lambda>data.
       bindE (decode_socks5_address data atyp) (\<lambda>(dest, consumed).
         bindE (rslice plaintext (pos + 1 + consumed) (length plaintext)) (\<lambda>payload. Inr (dest, payload)))))"

definition decode_client_packet :: "ss_udp_libs \<Rightarrow> bytes \<Rightarrow> u64 \<Rightarrow> bytes \<Rightarrow> (u64 \<times> u64 \<times> address \<times> bytes) result" where
  "decode_client_packet U psk now buf =
     bindE (decrypt_separate_header U psk buf) (\<lambda>header.
       let client_session_id = from_be (take 8 header); packet_id = from_be (take 8 (drop 8 header)) in
       if length buf < 16 + 16 + 1 then Inl (Err (Protocol ''SS2022 UDP ciphertext too short''))
       else case unseal_buffer (aes256 (base U)) (derive_session_key U psk (take 8 header)) (aead_nonce header) (drop 16 buf) of
         None \<Rightarrow> Inl (Err (Protocol ''SS2022 UDP decrypt failed''))
       | Some plaintext \<Rightarrow>
           if plaintext = [] \<or> plaintext ! 0 \<noteq> 0x00 then Inl (Err (Protocol ''SS2022 UDP unexpected type''))
           else if length plaintext < 11 then Inl (Err (Protocol ''SS2022 UDP plaintext too short''))
           else let ts = from_be (take 8 (drop 1 plaintext)) in
             if abs_diff ts now > MAX_TIME_DIFF then Inl (Err AuthFailed)
             else let pad_len = unat (from_be [plaintext ! 9, plaintext ! 10] :: u16); pos = 11 + pad_len in
               if pos \<ge> length plaintext then Inl (Err (Protocol ''SS2022 UDP truncated after padding''))
               else bindE (split_target plaintext pos) (\<lambda>(dest, payload). Inr (client_session_id, packet_id, dest, payload)))"

definition seal_packet :: "ss_udp_libs \<Rightarrow> bytes \<Rightarrow> bytes \<Rightarrow> bytes \<Rightarrow> bytes \<Rightarrow> string \<Rightarrow> bytes result" where
  "seal_packet U psk session_key sep_plain plain msg = (case seal_buffer (aes256 (base U)) session_key (aead_nonce sep_plain) plain of
      None \<Rightarrow> Inl (Err (Protocol msg))
    | Some ciphertext \<Rightarrow> Inr (encrypt_block U psk sep_plain @ ciphertext))"

definition encode_client_packet :: "ss_udp_libs \<Rightarrow> bytes \<Rightarrow> u64 \<Rightarrow> u64 \<Rightarrow> u64 \<Rightarrow> address \<Rightarrow> bytes \<Rightarrow> bytes result" where
  "encode_client_packet U psk ts client_session_id packet_id dest payload =
     bindE (write_socks5_address [] dest) (\<lambda>addr_buf.
       let plain = [0x00] @ to_be 8 ts @ to_be 2 (0 :: u16) @ addr_buf @ payload;
           sep_plain = to_be 8 client_session_id @ to_be 8 packet_id
       in seal_packet U psk (derive_session_key U psk (take 8 sep_plain)) sep_plain plain ''SS2022 UDP client encrypt failed'')"

record server_udp_session =
  server_session_id :: u64
  client_session_id :: u64
  session_key :: bytes

definition server_udp_session_new :: "ss_udp_libs \<Rightarrow> bytes \<Rightarrow> u64 \<Rightarrow> u64 \<Rightarrow> server_udp_session" where
  "server_udp_session_new U psk random_id client_id =
     \<lparr>server_session_id = random_id, client_session_id = client_id, session_key = derive_session_key U psk (to_be 8 random_id)\<rparr>"

definition encode_server_packet :: "ss_udp_libs \<Rightarrow> bytes \<Rightarrow> u64 \<Rightarrow> server_udp_session \<Rightarrow> u64 \<Rightarrow> address \<Rightarrow> bytes \<Rightarrow> bytes result" where
  "encode_server_packet U psk ts session server_packet_id dest payload =
     bindE (write_socks5_address [] dest) (\<lambda>addr_buf.
       let plain = [0x01] @ to_be 8 ts @ to_be 8 (client_session_id session) @ to_be 2 (0 :: u16) @ addr_buf @ payload;
           sep_plain = to_be 8 (server_session_id session) @ to_be 8 server_packet_id
       in seal_packet U psk (session_key session) sep_plain plain ''SS2022 UDP server encrypt failed'')"

definition decode_server_packet :: "ss_udp_libs \<Rightarrow> bytes \<Rightarrow> bytes \<Rightarrow> bytes result" where
  "decode_server_packet U psk buf =
     bindE (decrypt_separate_header U psk buf) (\<lambda>header.
       if length buf < 16 + 16 then Inl (Err (Protocol ''SS2022 UDP server packet too short''))
       else case unseal_buffer (aes256 (base U)) (derive_session_key U psk (take 8 header)) (aead_nonce header) (drop 16 buf) of
         None \<Rightarrow> Inl (Err (Protocol ''SS2022 UDP server decrypt failed''))
       | Some plaintext \<Rightarrow> Inr plaintext)"

section \<open>Sessions\<close>

text \<open>
  A session is its upstream socket. The client's address is a cell that the table entry and the reply task share, one per
  socket; a reply task holds its session and the number of its next packet.
\<close>

record udp_relay =
  ur_sessions :: "(u64 \<times> nat) list"
  ur_client :: "nat \<Rightarrow> socket_addr"
  ur_tasks :: "(nat \<times> server_udp_session \<times> u64) list"
  ur_next :: nat

abbreviation (input) "MAX_UDP_SESSIONS \<equiv> (4096 :: nat)"

definition udp_relay_start :: udp_relay where
  "udp_relay_start = \<lparr>ur_sessions = [], ur_client = (\<lambda>_. SocketAddr (V4 0) 0), ur_tasks = [], ur_next = 0\<rparr>"

definition ss_resolve_udp_dest :: "(rstr \<Rightarrow> u16 \<Rightarrow> socket_addr list option) \<Rightarrow> address \<Rightarrow> socket_addr option" where
  "ss_resolve_udp_dest lookup_host dest = (case dest of
      Ipv4 a p \<Rightarrow> Some (SocketAddr (V4 a) p)
    | Ipv6 a p \<Rightarrow> Some (SocketAddr (V6 a) p)
    | Domain name p \<Rightarrow> (case lookup_host name p of Some (a # _) \<Rightarrow> Some a | _ \<Rightarrow> None))"

definition open_session :: "ss_udp_libs \<Rightarrow> bytes \<Rightarrow> u64 \<Rightarrow> u64 \<Rightarrow> socket_addr \<Rightarrow> udp_relay \<Rightarrow> udp_relay" where
  "open_session U psk random_id client_id client_addr ur =
     (let k = ur_next ur in
      ur\<lparr>ur_sessions := (client_id, k) # ur_sessions ur, ur_client := (ur_client ur)(k := client_addr),
         ur_tasks := (k, server_udp_session_new U psk random_id client_id, 0) # ur_tasks ur, ur_next := k + 1\<rparr>)"

definition session_entry :: "ss_udp_libs \<Rightarrow> bytes \<Rightarrow> u64 \<Rightarrow> socket_addr \<Rightarrow> bool \<Rightarrow> u64 \<Rightarrow> udp_relay \<Rightarrow> (nat \<times> udp_relay) option" where
  "session_entry U psk client_id client_addr bind_ok random_id ur = (case map_of (ur_sessions ur) client_id of
      Some k \<Rightarrow> Some (k, ur\<lparr>ur_client := (ur_client ur)(k := client_addr)\<rparr>)
    | None \<Rightarrow> if bind_ok then Some (ur_next ur, open_session U psk random_id client_id client_addr ur) else None)"

datatype udp_event =
    Client_packet bytes socket_addr u64 bool u64 "rstr \<Rightarrow> u16 \<Rightarrow> socket_addr list option"
  | Upstream_reply nat socket_addr bytes u64
  | Upstream_idle nat

datatype udp_output = To_upstream nat bytes socket_addr | To_client bytes socket_addr | No_output

text \<open>A packet from a client: \<open>now\<close> is the clock, \<open>bind_ok\<close> whether a socket can be bound, \<open>random_id\<close> the id of a new session.\<close>

definition process_ss2022_packet ::
    "ss_udp_libs \<Rightarrow> bytes \<Rightarrow> bytes \<Rightarrow> socket_addr \<Rightarrow> u64 \<Rightarrow> bool \<Rightarrow> u64 \<Rightarrow> (rstr \<Rightarrow> u16 \<Rightarrow> socket_addr list option) \<Rightarrow> udp_relay \<Rightarrow> udp_relay \<times> udp_output" where
  "process_ss2022_packet U psk buf client_addr now bind_ok random_id lookup_host ur = (case decode_client_packet U psk now buf of
      Inl _ \<Rightarrow> (ur, No_output)
    | Inr (client_id, _, dest, payload) \<Rightarrow>
        if payload = [] then (ur, No_output)
        else let ur1 = (if length (ur_sessions ur) \<ge> MAX_UDP_SESSIONS then ur\<lparr>ur_sessions := []\<rparr> else ur)
             in case session_entry U psk client_id client_addr bind_ok random_id ur1 of
               None \<Rightarrow> (ur1, No_output)
             | Some (k, ur2) \<Rightarrow>
                 (case ss_resolve_udp_dest lookup_host dest of None \<Rightarrow> (ur2, No_output) | Some upstream \<Rightarrow> (ur2, To_upstream k payload upstream)))"

definition to_ipv4_mapped :: "128 word \<Rightarrow> u32 option" where
  "to_ipv4_mapped a = (if drop_bit 32 a = 0xFFFF then Some (ucast a) else None)"

definition reply_address :: "socket_addr \<Rightarrow> address" where
  "reply_address src = (case sock_ip src of
      V4 a \<Rightarrow> Ipv4 a (sock_port src)
    | V6 a \<Rightarrow> (case to_ipv4_mapped a of Some v4 \<Rightarrow> Ipv4 v4 (sock_port src) | None \<Rightarrow> Ipv6 a (sock_port src)))"

text \<open>A datagram arrives on an upstream socket; without a task that reads it nothing happens.\<close>

definition reply_step :: "ss_udp_libs \<Rightarrow> bytes \<Rightarrow> nat \<Rightarrow> socket_addr \<Rightarrow> bytes \<Rightarrow> u64 \<Rightarrow> udp_relay \<Rightarrow> udp_relay \<times> udp_output" where
  "reply_step U psk k src data now ur = (case map_of (ur_tasks ur) k of
      None \<Rightarrow> (ur, No_output)
    | Some (session, pkt_id) \<Rightarrow>
        if data = [] then (ur, No_output)
        else let ur1 = ur\<lparr>ur_tasks := map (\<lambda>(k', s, n). if k' = k then (k', s, n + 1) else (k', s, n)) (ur_tasks ur)\<rparr> in
          (case encode_server_packet U psk now session pkt_id (reply_address src) data of
             Inl _ \<Rightarrow> (ur1, No_output)
           | Inr reply \<Rightarrow> (ur1, To_client reply (ur_client ur1 k))))"

text \<open>After 30 idle seconds, or an error of the socket, the task ends. The table is not told.\<close>

definition idle_step :: "nat \<Rightarrow> udp_relay \<Rightarrow> udp_relay" where
  "idle_step k ur = ur\<lparr>ur_tasks := filter (\<lambda>(k', _). k' \<noteq> k) (ur_tasks ur)\<rparr>"

fun udp_step :: "ss_udp_libs \<Rightarrow> bytes \<Rightarrow> udp_event \<Rightarrow> udp_relay \<Rightarrow> udp_relay \<times> udp_output" where
  "udp_step U psk (Client_packet buf addr now bind_ok random_id lookup_host) ur = process_ss2022_packet U psk buf addr now bind_ok random_id lookup_host ur"
| "udp_step U psk (Upstream_reply k src data now) ur = reply_step U psk k src data now ur"
| "udp_step U psk (Upstream_idle k) ur = (idle_step k ur, No_output)"

fun udp_run :: "ss_udp_libs \<Rightarrow> bytes \<Rightarrow> udp_event list \<Rightarrow> udp_relay \<Rightarrow> udp_relay \<times> udp_output list" where
  "udp_run U psk [] ur = (ur, [])"
| "udp_run U psk (ev # evs) ur = (case udp_step U psk ev ur of (ur1, out) \<Rightarrow> (case udp_run U psk evs ur1 of (ur2, outs) \<Rightarrow> (ur2, out # outs)))"

section \<open>Packets round trip\<close>

lemma seal_packet_opens:
  assumes "aead_laws (aes256 (base U))" and "block_laws U" and "length sep = 16" and "length plain \<le> 65536"
  obtains pkt where "\<And>msg. seal_packet U psk key sep plain msg = Inr pkt" "length pkt = 32 + length plain"
    "decrypt_separate_header U psk pkt = Inr sep" "unseal_buffer (aes256 (base U)) key (aead_nonce sep) (drop 16 pkt) = Some plain"
proof -
  obtain ct where c: "seal_buffer (aes256 (base U)) key (aead_nonce sep) plain = Some ct" "length ct = length plain + 16"
      "unseal_buffer (aes256 (base U)) key (aead_nonce sep) ct = Some plain"
    by (rule seal_buffer_law [OF assms(1,4)])
  have b: "length (encrypt_block U psk sep) = 16" "decrypt_block U psk (encrypt_block U psk sep) = sep"
    using assms(2,3) by (simp_all add: block_laws_def)
  show thesis
    by (rule that [of "encrypt_block U psk sep @ ct"]) (use b c in \<open>simp_all add: seal_packet_def decrypt_separate_header_def\<close>)
qed

lemma split_target_no_panic: "pos < length p \<Longrightarrow> split_target p pos \<noteq> Inl Panic"
proof (cases "decode_socks5_address (drop (pos + 1) p) (p ! pos)")
  case (Inl e)
  then show "pos < length p \<Longrightarrow> ?thesis"
    using decode_socks5_address_no_panic [of "drop (pos + 1) p" "p ! pos"] by (auto simp: split_target_def rslice_def)
next
  case (Inr x)
  then obtain a n where x: "decode_socks5_address (drop (pos + 1) p) (p ! pos) = Inr (a, n)" by (cases x) auto
  then show "pos < length p \<Longrightarrow> ?thesis" using decode_socks5_address_bound [OF x] by (auto simp: split_target_def rslice_def)
qed

lemma decode_client_packet_no_panic: "decode_client_packet U psk now buf \<noteq> Inl Panic"
  using split_target_no_panic
  by (auto simp: decode_client_packet_def decrypt_separate_header_def Let_def bindE_eq_Inl split: option.split)

lemma client_plain_fields:
  assumes "plain = 0x00 # to_be 8 ts @ [0, 0] @ (t # body)"
  shows "plain ! 0 = 0x00" "\<not> length plain < 11" "take 8 (drop 1 plain) = to_be 8 ts" "plain ! 9 = 0" "plain ! 10 = 0" "plain ! 11 = t" "drop 12 plain = body"
    "11 < length plain"
  using assms by (simp_all add: nth_append nth_Cons')

lemma decode_encode_client:
  assumes "aead_laws (aes256 (base U))" and "block_laws U" and "wire_ok dest" and "length payload \<le> 65000"
    and "write_socks5_address [] dest = Inr a" and "abs_diff ts now \<le> 30"
  shows "bindE (encode_client_packet U psk ts sid pid dest payload) (decode_client_packet U psk now) = Inr (sid, pid, dest, payload)"
proof -
  obtain t ts' where a: "a = t # ts'" "decode_socks5_address (ts' @ payload) t = Inr (dest, length ts')"
    using decode_write_socks5 [OF assms(3,5), of payload] by (cases a) auto
  define plain where "plain = 0x00 # to_be 8 ts @ [0, 0] @ (t # ts' @ payload)"
  define sep where "sep = to_be 8 sid @ to_be 8 pid"
  have sep: "length sep = 16" "take 8 sep = to_be 8 sid" "take 8 (drop 8 sep) = to_be 8 pid" by (simp_all add: sep_def)
  have len: "length plain \<le> 65536" using socks_address_length [OF assms(3,5)] assms(4) by (simp add: plain_def a)
  obtain pkt where p: "\<And>msg. seal_packet U psk (derive_session_key U psk (take 8 sep)) sep plain msg = Inr pkt" "length pkt = 32 + length plain"
      "decrypt_separate_header U psk pkt = Inr sep" "unseal_buffer (aes256 (base U)) (derive_session_key U psk (take 8 sep)) (aead_nonce sep) (drop 16 pkt) = Some plain"
    by (rule seal_packet_opens [OF assms(1,2) sep(1) len, of psk "derive_session_key U psk (take 8 sep)"]) blast
  have e: "encode_client_packet U psk ts sid pid dest payload = Inr pkt"
    using p(1) by (simp add: encode_client_packet_def assms(5) Let_def plain_def sep_def a to_be_eval)
  note f = client_plain_fields [OF plain_def]
  have d: "drop 12 plain = ts' @ payload" by (simp add: plain_def)
  then have d': "drop (12 + length ts') plain = payload" using drop_drop [of "length ts'" 12 plain] by (simp add: add.commute)
  have r: "rslice plain 12 (length plain) = Inr (ts' @ payload)" "rslice plain (12 + length ts') (length plain) = Inr payload"
    unfolding rslice_def d d' by (simp_all add: plain_def)
  have "split_target plain 11 = Inr (dest, payload)" unfolding split_target_def by (simp add: f(6,8) a(2) r)
  moreover have "from_be [0, 0] = (0 :: u16)" by (simp add: from_be_def)
  ultimately show ?thesis
    unfolding e bindE_simps(2) decode_client_packet_def p(3) Let_def sep(2,3) p(4) [unfolded sep(2)]
    using p(2) f assms(6) by (auto simp: from_be_to_be)
qed

lemma decode_encode_server:
  assumes "aead_laws (aes256 (base U))" and "block_laws U" and "wire_ok dest" and "length payload \<le> 65000"
    and "write_socks5_address [] dest = Inr a" and "session_key session = derive_session_key U psk (to_be 8 (server_session_id session))"
  shows "\<exists>pkt. encode_server_packet U psk ts session pid dest payload = Inr pkt
    \<and> decode_server_packet U psk pkt = Inr ([0x01] @ to_be 8 ts @ to_be 8 (client_session_id session) @ [0, 0] @ a @ payload)"
proof -
  define plain where "plain = [0x01] @ to_be 8 ts @ to_be 8 (client_session_id session) @ [0, 0] @ a @ payload"
  define sep where "sep = to_be 8 (server_session_id session) @ to_be 8 pid"
  have sep: "length sep = 16" "take 8 sep = to_be 8 (server_session_id session)" by (simp_all add: sep_def)
  have len: "length plain \<le> 65536" using socks_address_length [OF assms(3,5)] assms(4) by (simp add: plain_def)
  obtain pkt where p: "\<And>msg. seal_packet U psk (session_key session) sep plain msg = Inr pkt" "length pkt = 32 + length plain"
      "decrypt_separate_header U psk pkt = Inr sep" "unseal_buffer (aes256 (base U)) (session_key session) (aead_nonce sep) (drop 16 pkt) = Some plain"
    by (rule seal_packet_opens [OF assms(1,2) sep(1) len, of psk "session_key session"]) blast
  have "encode_server_packet U psk ts session pid dest payload = Inr pkt"
    using p(1) by (simp add: encode_server_packet_def assms(5) Let_def plain_def sep_def to_be_eval)
  moreover have "decode_server_packet U psk pkt = Inr plain"
    unfolding decode_server_packet_def p(3) using p(2) p(4) [unfolded assms(6)] by (simp add: sep(2))
  ultimately show ?thesis by (simp add: plain_def)
qed

text \<open>
  A UDP packet is read back by the other side: the server decodes a client's packet to its session, packet number,
  destination and payload if the clocks agree to 30 seconds, and a client opens a server's packet to the header that names the
  client's session, the address and the payload. No datagram makes the server's decoder panic.
\<close>

theorem ss_udp_packets_round_trip:
  assumes "aead_laws (aes256 (base U))" and "block_laws U" and "wire_ok dest" and "length payload \<le> 65000"
    and "write_socks5_address [] dest = Inr a" and "abs_diff ts now \<le> 30"
  shows "bindE (encode_client_packet U psk ts sid pid dest payload) (decode_client_packet U psk now) = Inr (sid, pid, dest, payload)
    \<and> (\<exists>pkt. encode_server_packet U psk ts (server_udp_session_new U psk rid sid) pid dest payload = Inr pkt
      \<and> decode_server_packet U psk pkt = Inr ([0x01] @ to_be 8 ts @ to_be 8 sid @ [0, 0] @ a @ payload))
    \<and> decode_client_packet U psk now buf \<noteq> Inl Panic"
  using decode_encode_client [OF assms] decode_encode_server [OF assms(1-5), of "server_udp_session_new U psk rid sid" psk ts pid]
    decode_client_packet_no_panic [of U psk now buf]
  by (simp add: server_udp_session_new_def)

definition demo_udp :: ss_udp_libs where
  "demo_udp = \<lparr>base = demo_ss, encrypt_block = (\<lambda>k b. rev b), decrypt_block = (\<lambda>k b. rev b)\<rparr>"

lemma demo_udp_laws: "aead_laws (aes256 (base demo_udp))" "block_laws demo_udp"
  by (simp_all add: demo_udp_def demo_ss_laws block_laws_def)

theorem ss_udp_packets_round_trip_witness:
  "bindE (encode_client_packet demo_udp [1] 100 7 0 (Ipv4 5 53) [9]) (decode_client_packet demo_udp [1] 120) = Inr (7, 0, Ipv4 5 53, [9])"
  using ss_udp_packets_round_trip [OF demo_udp_laws, of "Ipv4 5 53" "[9]" "[ATYP_IPV4] @ to_be 4 (5 :: u32) @ to_be 2 (53 :: u16)" 100 120 "[1]" 7 0 0 "[]"]
  by (simp add: write_socks5_address_def abs_diff_def)

section \<open>Sessions and their replies\<close>

text \<open>
  Sessions have distinct client ids and sockets, at most 4096 of them; a task's key is the one its server id gives; the task
  that reads a session's socket answers for that session's client.
\<close>

definition task_ok :: "ss_udp_libs \<Rightarrow> bytes \<Rightarrow> nat \<Rightarrow> nat \<times> server_udp_session \<times> u64 \<Rightarrow> bool" where
  "task_ok U psk fresh = (\<lambda>(k, s, n). k < fresh \<and> session_key s = derive_session_key U psk (to_be 8 (server_session_id s)))"

definition udp_inv :: "ss_udp_libs \<Rightarrow> bytes \<Rightarrow> udp_relay \<Rightarrow> bool" where
  "udp_inv U psk ur \<longleftrightarrow> distinct (map fst (ur_sessions ur)) \<and> distinct (map snd (ur_sessions ur)) \<and> length (ur_sessions ur) \<le> MAX_UDP_SESSIONS
    \<and> (\<forall>(c, k) \<in> set (ur_sessions ur). k < ur_next ur) \<and> list_all (task_ok U psk (ur_next ur)) (ur_tasks ur)
    \<and> (\<forall>(c, k) \<in> set (ur_sessions ur). \<forall>(k', s, n) \<in> set (ur_tasks ur). k' = k \<longrightarrow> client_session_id s = c)"

lemma udp_inv_start: "udp_inv U psk udp_relay_start"
  by (simp add: udp_inv_def udp_relay_start_def)

lemma udp_inv_clear: "udp_inv U psk ur \<Longrightarrow> udp_inv U psk (ur\<lparr>ur_sessions := []\<rparr>)"
  by (simp add: udp_inv_def)

lemma udp_inv_client [simp]: "udp_inv U psk (ur\<lparr>ur_client := f\<rparr>) = udp_inv U psk ur"
  by (simp add: udp_inv_def)

lemma udp_inv_open:
  assumes "udp_inv U psk ur" and "map_of (ur_sessions ur) c = None" and "length (ur_sessions ur) < MAX_UDP_SESSIONS"
  shows "udp_inv U psk (open_session U psk rid c addr ur)"
proof -
  have "c \<notin> fst ` set (ur_sessions ur)" using assms(2) by (simp add: map_of_eq_None_iff)
  moreover have "\<And>c' k. (c', k) \<in> set (ur_sessions ur) \<Longrightarrow> k < ur_next ur" using assms(1) by (auto simp: udp_inv_def)
  then have "ur_next ur \<notin> snd ` set (ur_sessions ur)" by force
  moreover have "list_all (task_ok U psk (ur_next ur + 1)) (ur_tasks ur)"
    using assms(1) by (auto simp: udp_inv_def task_ok_def list_all_iff)
  moreover have "\<And>k s n. (k, s, n) \<in> set (ur_tasks ur) \<Longrightarrow> k \<noteq> ur_next ur"
    using assms(1) by (auto simp: udp_inv_def task_ok_def list_all_iff)
  ultimately show ?thesis
    using assms(1,3) by (fastforce simp: udp_inv_def open_session_def Let_def task_ok_def server_udp_session_new_def less_Suc_eq)
qed

lemma udp_inv_tasks:
  assumes "udp_inv U psk ur" and "\<And>k s n. (k, s, n) \<in> set ts \<Longrightarrow> \<exists>n'. (k, s, n') \<in> set (ur_tasks ur)"
  shows "udp_inv U psk (ur\<lparr>ur_tasks := ts\<rparr>)"
proof -
  have "list_all (task_ok U psk (ur_next ur)) ts"
    using assms by (fastforce simp: udp_inv_def list_all_iff task_ok_def)
  moreover have "\<forall>(c, k) \<in> set (ur_sessions ur). \<forall>(k', s, n) \<in> set ts. k' = k \<longrightarrow> client_session_id s = c"
    using assms unfolding udp_inv_def by fast
  ultimately show ?thesis using assms(1) by (simp add: udp_inv_def)
qed

definition task_ended :: "nat \<Rightarrow> udp_relay \<Rightarrow> bool" where
  "task_ended k ur \<longleftrightarrow> k \<notin> fst ` set (ur_tasks ur)"

lemma session_entry_inv:
  assumes "session_entry U psk c addr bind_ok rid ur = Some (k, ur2)" and "udp_inv U psk ur" and "length (ur_sessions ur) < MAX_UDP_SESSIONS"
  shows "udp_inv U psk ur2" "map_of (ur_sessions ur2) c = Some k" "ur_client ur2 k = addr" "ur_next ur \<le> ur_next ur2"
    "\<And>j. j < ur_next ur \<Longrightarrow> task_ended j ur \<Longrightarrow> task_ended j ur2"
  using assms udp_inv_open [OF assms(2) _ assms(3), of c rid addr]
  by (auto simp: session_entry_def task_ended_def open_session_def Let_def split: option.splits if_splits)

lemma make_room:
  assumes "udp_inv U psk ur"
  defines "ur1 \<equiv> if length (ur_sessions ur) \<ge> MAX_UDP_SESSIONS then ur\<lparr>ur_sessions := []\<rparr> else ur"
  shows "udp_inv U psk ur1" "length (ur_sessions ur1) < MAX_UDP_SESSIONS" "ur_next ur1 = ur_next ur"
    "\<And>j. task_ended j ur1 = task_ended j ur"
  using assms udp_inv_clear by (auto simp: ur1_def task_ended_def)

lemma process_ss2022_packet_cases:
  assumes "udp_inv U psk ur" and "process_ss2022_packet U psk buf addr now bind_ok rid lookup ur = (ur2, out)"
  shows "udp_inv U psk ur2" "ur_next ur \<le> ur_next ur2"
    "\<And>j. j < ur_next ur \<Longrightarrow> task_ended j ur \<Longrightarrow> task_ended j ur2"
    "\<And>k p a. out = To_upstream k p a \<Longrightarrow> \<exists>c pid dest. decode_client_packet U psk now buf = Inr (c, pid, dest, p)
       \<and> map_of (ur_sessions ur2) c = Some k \<and> ur_client ur2 k = addr \<and> ss_resolve_udp_dest lookup dest = Some a"
  using assms(2) assms(1) make_room [OF assms(1)] session_entry_inv [OF _ make_room(1,2) [OF assms(1)]]
  by (auto simp: process_ss2022_packet_def Let_def split: sum.splits option.splits if_splits)

lemma reply_step_inv:
  assumes "udp_inv U psk ur"
  shows "udp_inv U psk (fst (reply_step U psk k src data now ur))" "ur_next (fst (reply_step U psk k src data now ur)) = ur_next ur"
    "task_ended j (fst (reply_step U psk k src data now ur)) = task_ended j ur"
proof -
  define ts where "ts = map (\<lambda>(k', s, n). if k' = k then (k', s, n + 1) else (k', s, n)) (ur_tasks ur)"
  have "\<And>k' s n. (k', s, n) \<in> set ts \<Longrightarrow> \<exists>n'. (k', s, n') \<in> set (ur_tasks ur)"
    by (auto simp: ts_def split: if_splits)
  then have i: "udp_inv U psk (ur\<lparr>ur_tasks := ts\<rparr>)" using udp_inv_tasks [OF assms, of ts] by blast
  have "map fst ts = map fst (ur_tasks ur)" by (auto simp: ts_def)
  then have e: "task_ended j (ur\<lparr>ur_tasks := ts\<rparr>) = task_ended j ur" by (simp add: task_ended_def flip: set_map)
  have "fst (reply_step U psk k src data now ur) \<in> {ur, ur\<lparr>ur_tasks := ts\<rparr>}"
    by (auto simp: reply_step_def ts_def Let_def split: option.split sum.split)
  then show "udp_inv U psk (fst (reply_step U psk k src data now ur))" "ur_next (fst (reply_step U psk k src data now ur)) = ur_next ur"
    "task_ended j (fst (reply_step U psk k src data now ur)) = task_ended j ur"
    using assms i e by auto
qed

lemma idle_step_inv:
  assumes "udp_inv U psk ur"
  shows "udp_inv U psk (idle_step k ur)" "ur_next (idle_step k ur) = ur_next ur" "task_ended j ur \<Longrightarrow> task_ended j (idle_step k ur)"
    "task_ended k (idle_step k ur)"
  using udp_inv_tasks [OF assms, of "filter (\<lambda>(k', _). k' \<noteq> k) (ur_tasks ur)"] by (auto simp: idle_step_def task_ended_def)

lemma udp_step_inv:
  assumes "udp_inv U psk ur"
  shows "udp_inv U psk (fst (udp_step U psk ev ur))" "ur_next ur \<le> ur_next (fst (udp_step U psk ev ur))"
    "j < ur_next ur \<Longrightarrow> task_ended j ur \<Longrightarrow> task_ended j (fst (udp_step U psk ev ur))"
  using process_ss2022_packet_cases(1-3) [OF assms surjective_pairing] reply_step_inv [OF assms] idle_step_inv [OF assms]
  by (cases ev; simp)+

lemma udp_run_inv:
  assumes "udp_inv U psk ur"
  shows "udp_inv U psk (fst (udp_run U psk evs ur)) \<and> ur_next ur \<le> ur_next (fst (udp_run U psk evs ur))
    \<and> (j < ur_next ur \<longrightarrow> task_ended j ur \<longrightarrow> task_ended j (fst (udp_run U psk evs ur)))"
  using assms
proof (induction evs arbitrary: ur)
  case (Cons ev evs)
  note s = udp_step_inv [OF Cons.prems, where ev = ev]
  show ?case using Cons.IH [OF s(1)] s(2,3) by (auto simp: case_prod_beta)
qed simp

lemma reply_address_wire:
  "wire_ok (reply_address src)" "\<exists>a. write_socks5_address [] (reply_address src) = Inr a"
  by (auto simp: reply_address_def wire_ok_def write_socks5_address_def split: ip_addr.split option.split)


text \<open>
  Property C37. A session whose reply task has ended stays mute: after 30 idle seconds its client's packets are still sent
  upstream on the same socket, but whatever happens afterwards no datagram that arrives on that socket is ever passed on.
\<close>

theorem ss_udp_idle_session_mute:
  assumes "map_of (ur_sessions ur) c = Some k" and "ur = fst (udp_run U psk evs udp_relay_start)"
  shows "(decode_client_packet U psk now buf = Inr (c, pid, Ipv4 a p, payload) \<and> payload \<noteq> [] \<and> length (ur_sessions ur) < MAX_UDP_SESSIONS \<longrightarrow>
      snd (process_ss2022_packet U psk buf addr now bind_ok rid lookup (idle_step k ur)) = To_upstream k payload (SocketAddr (V4 a) p))
    \<and> reply_step U psk k src data later (fst (udp_run U psk evs2 (idle_step k ur))) = (fst (udp_run U psk evs2 (idle_step k ur)), No_output)"
proof -
  have i: "udp_inv U psk ur" using udp_run_inv [OF udp_inv_start] assms(2) by blast
  then have "k < ur_next (idle_step k ur)" using map_of_SomeD [OF assms(1)] by (auto simp: udp_inv_def idle_step_inv(2) [OF i])
  then have "task_ended k (fst (udp_run U psk evs2 (idle_step k ur)))"
    using udp_run_inv [OF idle_step_inv(1) [OF i], where evs = evs2 and j = k] idle_step_inv(4) [OF i] by blast
  then have "map_of (ur_tasks (fst (udp_run U psk evs2 (idle_step k ur)))) k = None" by (simp add: task_ended_def map_of_eq_None_iff)
  then show ?thesis using assms(1)
    by (simp add: reply_step_def process_ss2022_packet_def session_entry_def idle_step_def ss_resolve_udp_dest_def)
qed

definition demo_packet :: bytes where
  "demo_packet = (case encode_client_packet demo_udp [1] 100 7 0 (Ipv4 5 53) [9] of Inr b \<Rightarrow> b | Inl _ \<Rightarrow> [])"

lemma demo_packet_decodes: "decode_client_packet demo_udp [1] 120 demo_packet = Inr (7, 0, Ipv4 5 53, [9])"
  using decode_encode_client [OF demo_udp_laws, of "Ipv4 5 53" "[9]" "[ATYP_IPV4] @ to_be 4 (5 :: u32) @ to_be 2 (53 :: u16)" 100 120 "[1]" 7 0]
  by (cases "encode_client_packet demo_udp [1] 100 7 0 (Ipv4 5 53) [9]")
     (simp_all add: demo_packet_def write_socks5_address_def abs_diff_def)

definition demo_relay :: udp_relay where
  "demo_relay = open_session demo_udp [1] 8 7 (SocketAddr (V4 6) 4000) udp_relay_start"

lemma demo_relay_reached:
  "process_ss2022_packet demo_udp [1] demo_packet (SocketAddr (V4 6) 4000) 120 True 8 lookup udp_relay_start
     = (demo_relay, To_upstream 0 [9] (SocketAddr (V4 5) 53))"
  by (simp add: process_ss2022_packet_def demo_packet_decodes session_entry_def udp_relay_start_def ss_resolve_udp_dest_def demo_relay_def)

lemma demo_relay_fields:
  "map_of (ur_tasks demo_relay) 0 = Some (server_udp_session_new demo_udp [1] 8 7, 0)" "map_of (ur_sessions demo_relay) 7 = Some 0"
  "length (ur_sessions demo_relay) = 1"
  by (simp_all add: demo_relay_def open_session_def udp_relay_start_def Let_def)


theorem ss_udp_idle_session_mute_witness:
  "snd (process_ss2022_packet demo_udp [1] demo_packet (SocketAddr (V4 6) 4000) 120 True 9 (\<lambda>_ _. None) (idle_step 0 demo_relay))
      = To_upstream 0 [9] (SocketAddr (V4 5) 53)
   \<and> snd (reply_step demo_udp [1] 0 (SocketAddr (V4 5) 53) [3] 121 (idle_step 0 demo_relay)) = No_output"
  using ss_udp_idle_session_mute [of demo_relay 7 0 demo_udp "[1]"
      "[Client_packet demo_packet (SocketAddr (V4 6) 4000) 120 True 8 (\<lambda>_ _. None)]" 120 demo_packet 0 5 53 "[9]"
      "SocketAddr (V4 6) 4000" True 9 "\<lambda>_ _. None" "SocketAddr (V4 5) 53" "[3]" 121 "[]"]
  by (simp add: demo_relay_reached demo_packet_decodes demo_relay_fields)

text \<open>When the table is full, the next packet of any client, known or not, empties it: every other session gets a new socket.\<close>

lemma full_table_drops_all_sessions:
  assumes "decode_client_packet U psk now buf = Inr (c, pid, Ipv4 a p, payload)" and "payload \<noteq> []" and "length (ur_sessions ur) \<ge> MAX_UDP_SESSIONS"
  shows "ur_sessions (fst (process_ss2022_packet U psk buf addr now True rid lookup ur)) = [(c, ur_next ur)]"
  using assms by (simp add: process_ss2022_packet_def session_entry_def open_session_def ss_resolve_udp_dest_def Let_def)

text \<open>A packet sent again within its 30 seconds is forwarded again: the packet number is not looked at.\<close>

lemma replayed_packet_forwarded:
  assumes "process_ss2022_packet U psk buf addr now bind_ok rid lookup ur = (ur1, To_upstream k payload dst)"
    and "length (ur_sessions ur1) < MAX_UDP_SESSIONS" and "udp_inv U psk ur"
  shows "snd (process_ss2022_packet U psk buf addr2 now bind_ok2 rid2 lookup ur1) = To_upstream k payload dst"
proof -
  obtain c pid dest where c: "decode_client_packet U psk now buf = Inr (c, pid, dest, payload)" "map_of (ur_sessions ur1) c = Some k"
      "ss_resolve_udp_dest lookup dest = Some dst"
    using process_ss2022_packet_cases(4) [OF assms(3,1) refl] by blast
  moreover have "payload \<noteq> []" using assms(1) c(1) by (auto simp: process_ss2022_packet_def)
  ultimately show ?thesis using assms(2) by (simp add: process_ss2022_packet_def session_entry_def)
qed

end
