(* ===== verification/VmessStream.thy ===== *)
theory VmessStream
  imports SsStream
begin

text \<open>
  The chunk format of VMess bodies (\<^verbatim>\<open>crates/blackwire-protocol/src/vmess/stream.rs\<close>): a two-byte size, optionally masked by
  the output of an extendable hash, the sealed text and optional random padding. Ciphers, hashes and the random source are
  the record \<open>vmess_libs\<close>; the stream around the format is that of \<open>AeadStream\<close>.
\<close>

section \<open>Body ciphers\<close>

datatype security = Aes128Gcm | ChaCha20Poly1305 | Security_None

text \<open>\<open>shake iv n\<close> is the word a mask seeded with \<open>iv\<close> gives at its \<open>n\<close>-th call; \<open>random\<close> is the stream of random bytes.\<close>

record vmess_libs =
  aes128 :: aead
  chacha20 :: aead
  md5 :: "bytes \<Rightarrow> bytes"
  shake :: "bytes \<Rightarrow> nat \<Rightarrow> u16"
  random :: "nat \<Rightarrow> u8"

definition chunk_nonce :: "u16 \<Rightarrow> bytes \<Rightarrow> bytes" where
  "chunk_nonce counter iv = to_be 2 counter @ take 10 (drop 2 iv)"

definition chacha_key :: "vmess_libs \<Rightarrow> bytes \<Rightarrow> bytes" where
  "chacha_key V key = (let first = md5 V key; second = md5 V first in first @ second)"

datatype body_cipher = Body_Aes128Gcm bytes | Body_ChaCha20Poly1305 bytes | Body_None

definition body_cipher_new :: "vmess_libs \<Rightarrow> security \<Rightarrow> bytes \<Rightarrow> body_cipher" where
  "body_cipher_new V sec key = (case sec of
      Aes128Gcm \<Rightarrow> Body_Aes128Gcm key | ChaCha20Poly1305 \<Rightarrow> Body_ChaCha20Poly1305 (chacha_key V key) | Security_None \<Rightarrow> Body_None)"

fun overhead :: "body_cipher \<Rightarrow> nat" where
  "overhead Body_None = 0"
| "overhead _ = 16"

text \<open>\<^verbatim>\<open>None\<close> is a failed encryption; the text has been copied into the buffer by then.\<close>

definition seal_append :: "aead \<Rightarrow> bytes \<Rightarrow> bytes \<Rightarrow> bytes \<Rightarrow> bytes \<Rightarrow> bytes \<times> bool" where
  "seal_append C key nonce dst data = (case seal C key nonce data of None \<Rightarrow> (dst @ data, False) | Some (ct, tag) \<Rightarrow> (dst @ ct @ tag, True))"

definition vmess_encrypt_append :: "vmess_libs \<Rightarrow> body_cipher \<Rightarrow> bytes \<Rightarrow> bytes \<Rightarrow> bytes \<Rightarrow> bytes \<times> bool" where
  "vmess_encrypt_append V bc nonce dst data = (case bc of
      Body_Aes128Gcm key \<Rightarrow> seal_append (aes128 V) key nonce dst data
    | Body_ChaCha20Poly1305 key \<Rightarrow> seal_append (chacha20 V) key nonce dst data
    | Body_None \<Rightarrow> (dst @ data, True))"

definition vmess_decrypt_in_place :: "vmess_libs \<Rightarrow> body_cipher \<Rightarrow> bytes \<Rightarrow> bytes \<Rightarrow> bytes option" where
  "vmess_decrypt_in_place V bc nonce buf = (case bc of
      Body_Aes128Gcm key \<Rightarrow> unseal_buffer (aes128 V) key nonce buf
    | Body_ChaCha20Poly1305 key \<Rightarrow> unseal_buffer (chacha20 V) key nonce buf
    | Body_None \<Rightarrow> Some buf)"

section \<open>Size masks\<close>

text \<open>A mask is its seed and the number of words already taken.\<close>

record size_mask =
  sm_iv :: bytes
  sm_pos :: nat

definition size_mask_new :: "bytes \<Rightarrow> size_mask" where
  "size_mask_new iv = \<lparr>sm_iv = iv, sm_pos = 0\<rparr>"

definition mask_next :: "vmess_libs \<Rightarrow> size_mask \<Rightarrow> u16 \<times> size_mask" where
  "mask_next V m = (shake V (sm_iv m) (sm_pos m), m\<lparr>sm_pos := sm_pos m + 1\<rparr>)"

definition next_padding_len :: "vmess_libs \<Rightarrow> bool \<Rightarrow> size_mask option \<Rightarrow> nat \<times> size_mask option" where
  "next_padding_len V global_padding mask_opt =
     (if \<not> global_padding then (0, mask_opt)
      else case mask_opt of
        None \<Rightarrow> (0, None)
      | Some mk \<Rightarrow> (case mask_next V mk of (w, mask1) \<Rightarrow> (unat (w mod 64), Some mask1)))"

definition decode_size :: "vmess_libs \<Rightarrow> size_mask option \<Rightarrow> bytes \<Rightarrow> nat \<times> size_mask option" where
  "decode_size V mask_opt enc = (case mask_opt of
      Some mk \<Rightarrow> (case mask_next V mk of (w, mask1) \<Rightarrow> (unat ((from_be enc :: u16) XOR w), Some mask1))
    | None \<Rightarrow> (unat (from_be enc :: u16), None))"

definition encode_size :: "vmess_libs \<Rightarrow> size_mask option \<Rightarrow> nat \<Rightarrow> bytes \<times> size_mask option" where
  "encode_size V mask_opt sz = (case mask_opt of
      Some mk \<Rightarrow> (case mask_next V mk of (w, mask1) \<Rightarrow> (to_be 2 ((of_nat sz :: u16) XOR w), Some mask1))
    | None \<Rightarrow> (to_be 2 (of_nat sz :: u16), None))"

section \<open>Chunks\<close>

record vmess_read_half =
  vr_cipher :: body_cipher
  vr_iv :: bytes
  vr_counter :: u16
  vr_size_mask :: "size_mask option"
  vr_global_padding :: bool
  vr_pending :: "(nat \<times> nat) option"

record vmess_write_half =
  vw_cipher :: body_cipher
  vw_iv :: bytes
  vw_counter :: u16
  vw_size_mask :: "size_mask option"
  vw_global_padding :: bool
  vw_random_pos :: nat

text \<open>The header of the next chunk: one that was already decoded, or two bytes of the source.\<close>

definition chunk_header :: "vmess_libs \<Rightarrow> vmess_read_half \<Rightarrow> bytes \<Rightarrow> ((nat \<times> nat) \<times> vmess_read_half) option" where
  "chunk_header V r src = (case vr_pending r of
      Some pending \<Rightarrow> Some (pending, r\<lparr>vr_pending := None\<rparr>)
    | None \<Rightarrow>
        if length src < 2 then None
        else case next_padding_len V (vr_global_padding r) (vr_size_mask r) of (padding_len, mask1) \<Rightarrow>
          (case decode_size V mask1 (take 2 src) of (sz, mask2) \<Rightarrow> Some ((sz, padding_len), r\<lparr>vr_size_mask := mask2\<rparr>)))"

definition vmess_try_decrypt_chunk :: "vmess_libs \<Rightarrow> vmess_read_half decryptor" where
  "vmess_try_decrypt_chunk V r src = (case chunk_header V r src of
      None \<Rightarrow> (r, src, None)
    | Some ((sz, padding_len), r1) \<Rightarrow>
        if sz < overhead (vr_cipher r1) + padding_len then (r1, src, Some (Inl InvalidData))
        else if length src < 2 + sz then (r1\<lparr>vr_pending := Some (sz, padding_len)\<rparr>, src, None)
        else let data_ct = take (sz - padding_len) (drop 2 src);
                 src1 = drop padding_len (drop (sz - padding_len) (drop 2 src))
             in case vmess_decrypt_in_place V (vr_cipher r1) (chunk_nonce (vr_counter r1) (vr_iv r1)) data_ct of
               None \<Rightarrow> (r1, src1, Some (Inl InvalidData))
             | Some plaintext \<Rightarrow> (r1\<lparr>vr_counter := vr_counter r1 + 1\<rparr>, src1, Some (Inr plaintext)))"

definition vmess_append_encrypted_chunk :: "vmess_libs \<Rightarrow> vmess_write_half appender" where
  "vmess_append_encrypted_chunk V w dst data =
     (let nonce = chunk_nonce (vw_counter w) (vw_iv w);
          (padding_len, mask1) = next_padding_len V (vw_global_padding w) (vw_size_mask w);
          (sz, mask2) = encode_size V mask1 (length data + overhead (vw_cipher w) + padding_len);
          w1 = w\<lparr>vw_size_mask := mask2\<rparr>
      in case vmess_encrypt_append V (vw_cipher w1) nonce (dst @ sz) data of
        (dst1, False) \<Rightarrow> (w1, dst1, Some InvalidData)
      | (dst1, True) \<Rightarrow>
          (w1\<lparr>vw_counter := vw_counter w1 + 1, vw_random_pos := vw_random_pos w1 + padding_len\<rparr>,
           dst1 @ map (\<lambda>i. random V (vw_random_pos w1 + i)) [0..<padding_len], None))"

section \<open>The stream\<close>

abbreviation (input) "REQUEST_OPTION_CHUNK_MASKING \<equiv> (0x04 :: u8)"
abbreviation (input) "REQUEST_OPTION_GLOBAL_PADDING \<equiv> (0x08 :: u8)"

record vmess_stream =
  vs_reader :: "vmess_read_half chunk_reader"
  vs_writer :: "vmess_write_half chunk_writer"

definition vmess_new_bidir :: "vmess_libs \<Rightarrow> bytes \<Rightarrow> bytes \<Rightarrow> bytes \<Rightarrow> bytes \<Rightarrow> security \<Rightarrow> u8 \<Rightarrow> vmess_stream" where
  "vmess_new_bidir V read_key read_iv write_key write_iv sec options =
     (let chunk_masking = (options AND REQUEST_OPTION_CHUNK_MASKING \<noteq> 0);
          global_padding = (options AND REQUEST_OPTION_GLOBAL_PADDING \<noteq> 0)
      in \<lparr>vs_reader = \<lparr>cr_state = \<lparr>vr_cipher = body_cipher_new V sec read_key, vr_iv = read_iv, vr_counter = 0,
              vr_size_mask = (if chunk_masking then Some (size_mask_new read_iv) else None), vr_global_padding = global_padding, vr_pending = None\<rparr>,
            cr_buf = [], cr_raw = []\<rparr>,
          vs_writer = \<lparr>cw_state = \<lparr>vw_cipher = body_cipher_new V sec write_key, vw_iv = write_iv, vw_counter = 0,
              vw_size_mask = (if chunk_masking then Some (size_mask_new write_iv) else None), vw_global_padding = global_padding, vw_random_pos = 0\<rparr>,
            cw_buf = []\<rparr>\<rparr>)"

definition vmess_poll_read :: "vmess_libs \<Rightarrow> nat \<Rightarrow> vmess_stream \<Rightarrow> bytes poll list \<Rightarrow> bytes poll \<times> vmess_stream \<times> bytes poll list" where
  "vmess_poll_read V room st script = (case chunk_poll_read (vmess_try_decrypt_chunk V) room (vs_reader st) script of
      (res, cr, script1) \<Rightarrow> (res, st\<lparr>vs_reader := cr\<rparr>, script1))"

definition vmess_poll_write :: "vmess_libs \<Rightarrow> bytes \<Rightarrow> vmess_stream \<Rightarrow> nat poll list \<Rightarrow> nat poll \<times> vmess_stream \<times> bytes" where
  "vmess_poll_write V buf st script = (case chunk_poll_write (vmess_append_encrypted_chunk V) buf (vs_writer st) script of
      (res, cw, sent) \<Rightarrow> (res, st\<lparr>vs_writer := cw\<rparr>, sent))"

definition vmess_poll_flush :: "unit poll \<Rightarrow> vmess_stream \<Rightarrow> nat poll list \<Rightarrow> unit poll \<times> vmess_stream \<times> bytes" where
  "vmess_poll_flush inner_flush st script = (case chunk_poll_flush inner_flush (vs_writer st) script of
      (res, cw, sent) \<Rightarrow> (res, st\<lparr>vs_writer := cw\<rparr>, sent))"

definition vmess_poll_shutdown :: "unit poll \<Rightarrow> vmess_stream \<Rightarrow> unit poll \<times> vmess_stream \<times> bytes" where
  "vmess_poll_shutdown inner_shutdown st = (case chunk_poll_shutdown inner_shutdown (vs_writer st) of
      (res, cw, sent) \<Rightarrow> (res, st\<lparr>vs_writer := cw\<rparr>, sent))"

section \<open>The format is a chunk codec\<close>

definition vmess_synced :: "vmess_libs \<Rightarrow> vmess_write_half \<Rightarrow> vmess_read_half \<Rightarrow> bool" where
  "vmess_synced V w r \<longleftrightarrow> aead_laws (aes128 V) \<and> aead_laws (chacha20 V) \<and> vw_cipher w = vr_cipher r \<and> vw_iv w = vr_iv r
     \<and> vw_counter w = vr_counter r \<and> vw_size_mask w = vr_size_mask r \<and> vw_global_padding w = vr_global_padding r \<and> vr_pending r = None"

lemma padding_bound: "next_padding_len V gp mo = (n, mo1) \<Longrightarrow> n < 64"
proof -
  have "unat (w mod 64) < 64" for w :: u16 by (simp add: unat_mod)
  then show "next_padding_len V gp mo = (n, mo1) \<Longrightarrow> n < 64"
    by (auto simp: next_padding_len_def mask_next_def split: if_splits option.splits)
qed

lemma decode_encode_size:
  assumes "encode_size V mo n = (enc, mo1)" and "n < 65536"
  shows "length enc = 2 \<and> decode_size V mo enc = (n, mo1)"
  using assms
  by (auto simp: encode_size_def decode_size_def mask_next_def from_be_to_be xor.assoc unat_of_nat split: option.splits)

lemma seal_append_law:
  assumes "aead_laws C" and "length d \<le> 16384"
  obtains body where "\<And>dst. seal_append C key nonce dst d = (dst @ body, True)" "length body = length d + 16" "unseal_buffer C key nonce body = Some d"
proof -
  have "length d \<le> 65536" using assms(2) by simp
  then obtain ct tag where f: "seal C key nonce d = Some (ct, tag)" "length ct = length d" "length tag = 16" "unseal C key nonce ct tag = Some d"
    by (rule aead_seal [OF assms(1)])
  show thesis by (rule that [of "ct @ tag"]) (use f in \<open>simp_all add: seal_append_def unseal_buffer_def\<close>)
qed

lemma encrypt_append_law:
  assumes "aead_laws (aes128 V)" and "aead_laws (chacha20 V)" and "length d \<le> 16384"
  obtains body where "\<And>dst. vmess_encrypt_append V bc nonce dst d = (dst @ body, True)" "length body = length d + overhead bc"
    "vmess_decrypt_in_place V bc nonce body = Some d"
proof (cases bc)
  case (Body_Aes128Gcm key)
  show thesis
    by (rule seal_append_law [OF assms(1,3), of key nonce]) (rule that, auto simp: Body_Aes128Gcm vmess_encrypt_append_def vmess_decrypt_in_place_def)
next
  case (Body_ChaCha20Poly1305 key)
  show thesis
    by (rule seal_append_law [OF assms(2,3), of key nonce]) (rule that, auto simp: Body_ChaCha20Poly1305 vmess_encrypt_append_def vmess_decrypt_in_place_def)
next
  case Body_None
  show thesis by (rule that [of d]) (simp_all add: Body_None vmess_encrypt_append_def vmess_decrypt_in_place_def)
qed

text \<open>A chunk: the encoded size, the sealed text and the padding. The header decodes to the size and the length of the padding.\<close>

lemma vmess_chunk:
  assumes "vmess_synced V w r" and "chunk_ok d"
  obtains w1 r1 enc body pad where
    "\<And>dst. vmess_append_encrypted_chunk V w dst d = (w1, dst @ enc @ body @ pad, None)"
    and "length enc = 2" "length pad < 64" "length body = length d + overhead (vr_cipher r)"
    and "\<And>x. chunk_header V r (enc @ x) = Some ((length body + length pad, length pad), r1)"
    and "vr_cipher r1 = vr_cipher r" "vmess_decrypt_in_place V (vr_cipher r) (chunk_nonce (vr_counter r1) (vr_iv r1)) body = Some d"
    and "vr_pending r1 = None" "vmess_synced V w1 (r1\<lparr>vr_counter := vr_counter r1 + 1\<rparr>)"
proof -
  have h: "aead_laws (aes128 V)" "aead_laws (chacha20 V)" "vw_cipher w = vr_cipher r" "vw_iv w = vr_iv r" "vw_counter w = vr_counter r"
      "vw_size_mask w = vr_size_mask r" "vw_global_padding w = vr_global_padding r" "vr_pending r = None" and d: "length d \<le> 16384"
    using assms by (simp_all add: vmess_synced_def chunk_ok_def)
  obtain n mo1 where p: "next_padding_len V (vr_global_padding r) (vr_size_mask r) = (n, mo1)" by (rule prod.exhaust)
  obtain enc mo2 where e: "encode_size V mo1 (length d + overhead (vr_cipher r) + n) = (enc, mo2)" by (rule prod.exhaust)
  have "overhead (vr_cipher r) \<le> 16" by (cases "vr_cipher r") simp_all
  then have "length d + overhead (vr_cipher r) + n < 65536" using d padding_bound [OF p] by linarith
  then have e2: "length enc = 2" "decode_size V mo1 enc = (length d + overhead (vr_cipher r) + n, mo2)"
    using decode_encode_size [OF e] by blast+
  obtain body where b: "\<And>dst. vmess_encrypt_append V (vr_cipher r) (chunk_nonce (vr_counter r) (vr_iv r)) dst d = (dst @ body, True)"
      "length body = length d + overhead (vr_cipher r)"
      "vmess_decrypt_in_place V (vr_cipher r) (chunk_nonce (vr_counter r) (vr_iv r)) body = Some d"
    by (rule encrypt_append_law [OF h(1,2) d, of "vr_cipher r" "chunk_nonce (vr_counter r) (vr_iv r)"]) blast
  let ?pad = "map (\<lambda>i. random V (vw_random_pos w + i)) [0..<n]"
  show thesis
  proof (rule that [of "w\<lparr>vw_size_mask := mo2, vw_counter := vw_counter w + 1, vw_random_pos := vw_random_pos w + n\<rparr>" enc body ?pad "r\<lparr>vr_size_mask := mo2\<rparr>"])
    show "vmess_append_encrypted_chunk V w dst d
        = (w\<lparr>vw_size_mask := mo2, vw_counter := vw_counter w + 1, vw_random_pos := vw_random_pos w + n\<rparr>, dst @ enc @ body @ ?pad, None)" for dst
      using b(1) [of "dst @ enc"] by (simp add: vmess_append_encrypted_chunk_def Let_def h p e)
    show "chunk_header V r (enc @ x) = Some ((length body + length ?pad, length ?pad), r\<lparr>vr_size_mask := mo2\<rparr>)" for x
      using e2 b(2) by (simp add: chunk_header_def h p)
    show "vmess_synced V (w\<lparr>vw_size_mask := mo2, vw_counter := vw_counter w + 1, vw_random_pos := vw_random_pos w + n\<rparr>)
        (r\<lparr>vr_size_mask := mo2, vr_counter := vr_counter (r\<lparr>vr_size_mask := mo2\<rparr>) + 1\<rparr>)"
      using h by (simp add: vmess_synced_def)
  qed (use e2(1) padding_bound [OF p] b h in simp_all)
qed

text \<open>The rest of the decoder, after the header of the chunk is known.\<close>

lemma vmess_decrypt_header:
  assumes "chunk_header V r src = Some ((sz, pad), r1)"
  shows "vmess_try_decrypt_chunk V r src =
     (if sz < overhead (vr_cipher r1) + pad then (r1, src, Some (Inl InvalidData))
      else if length src < 2 + sz then (r1\<lparr>vr_pending := Some (sz, pad)\<rparr>, src, None)
      else case vmess_decrypt_in_place V (vr_cipher r1) (chunk_nonce (vr_counter r1) (vr_iv r1)) (take (sz - pad) (drop 2 src)) of
        None \<Rightarrow> (r1, drop (2 + sz) src, Some (Inl InvalidData))
      | Some plaintext \<Rightarrow> (r1\<lparr>vr_counter := vr_counter r1 + 1\<rparr>, drop (2 + sz) src, Some (Inr plaintext)))"
proof (cases "sz < overhead (vr_cipher r1) + pad")
  case False
  then have "drop pad (drop (sz - pad) (drop 2 src)) = drop (2 + sz) src" by (simp add: add.commute)
  then show ?thesis using assms False by (simp add: vmess_try_decrypt_chunk_def Let_def del: drop_drop split: option.split)
qed (simp add: vmess_try_decrypt_chunk_def assms)

lemma header_cached:
  assumes "chunk_header V r src = Some ((sz, pad), r1)" and "vr_pending r1 = None"
  shows "chunk_header V (r1\<lparr>vr_pending := Some (sz, pad)\<rparr>) x = Some ((sz, pad), r1)"
proof -
  have "r1\<lparr>vr_pending := None\<rparr> = r1" using assms(2) by (cases r1) simp
  then show ?thesis by (simp add: chunk_header_def)
qed

interpretation vmess: chunk_codec "vmess_append_encrypted_chunk V" "vmess_try_decrypt_chunk V" "vmess_synced V" for V
proof
  fix w r d dst
  assume h: "vmess_synced V w r" "chunk_ok d"
  then show "vmess_append_encrypted_chunk V w dst d
      = (chunk_next (vmess_append_encrypted_chunk V) w d, dst @ chunk_bytes (vmess_append_encrypted_chunk V) w d, None)"
    by (rule vmess_chunk) (simp add: chunk_next_def chunk_bytes_def)
next
  fix w r d
  assume "vmess_synced V w r" "chunk_ok d"
  then obtain w1 r1 enc body pad where c: "\<And>dst. vmess_append_encrypted_chunk V w dst d = (w1, dst @ enc @ body @ pad, None)"
    and f: "length enc = 2" "length body = length d + overhead (vr_cipher r)"
      "\<And>x. chunk_header V r (enc @ x) = Some ((length body + length pad, length pad), r1)" "vr_cipher r1 = vr_cipher r"
      "vmess_decrypt_in_place V (vr_cipher r) (chunk_nonce (vr_counter r1) (vr_iv r1)) body = Some d" "vmess_synced V w1 (r1\<lparr>vr_counter := vr_counter r1 + 1\<rparr>)"
    by (rule vmess_chunk) blast
  have "vmess_try_decrypt_chunk V r (enc @ body @ pad @ rest) = (r1\<lparr>vr_counter := vr_counter r1 + 1\<rparr>, rest, Some (Inr d))" for rest
    using f(1,2,4,5) by (simp add: vmess_decrypt_header [OF f(3)])
  then show "\<exists>r'. vmess_synced V (chunk_next (vmess_append_encrypted_chunk V) w d) r'
      \<and> (\<forall>rest. vmess_try_decrypt_chunk V r (chunk_bytes (vmess_append_encrypted_chunk V) w d @ rest) = (r', rest, Some (Inr d)))"
    using f(6) by (intro exI [of _ "r1\<lparr>vr_counter := vr_counter r1 + 1\<rparr>"]) (simp add: chunk_next_def chunk_bytes_def c)
next
  fix w r d
  assume "vmess_synced V w r" "chunk_ok d"
  then show "chunk_bytes (vmess_append_encrypted_chunk V) w d \<noteq> []"
    by (rule vmess_chunk) (auto simp: chunk_bytes_def)
next
  fix w r d part q
  assume h: "vmess_synced V w r" "chunk_ok d" and part: "chunk_bytes (vmess_append_encrypted_chunk V) w d = part @ q" "q \<noteq> []"
  from h obtain w1 r1 enc body pad where c: "\<And>dst. vmess_append_encrypted_chunk V w dst d = (w1, dst @ enc @ body @ pad, None)"
    and f: "length enc = 2" "length body = length d + overhead (vr_cipher r)"
      "\<And>x. chunk_header V r (enc @ x) = Some ((length body + length pad, length pad), r1)" "vr_cipher r1 = vr_cipher r" "vr_pending r1 = None"
    by (rule vmess_chunk) blast
  have whole: "enc @ body @ pad = part @ q" using part(1) c [of "[]"] by (simp add: chunk_bytes_def)
  show "\<exists>r'. vmess_try_decrypt_chunk V r part = (r', part, None)
      \<and> (\<forall>x. vmess_try_decrypt_chunk V r' (part @ x) = vmess_try_decrypt_chunk V r (part @ x))"
  proof (cases "length part < 2")
    case True
    then have "chunk_header V r part = None" using h(1) by (simp add: chunk_header_def vmess_synced_def)
    then show ?thesis by (simp add: vmess_try_decrypt_chunk_def)
  next
    case False
    then have "take 2 part = take 2 (part @ q)" by simp
    then have "take 2 part = enc" unfolding whole [symmetric] using f(1) by simp
    then obtain y where y: "part = enc @ y" by (metis append_take_drop_id)
    have short: "length part < 2 + (length body + length pad)" using arg_cong [OF whole, of length] f(1) part(2) by simp
    let ?r = "r1\<lparr>vr_pending := Some (length body + length pad, length pad)\<rparr>"
    have "vmess_try_decrypt_chunk V r part = (?r, part, None)"
      using short f(2,4) unfolding y by (simp add: vmess_decrypt_header [OF f(3)])
    moreover have "vmess_try_decrypt_chunk V ?r (part @ x) = vmess_try_decrypt_chunk V r (part @ x)" for x
      using vmess_decrypt_header [OF f(3), of "y @ x"] vmess_decrypt_header [OF header_cached [OF f(3) f(5)], of "part @ x"] unfolding y append_assoc by simp
    ultimately show ?thesis by blast
  qed
qed

section \<open>Properties\<close>

text \<open>
  Property C20. A VMess body stream is transparent, with every cipher and with or without size masks and padding: a reader
  returns a prefix of the accepted bytes and never an error, however the bytes are cut on their way. A size mask is taken once per
  chunk, although a header may be read long before its chunk is complete. When everything was flushed and delivered, as many
  polls as there are bytes and deliveries return all of it.
\<close>

theorem vmess_stream_transparent:
  assumes "aead_laws (aes128 V)" and "aead_laws (chacha20 V)"
    and "run_writes (vmess_append_encrypted_chunk V) (vs_writer (vmess_new_bidir V key1 iv1 key iv sec options)) ops = (accepted, wire, cw)"
    and "list_all op_ok ops" and "flowing script" and "prefix (polled script) wire"
    and "list_all (\<lambda>room. 0 < room) rooms"
    and "run_reads (vmess_try_decrypt_chunk V) (vs_reader (vmess_new_bidir V key iv key2 iv2 sec options)) rooms script = (outs, cr, rest)"
  shows "(\<forall>e. Ready (Inl e) \<notin> set outs) \<and> prefix (polled outs) accepted
    \<and> (polled script = wire \<and> cw_buf cw = [] \<and> length accepted + length script \<le> length rooms \<longrightarrow> polled outs = accepted)"
proof -
  define w r where "w = cw_state (vs_writer (vmess_new_bidir V key1 iv1 key iv sec options))"
    and "r = cr_state (vs_reader (vmess_new_bidir V key iv key2 iv2 sec options))"
  have "vmess_synced V w r" using assms(1,2) by (simp add: vmess_synced_def w_def r_def vmess_new_bidir_def Let_def)
  moreover have "vs_writer (vmess_new_bidir V key1 iv1 key iv sec options) = \<lparr>cw_state = w, cw_buf = []\<rparr>"
      "vs_reader (vmess_new_bidir V key iv key2 iv2 sec options) = \<lparr>cr_state = r, cr_buf = [], cr_raw = []\<rparr>"
    by (simp_all add: w_def r_def vmess_new_bidir_def Let_def)
  ultimately show ?thesis using vmess.transparent [of V w r ops accepted wire cw script rooms "[]" outs cr rest] assms(3-8) by simp
qed

definition demo_vmess :: vmess_libs where
  "demo_vmess = \<lparr>aes128 = plain_aead, chacha20 = plain_aead, md5 = id, shake = (\<lambda>iv n. of_nat (1000 * n + 5)), random = (\<lambda>_. 0xAB)\<rparr>"

theorem vmess_stream_transparent_witness:
  "\<exists>wire cw. run_writes (vmess_append_encrypted_chunk demo_vmess) (vs_writer (vmess_new_bidir demo_vmess [8] [8] [7] [7] Aes128Gcm 0x0C)) [Put [1, 2] [Ready (Inr 100)]]
       = ([1, 2], wire, cw)
     \<and> polled (fst (run_reads (vmess_try_decrypt_chunk demo_vmess) (vs_reader (vmess_new_bidir demo_vmess [7] [7] [8] [8] Aes128Gcm 0x0C)) [1, 1, 1, 1] [Pending, Ready (Inr wire)])) = [1, 2]"
proof -
  have laws: "aead_laws (aes128 demo_vmess)" "aead_laws (chacha20 demo_vmess)" by (simp_all add: demo_vmess_def plain_aead_laws)
  obtain wire cw where w: "run_writes (vmess_append_encrypted_chunk demo_vmess) (vs_writer (vmess_new_bidir demo_vmess [8] [8] [7] [7] Aes128Gcm 0x0C)) [Put [1, 2] [Ready (Inr 100)]] = ([1, 2], wire, cw)"
      "cw_buf cw = []" "wire \<noteq> []"
    by (simp add: vmess_new_bidir_def chunk_poll_write_def vmess_append_encrypted_chunk_def vmess_encrypt_append_def seal_append_def next_padding_len_def
        encode_size_def mask_next_def size_mask_new_def body_cipher_new_def demo_vmess_def plain_aead_def drain.simps Let_def)
  obtain outs cr rest where r: "run_reads (vmess_try_decrypt_chunk demo_vmess) (vs_reader (vmess_new_bidir demo_vmess [7] [7] [8] [8] Aes128Gcm 0x0C)) [1, 1, 1, 1] [Pending, Ready (Inr wire)] = (outs, cr, rest)"
    by (metis prod_cases3)
  have "polled outs = [1, 2]" using vmess_stream_transparent [OF laws w(1) _ _ _ _ r] w(2,3) by simp
  then show ?thesis using w(1) r by (intro exI [of _ wire] exI [of _ cw]) simp
qed

primrec after_chunks :: "vmess_libs \<Rightarrow> vmess_write_half \<Rightarrow> bytes list \<Rightarrow> vmess_write_half" where
  "after_chunks V w [] = w"
| "after_chunks V w (d # ds) = after_chunks V (chunk_next (vmess_append_encrypted_chunk V) w d) ds"

lemma after_chunks_counter:
  assumes "vmess_synced V w r" and "list_all chunk_ok ds"
  shows "vw_counter (after_chunks V w ds) = vw_counter w + of_nat (length ds)
    \<and> vw_cipher (after_chunks V w ds) = vw_cipher w \<and> vw_iv (after_chunks V w ds) = vw_iv w"
  using assms
proof (induction ds arbitrary: w r)
  case (Cons d ds)
  then obtain r1 where r1: "vmess_synced V (chunk_next (vmess_append_encrypted_chunk V) w d) r1" using vmess.decrypt_law [of V w r d] by auto
  have f: "vw_counter (chunk_next (vmess_append_encrypted_chunk V) w d) = vw_counter w + 1 \<and> vw_cipher (chunk_next (vmess_append_encrypted_chunk V) w d) = vw_cipher w
      \<and> vw_iv (chunk_next (vmess_append_encrypted_chunk V) w d) = vw_iv w"
  proof -
    have "snd (snd (vmess_append_encrypted_chunk V w [] d)) = None" using vmess.append_law [OF Cons.prems(1)] Cons.prems(2) by simp
    then show ?thesis by (auto simp: chunk_next_def vmess_append_encrypted_chunk_def Let_def split: prod.splits bool.splits)
  qed
  show ?case using Cons.IH [OF r1] Cons.prems(2) f by (simp add: algebra_simps)
qed simp

text \<open>
  The nonces of one direction of a VMess stream repeat with period 65536 and not before: two chunks are sealed with
  the same key and nonce exactly when a multiple of 65536 chunks lies between them, which with full chunks is every gibibyte.
\<close>

theorem vmess_nonce_period:
  assumes "aead_laws (aes128 V)" and "aead_laws (chacha20 V)" and "list_all chunk_ok (before @ between)"
    and "w = cw_state (vs_writer (vmess_new_bidir V key1 iv1 key iv sec options))"
  shows "vw_cipher (after_chunks V w (before @ between)) = vw_cipher (after_chunks V w before)
    \<and> (chunk_nonce (vw_counter (after_chunks V w (before @ between))) (vw_iv (after_chunks V w (before @ between)))
         = chunk_nonce (vw_counter (after_chunks V w before)) (vw_iv (after_chunks V w before))
       \<longleftrightarrow> 65536 dvd length between)"
proof -
  let ?r = "cr_state (vs_reader (vmess_new_bidir V key iv key1 iv1 sec options))"
  have s: "vmess_synced V w ?r" using assms(1,2) by (simp add: vmess_synced_def assms(4) vmess_new_bidir_def Let_def)
  have "to_be 2 c = to_be 2 c' \<longleftrightarrow> c = c'" for c c' :: u16 
  proof -
    have "from_be (to_be 2 x) = x" for x :: u16 by (simp add: from_be_to_be)
    then show ?thesis by metis
  qed
  moreover have "(of_nat (length between) :: u16) = 0 \<longleftrightarrow> 65536 dvd length between" by (simp add: word_of_nat_eq_0_iff)
  ultimately show ?thesis
    using after_chunks_counter [OF s] assms(3) by (simp add: chunk_nonce_def)
qed

theorem vmess_nonce_period_witness:
  "\<exists>w ds. vw_counter w = 0 \<and> length ds = 65536 \<and> chunk_nonce (vw_counter (after_chunks demo_vmess w ds)) (vw_iv (after_chunks demo_vmess w ds))
     = chunk_nonce (vw_counter w) (vw_iv w)"
proof -
  have laws: "aead_laws (aes128 demo_vmess)" "aead_laws (chacha20 demo_vmess)" by (simp_all add: demo_vmess_def plain_aead_laws)
  have "\<exists>ds. length ds = n \<and> list_all chunk_ok ([] @ ds)" for n
    by (rule exI [of _ "replicate n [1]"]) (simp add: list_all_iff chunk_ok_def)
  then obtain ds where ds: "length ds = 65536" "list_all chunk_ok ([] @ ds)" by blast
  let ?w = "cw_state (vs_writer (vmess_new_bidir demo_vmess [8] [8] [7] [7] Aes128Gcm 0))"
  have "vw_counter ?w = 0" by (simp add: vmess_new_bidir_def Let_def)
  then show ?thesis
    using vmess_nonce_period [OF laws ds(2) refl, of "[8]" "[8]" "[7]" "[7]" Aes128Gcm 0] ds(1) by (intro exI [of _ ?w] exI [of _ ds]) simp
qed

end
