(* ===== verification/VmessHandshake.thy ===== *)
theory VmessHandshake
  imports VmessStream SsHandshake
begin

text \<open>
  Opening a VMess connection: key derivation (\<^verbatim>\<open>vmess/kdf.rs\<close>), authentication ids (\<^verbatim>\<open>auth.rs\<close>), the header codec (\<^verbatim>\<open>codec.rs\<close>), the
  server's side (\<^verbatim>\<open>inbound.rs\<close>) and the client's (\<^verbatim>\<open>outbound.rs\<close>). Hashes and ciphers are the record \<open>vmess_header_libs\<close>; clock
  readings and random bytes are arguments.
\<close>

section \<open>Key derivation\<close>

record vmess_header_libs =
  body_libs :: vmess_libs
  hmac_sha256 :: "bytes \<Rightarrow> bytes \<Rightarrow> bytes"
  sha256 :: "bytes \<Rightarrow> bytes"
  gcm_encrypt :: "bytes \<Rightarrow> bytes \<Rightarrow> bytes \<Rightarrow> bytes \<Rightarrow> bytes option"
  gcm_decrypt :: "bytes \<Rightarrow> bytes \<Rightarrow> bytes \<Rightarrow> bytes \<Rightarrow> bytes option"
  ecb_encrypt :: "bytes \<Rightarrow> bytes \<Rightarrow> bytes"
  ecb_decrypt :: "bytes \<Rightarrow> bytes \<Rightarrow> bytes"
  crc32 :: "bytes \<Rightarrow> u32"

text \<open>What is relied on: blocks of 16 bytes decrypt to what was encrypted, and so do AEAD texts of up to 64 KiB under the same
  associated data, with 16 more bytes; the body ciphers have the laws of \<open>AeadStream\<close>.\<close>

definition header_laws :: "vmess_header_libs \<Rightarrow> bool" where
  "header_laws H \<longleftrightarrow> aead_laws (aes128 (body_libs H)) \<and> aead_laws (chacha20 (body_libs H))
     \<and> (\<forall>k b. length b = 16 \<longrightarrow> length (ecb_encrypt H k b) = 16 \<and> ecb_decrypt H k (ecb_encrypt H k b) = b)
     \<and> (\<forall>k n d aad. length d \<le> 65536 \<longrightarrow> (\<exists>ct. gcm_encrypt H k n d aad = Some ct \<and> length ct = length d + 16 \<and> gcm_decrypt H k n ct aad = Some d))"

definition hmac_with_kdf_hash :: "(bytes \<Rightarrow> bytes) \<Rightarrow> bytes \<Rightarrow> bytes \<Rightarrow> bytes" where
  "hmac_with_kdf_hash hash key msg =
     (let block_key = take 64 ((if length key > 64 then hash key else key) @ replicate 64 0);
          ipad = map (\<lambda>b. 0x36 XOR b) block_key;
          opad = map (\<lambda>b. 0x5C XOR b) block_key
      in hash (opad @ hash (ipad @ msg)))"

text \<open>The source takes the last path off the slice; here the paths come in reverse.\<close>

fun kdf_hash :: "vmess_header_libs \<Rightarrow> bytes list \<Rightarrow> bytes \<Rightarrow> bytes" where
  "kdf_hash H [] msg = hmac_sha256 H (ascii ''VMess AEAD KDF'') msg"
| "kdf_hash H (path # paths) msg = hmac_with_kdf_hash (kdf_hash H paths) path msg"

definition kdf :: "vmess_header_libs \<Rightarrow> nat \<Rightarrow> bytes \<Rightarrow> bytes list \<Rightarrow> bytes" where
  "kdf H n key paths = take n (kdf_hash H (rev paths) key)"

section \<open>Authentication ids\<close>

definition cmd_key :: "vmess_header_libs \<Rightarrow> bytes \<Rightarrow> bytes" where
  "cmd_key H uuid = md5 (body_libs H) (uuid @ ascii ''c48619fe-8f02-49e0-b9e9-edf763e17e21'')"

definition generate_auth_id_at :: "vmess_header_libs \<Rightarrow> bytes \<Rightarrow> u64 \<Rightarrow> bytes \<Rightarrow> bytes" where
  "generate_auth_id_at H ck timestamp rnd =
     (let first12 = to_be 8 timestamp @ rnd in
      ecb_encrypt H (kdf H 16 ck [ascii ''AES Auth ID Encryption'']) (first12 @ to_be 4 (crc32 H first12)))"

definition validate_auth_id :: "vmess_header_libs \<Rightarrow> bytes \<Rightarrow> bytes \<Rightarrow> u64 \<Rightarrow> u64 \<Rightarrow> bool" where
  "validate_auth_id H ck auth_id now max_diff_secs =
     (let block = ecb_decrypt H (kdf H 16 ck [ascii ''AES Auth ID Encryption'']) auth_id in
      crc32 H (take 12 block) = from_be (take 4 (drop 12 block)) \<and> abs_diff now (from_be (take 8 block)) \<le> max_diff_secs)"

abbreviation (input) "MAX_TIME_DIFF_SECS \<equiv> (120 :: u64)"

section \<open>Request headers\<close>

definition fnv32a :: "bytes \<Rightarrow> u32" where
  "fnv32a data = foldl (\<lambda>hash byte. (hash XOR ucast byte) * 0x01000193) 0x811C9DC5 data"

fun security_byte :: "security \<Rightarrow> u8" where
  "security_byte Aes128Gcm = 0x03"
| "security_byte ChaCha20Poly1305 = 0x04"
| "security_byte Security_None = 0x05"

definition security_try_from :: "u8 \<Rightarrow> security result" where
  "security_try_from v =
     (if v = 0x03 then Inr Aes128Gcm else if v = 0x04 then Inr ChaCha20Poly1305 else if v = 0x05 then Inr Security_None
      else Inl (Err (Protocol ''VMess: unknown security byte'')))"

record vmess_request =
  vq_iv :: bytes
  vq_key :: bytes
  vq_v :: u8
  vq_options :: u8
  vq_security :: security
  vq_dest :: address

definition response_body_key :: "vmess_header_libs \<Rightarrow> bytes \<Rightarrow> bytes" where
  "response_body_key H request_key = take 16 (sha256 H request_key)"

definition response_body_iv :: "vmess_header_libs \<Rightarrow> bytes \<Rightarrow> bytes" where
  "response_body_iv H request_iv = take 16 (sha256 H request_iv)"

definition vmess_aead_encrypt :: "vmess_header_libs \<Rightarrow> bytes \<Rightarrow> bytes \<Rightarrow> bytes \<Rightarrow> bytes \<Rightarrow> string \<Rightarrow> bytes result" where
  "vmess_aead_encrypt H key nonce msg aad err = (case gcm_encrypt H key nonce msg aad of None \<Rightarrow> Inl (Err (Protocol err)) | Some ct \<Rightarrow> Inr ct)"

definition vmess_aead_decrypt :: "vmess_header_libs \<Rightarrow> bytes \<Rightarrow> bytes \<Rightarrow> bytes \<Rightarrow> bytes \<Rightarrow> string \<Rightarrow> bytes result" where
  "vmess_aead_decrypt H key nonce ct aad err = (case gcm_decrypt H key nonce ct aad of None \<Rightarrow> Inl (Err (Protocol err)) | Some pt \<Rightarrow> Inr pt)"

definition vmess_host :: "address \<Rightarrow> bytes result" where
  "vmess_host dest = (case dest of
      Ipv4 a p \<Rightarrow> Inr (to_be 2 p @ [0x01] @ to_be 4 a)
    | Ipv6 a p \<Rightarrow> Inr (to_be 2 p @ [0x03] @ to_be 16 a)
    | Domain name p \<Rightarrow> bindE (domain_wire_len name) (\<lambda>n. Inr (to_be 2 p @ [0x02, n] @ name)))"

definition build_request_plaintext :: "bytes \<Rightarrow> bytes \<Rightarrow> u8 \<Rightarrow> bytes \<Rightarrow> security \<Rightarrow> address \<Rightarrow> bytes result" where
  "build_request_plaintext iv key v pad sec dest =
     bindE (vmess_host dest) (\<lambda>host.
       let buf = [0x01] @ iv @ key @ [v, 0x01, push_bit 4 (of_nat (length pad)) OR security_byte sec, 0x00, 0x01] @ host @ pad
       in Inr (buf @ to_be 4 (fnv32a buf)))"

text \<open>The random parts of a header: initialisation vector, key, verification byte, connection nonce and padding.\<close>

record header_random =
  hr_iv :: bytes
  hr_key :: bytes
  hr_v :: u8
  hr_nonce :: bytes
  hr_pad :: bytes

definition encode_header :: "vmess_header_libs \<Rightarrow> bytes \<Rightarrow> bytes \<Rightarrow> address \<Rightarrow> security \<Rightarrow> header_random \<Rightarrow> (bytes \<times> bytes) result" where
  "encode_header H ck auth_id dest sec rnd =
     bindE (build_request_plaintext (hr_iv rnd) (hr_key rnd) (hr_v rnd) (hr_pad rnd) sec dest) (\<lambda>plaintext.
       bindE (vmess_aead_encrypt H (kdf H 16 ck [ascii ''VMess Header AEAD Key'', auth_id, hr_nonce rnd])
           (kdf H 12 ck [ascii ''VMess Header AEAD Nonce'', auth_id, hr_nonce rnd]) plaintext auth_id ''VMess: header ciphertext encrypt failed'') (\<lambda>enc_header.
         bindE (vmess_aead_encrypt H (kdf H 16 ck [ascii ''VMess Header AEAD Key_Length'', auth_id, hr_nonce rnd])
             (kdf H 12 ck [ascii ''VMess Header AEAD Nonce_Length'', auth_id, hr_nonce rnd]) (to_be 2 (of_nat (length plaintext) :: u16)) auth_id
             ''VMess: header length encrypt failed'') (\<lambda>enc_len.
           Inr (enc_len, enc_header))))"

definition decrypt_length_field :: "vmess_header_libs \<Rightarrow> bytes \<Rightarrow> bytes \<Rightarrow> bytes \<Rightarrow> bytes \<Rightarrow> nat result" where
  "decrypt_length_field H ck auth_id connection_nonce enc =
     bindE (vmess_aead_decrypt H (kdf H 16 ck [ascii ''VMess Header AEAD Key_Length'', auth_id, connection_nonce])
         (kdf H 12 ck [ascii ''VMess Header AEAD Nonce_Length'', auth_id, connection_nonce]) enc auth_id ''VMess: length field decryption failed'') (\<lambda>plaintext.
       if length plaintext < 2 then Inl (Err (Protocol ''VMess: length field too short''))
       else Inr (unat (from_be [plaintext ! 0, plaintext ! 1] :: u16)))"

text \<open>The address behind position \<open>pos\<close>, and the position behind it.\<close>

definition read_vmess_address :: "bytes \<Rightarrow> nat \<Rightarrow> u8 \<Rightarrow> u16 \<Rightarrow> (address \<times> nat) result" where
  "read_vmess_address data pos atyp p =
     (if atyp = 0x01
      then if pos + 4 > length data then Inl (Err (Protocol ''VMess: truncated IPv4''))
        else bindE (rslice data pos (pos + 4)) (\<lambda>a. Inr (Ipv4 (from_be a) p, pos + 4))
      else if atyp = 0x03
      then if pos + 16 > length data then Inl (Err (Protocol ''VMess: truncated IPv6''))
        else bindE (rslice data pos (pos + 16)) (\<lambda>a. Inr (Ipv6 (from_be a) p, pos + 16))
      else if atyp = 0x02
      then if pos \<ge> length data then Inl (Err (Protocol ''VMess: truncated domain len''))
        else bindE (idx data pos) (\<lambda>n. let dlen = unat n; pos = pos + 1 in
          if pos + dlen > length data then Inl (Err (Protocol ''VMess: truncated domain''))
          else bindE (rslice data pos (pos + dlen)) (\<lambda>name.
            if utf8_valid name then Inr (Domain name p, pos + dlen) else Inl (Err (Protocol ''VMess: domain not UTF-8''))))
      else Inl (Err (Protocol ''VMess: unknown ATYP'')))"

definition read_u32_be :: "bytes \<Rightarrow> nat \<Rightarrow> u32 result" where
  "read_u32_be data pos =
     (if pos + 4 > length data then Inl (Err (Protocol ''VMess: truncated u32 field'')) else bindE (rslice data pos (pos + 4)) (\<lambda>b. Inr (from_be b)))"

definition decode_plaintext :: "bytes \<Rightarrow> vmess_request result" where
  "decode_plaintext data =
     (if length data < 38 then Inl (Err (Protocol ''VMess: header too short''))
      else bindE (idx data 0) (\<lambda>ver. if ver \<noteq> 1 then Inl (Err (Protocol ''VMess: unexpected version''))
      else bindE (rslice data 1 17) (\<lambda>iv. bindE (rslice data 17 33) (\<lambda>key. bindE (idx data 33) (\<lambda>v. bindE (idx data 34) (\<lambda>options.
        bindE (idx data 35) (\<lambda>pad_sec. let pad_len = unat (drop_bit 4 pad_sec) in
          bindE (security_try_from (pad_sec AND 0x0F)) (\<lambda>sec. bindE (idx data 37) (\<lambda>cmd.
            if 38 + 2 > length data then Inl (Err (Protocol ''VMess: truncated at port''))
            else bindE (rslice data 38 40) (\<lambda>pb. let p = from_be pb :: u16 in
              bindE (if cmd = 0x01 \<or> cmd = 0x02
                  then if 40 \<ge> length data then Inl (Err (Protocol ''VMess: truncated at atyp''))
                    else bindE (idx data 40) (\<lambda>atyp. read_vmess_address data 41 atyp p)
                  else if cmd = 0x03
                  then if 40 \<ge> length data then Inl (Err (Protocol ''VMess: truncated at atyp''))
                    else bindE (idx data 40) (\<lambda>atyp. bindE (read_vmess_address data 41 atyp p) (\<lambda>(_, pos). Inr (Domain (ascii ''v1.mux.cool'') p, pos)))
                  else Inl (Err (Protocol ''VMess: unknown command''))) (\<lambda>(dest, pos0).
                let pos = pos0 + pad_len in
                if pos + 4 > length data then Inl (Err (Protocol ''VMess: truncated checksum''))
                else bindE (rslice data 0 pos) (\<lambda>covered. bindE (read_u32_be data pos) (\<lambda>received.
                  if fnv32a covered \<noteq> received then Inl (Err (Protocol ''VMess: header checksum mismatch''))
                  else Inr \<lparr>vq_iv = iv, vq_key = key, vq_v = v, vq_options = options, vq_security = sec, vq_dest = dest\<rparr>)))))))))))))"

definition decode_header :: "vmess_header_libs \<Rightarrow> bytes \<Rightarrow> bytes \<Rightarrow> bytes \<Rightarrow> nat \<Rightarrow> vmess_request reader" where
  "decode_header H ck auth_id connection_nonce enc_len =
     rbind (read_exact (enc_len + 16)) (\<lambda>ciphertext.
       rlift (bindE (vmess_aead_decrypt H (kdf H 16 ck [ascii ''VMess Header AEAD Key'', auth_id, connection_nonce])
           (kdf H 12 ck [ascii ''VMess Header AEAD Nonce'', auth_id, connection_nonce]) ciphertext auth_id ''VMess: AEAD header decryption failed'')
         decode_plaintext))"

section \<open>Response headers\<close>

definition send_response_header :: "vmess_header_libs \<Rightarrow> u8 \<Rightarrow> bytes \<Rightarrow> bytes \<Rightarrow> bytes result" where
  "send_response_header H v resp_body_key resp_body_iv =
     bindE (vmess_aead_encrypt H (kdf H 16 resp_body_key [ascii ''AEAD Resp Header Len Key'']) (kdf H 12 resp_body_iv [ascii ''AEAD Resp Header Len IV''])
         (to_be 2 (4 :: u16)) [] ''VMess: resp header len encrypt failed'') (\<lambda>enc_len.
       bindE (vmess_aead_encrypt H (kdf H 16 resp_body_key [ascii ''AEAD Resp Header Key'']) (kdf H 12 resp_body_iv [ascii ''AEAD Resp Header IV''])
           [v, 0, 0, 0] [] ''VMess: resp header encrypt failed'') (\<lambda>enc_hdr.
         Inr (enc_len @ enc_hdr)))"

definition read_response_header :: "vmess_header_libs \<Rightarrow> u8 \<Rightarrow> bytes \<Rightarrow> bytes \<Rightarrow> unit reader" where
  "read_response_header H expected_v resp_body_key resp_body_iv =
     rbind (read_exact 18) (\<lambda>enc_len.
       rbind (rlift (vmess_aead_decrypt H (kdf H 16 resp_body_key [ascii ''AEAD Resp Header Len Key'']) (kdf H 12 resp_body_iv [ascii ''AEAD Resp Header Len IV''])
           enc_len [] ''VMess: resp len decrypt failed'')) (\<lambda>len_pt.
         rbind (rlift (bindE (idx len_pt 0) (\<lambda>a. bindE (idx len_pt 1) (\<lambda>b. Inr (unat (from_be [a, b] :: u16)))))) (\<lambda>payload_len.
           rbind (read_exact (payload_len + 16)) (\<lambda>enc_hdr.
             rbind (rlift (vmess_aead_decrypt H (kdf H 16 resp_body_key [ascii ''AEAD Resp Header Key'']) (kdf H 12 resp_body_iv [ascii ''AEAD Resp Header IV''])
                 enc_hdr [] ''VMess: resp header decrypt failed'')) (\<lambda>hdr_pt.
               if (case hdr_pt of v # _ \<Rightarrow> v | [] \<Rightarrow> 0) \<noteq> expected_v then rfail (Protocol ''VMess: response V mismatch'') else rret ())))))"

section \<open>The server\<close>

text \<open>The registry is keyed by command key; the list is the order in which it is iterated.\<close>

record vmess_user =
  vu_uuid :: bytes
  vu_cmd_key :: bytes
  vu_email :: rstr

definition add_user :: "vmess_header_libs \<Rightarrow> bytes \<Rightarrow> rstr \<Rightarrow> (bytes \<times> vmess_user) list \<Rightarrow> (bytes \<times> vmess_user) list" where
  "add_user H uuid email users =
     (let key = cmd_key H uuid in (key, \<lparr>vu_uuid = uuid, vu_cmd_key = key, vu_email = email\<rparr>) # filter (\<lambda>(k, _). k \<noteq> key) users)"

fun find_by_auth :: "vmess_header_libs \<Rightarrow> bytes \<Rightarrow> u64 \<Rightarrow> (bytes \<times> vmess_user) list \<Rightarrow> vmess_user option" where
  "find_by_auth H auth_id now [] = None"
| "find_by_auth H auth_id now ((key, user) # users) =
     (if validate_auth_id H key auth_id now MAX_TIME_DIFF_SECS then Some user else find_by_auth H auth_id now users)"

record vmess_session =
  vn_user :: rstr
  vn_dest :: address
  vn_stream :: vmess_stream
  vn_sent :: bytes

definition vmess_inbound_handle :: "vmess_header_libs \<Rightarrow> (bytes \<times> vmess_user) list \<Rightarrow> u64 \<Rightarrow> vmess_session reader" where
  "vmess_inbound_handle H users now =
     rbind (read_exact 16) (\<lambda>auth_id. case find_by_auth H auth_id now users of
         None \<Rightarrow> rfail AuthFailed
       | Some user \<Rightarrow>
           rbind (read_exact 18) (\<lambda>enc_len. rbind (read_exact 8) (\<lambda>connection_nonce.
             rbind (rlift (decrypt_length_field H (vu_cmd_key user) auth_id connection_nonce enc_len)) (\<lambda>header_len.
               rbind (decode_header H (vu_cmd_key user) auth_id connection_nonce header_len) (\<lambda>request.
                 let resp_key = response_body_key H (vq_key request); resp_iv = response_body_iv H (vq_iv request) in
                 rbind (rlift (send_response_header H (vq_v request) resp_key resp_iv)) (\<lambda>sent.
                   rret \<lparr>vn_user = vu_email user, vn_dest = vq_dest request,
                     vn_stream = vmess_new_bidir (body_libs H) (vq_key request) (vq_iv request) resp_key resp_iv (vq_security request) (vq_options request),
                     vn_sent = sent\<rparr>))))))"

section \<open>The client\<close>

definition vmess_client_request :: "vmess_header_libs \<Rightarrow> bytes \<Rightarrow> address \<Rightarrow> u64 \<Rightarrow> bytes \<Rightarrow> header_random \<Rightarrow> bytes result" where
  "vmess_client_request H ck dest now auth_rnd rnd =
     (let auth_id = generate_auth_id_at H ck now auth_rnd in
      bindE (encode_header H ck auth_id dest Aes128Gcm rnd) (\<lambda>(encrypted_len, header_ct). Inr (auth_id @ encrypted_len @ hr_nonce rnd @ header_ct)))"

text \<open>The second half of \<^verbatim>\<open>connect_vmess_on_stream\<close>, after the request has been sent.\<close>

definition vmess_client_finish :: "vmess_header_libs \<Rightarrow> header_random \<Rightarrow> vmess_stream reader" where
  "vmess_client_finish H rnd =
     (let resp_key = response_body_key H (hr_key rnd); resp_iv = response_body_iv H (hr_iv rnd) in
      rbind (read_response_header H (hr_v rnd) resp_key resp_iv) (\<lambda>_.
        rret (vmess_new_bidir (body_libs H) resp_key resp_iv (hr_key rnd) (hr_iv rnd) Aes128Gcm 0)))"

section \<open>Round trips\<close>

lemma gcm_law:
  assumes "header_laws H" and "length d \<le> 65536"
  obtains ct where "gcm_encrypt H k n d aad = Some ct" "length ct = length d + 16" "gcm_decrypt H k n ct aad = Some d"
  using assms unfolding header_laws_def by blast

text \<open>An authentication id made at one time is valid at another exactly when the clocks differ by at most the limit.\<close>

lemma validate_generated:
  assumes "header_laws H" and "length rnd = 4"
  shows "validate_auth_id H ck (generate_auth_id_at H ck ts rnd) now limit \<longleftrightarrow> abs_diff now ts \<le> limit"
proof -
  define first12 where "first12 = to_be 8 ts @ rnd"
  have l: "length first12 = 12" using assms(2) by (simp add: first12_def)
  then have "ecb_decrypt H k (ecb_encrypt H k (first12 @ to_be 4 (crc32 H first12))) = first12 @ to_be 4 (crc32 H first12)" for k
    using assms(1) by (simp add: header_laws_def)
  moreover have "take 12 (first12 @ r) = first12" "drop 12 (first12 @ r) = r" "take 8 (first12 @ r) = to_be 8 ts" for r
    using l by (simp_all add: first12_def)
  ultimately show ?thesis
    by (simp add: validate_auth_id_def generate_auth_id_at_def Let_def first12_def [symmetric] from_be_to_be)
qed

lemma pad_sec_bits:
  "list_all (\<lambda>n. list_all (\<lambda>sec. drop_bit 4 (push_bit 4 (of_nat n) OR security_byte sec) = (of_nat n :: u8)
     \<and> (push_bit 4 (of_nat n) OR security_byte sec) AND 0x0F = security_byte sec) [Aes128Gcm, ChaCha20Poly1305, Security_None]) [0..<16]"
  by code_simp

lemma pad_sec:
  assumes "n < 16"
  shows "drop_bit 4 (push_bit 4 (of_nat n) OR security_byte sec) = (of_nat n :: u8)"
    "(push_bit 4 (of_nat n) OR security_byte sec) AND 0x0F = security_byte sec"
  using pad_sec_bits assms by (cases sec; simp add: list_all_iff)+

lemma security_round: "security_try_from (security_byte sec) = Inr sec"
  by (cases sec) (simp_all add: security_try_from_def)

lemma read_vmess_host:
  assumes "wire_ok dest" and "vmess_host dest = Inr host" and "length pre = 38"
  shows "40 < length (pre @ host @ post) \<and> take 2 (drop 38 (pre @ host @ post)) = to_be 2 (port dest)
    \<and> read_vmess_address (pre @ host @ post) 41 ((pre @ host @ post) ! 40) (port dest) = Inr (dest, 38 + length host)"
proof (cases dest)
  case (Ipv4 a p)
  then have h: "host = to_be 2 p @ [0x01] @ to_be 4 a" using assms(2) by (simp add: vmess_host_def)
  show ?thesis unfolding h using assms(3) Ipv4 by (simp add: read_vmess_address_def nth_append from_be_to_be)
next
  case (Ipv6 a p)
  then have h: "host = to_be 2 p @ [0x03] @ to_be 16 a" using assms(2) by (simp add: vmess_host_def)
  show ?thesis unfolding h using assms(3) Ipv6 by (simp add: read_vmess_address_def nth_append from_be_to_be)
next
  case (Domain name p)
  then have n: "length name \<le> 255" "utf8_valid name" using assms(1) by simp_all
  then have h: "host = to_be 2 p @ [0x02, of_nat (length name)] @ name" using assms(2) Domain by (simp add: vmess_host_def)
  have "unat (of_nat (length name) :: u8) = length name" using n(1) by (simp add: unat_of_nat_u8)
  then show ?thesis unfolding h using assms(3) Domain n(2)
    by (simp add: read_vmess_address_def nth_append Let_def)
qed

lemma decode_built_plaintext:
  assumes "wire_ok dest" and "length iv = 16" and "length key = 16" and "length pad < 16"
    and "build_request_plaintext iv key v pad sec dest = Inr data"
  shows "decode_plaintext data = Inr \<lparr>vq_iv = iv, vq_key = key, vq_v = v, vq_options = 0x01, vq_security = sec, vq_dest = dest\<rparr>"
    "length data \<le> 400"
proof -
  define ps where "ps = push_bit 4 (of_nat (length pad)) OR security_byte sec"
  define pre where "pre = [0x01] @ iv @ key @ [v, 0x01, ps, 0x00, 0x01]"
  obtain host where h: "vmess_host dest = Inr host" using assms(5) by (cases "vmess_host dest") (auto simp: build_request_plaintext_def)
  define buf where "buf = pre @ host @ pad"
  have data: "data = buf @ to_be 4 (fnv32a buf)"
    using assms(5) h by (simp add: build_request_plaintext_def Let_def buf_def pre_def ps_def)
  have pre: "length pre = 38" using assms(2,3) by (simp add: pre_def)
  define post where "post = pad @ to_be 4 (fnv32a buf)"
  have d: "data = pre @ host @ post" by (simp add: data buf_def post_def)
  note r = read_vmess_host [OF assms(1) h pre, of post, folded d]
  have f: "data ! 0 = 1" "take 16 (drop 1 data) = iv" "take 16 (drop 17 data) = key" "data ! 33 = v" "data ! 34 = 0x01" "data ! 35 = ps" "data ! 37 = 0x01"
    using assms(2,3) by (simp_all add: d pre_def nth_append)
  have p: "unat (drop_bit 4 ps) = length pad" "security_try_from (ps AND 0x0F) = Inr sec"
    using pad_sec [OF assms(4), of sec] assms(4) by (simp_all add: ps_def security_round unat_of_nat_u8)
  have c: "length data = 38 + length host + length pad + 4" "take (38 + length host + length pad) data = buf"
      "drop (38 + length host + length pad) data = to_be 4 (fnv32a buf)"
    using pre by (simp_all add: data buf_def)
  show "decode_plaintext data = Inr \<lparr>vq_iv = iv, vq_key = key, vq_v = v, vq_options = 0x01, vq_security = sec, vq_dest = dest\<rparr>"
    unfolding decode_plaintext_def using r f p c
    by (simp add: from_be_to_be read_u32_be_def Let_def)
  have "length host \<le> 300" using h assms(1)
    by (cases dest) (auto simp: vmess_host_def domain_wire_len_eq_Inr bindE_eq_Inr)
  then show "length data \<le> 400" using c(1) assms(4) by simp
qed

lemma from_be_length16: "length d \<le> 400 \<Longrightarrow> unat (from_be (to_be 2 (of_nat (length d) :: u16)) :: u16) = length d"
  by (simp add: from_be_to_be unat_of_nat_u16)

lemma length_field_round:
  assumes "header_laws H" and "length d \<le> 400"
    and "vmess_aead_encrypt H (kdf H 16 ck [ascii ''VMess Header AEAD Key_Length'', auth_id, nonce]) (kdf H 12 ck [ascii ''VMess Header AEAD Nonce_Length'', auth_id, nonce])
      (to_be 2 (of_nat (length d) :: u16)) auth_id err = Inr enc"
  shows "length enc = 18" "decrypt_length_field H ck auth_id nonce enc = Inr (length d)"
proof -
  define l where "l = to_be 2 (of_nat (length d) :: u16)"
  have "length l = 2" by (simp add: l_def)
  then have ll: "length l = 2" "l = [l ! 0, l ! 1]" by (auto simp: length_Suc_conv numeral_2_eq_2)
  obtain ct where ct: "vmess_aead_encrypt H (kdf H 16 ck [ascii ''VMess Header AEAD Key_Length'', auth_id, nonce]) (kdf H 12 ck [ascii ''VMess Header AEAD Nonce_Length'', auth_id, nonce]) l auth_id err = Inr ct"
      "length ct = 18" "gcm_decrypt H (kdf H 16 ck [ascii ''VMess Header AEAD Key_Length'', auth_id, nonce]) (kdf H 12 ck [ascii ''VMess Header AEAD Nonce_Length'', auth_id, nonce]) ct auth_id = Some l"
    by (rule gcm_law [OF assms(1), of l "kdf H 16 ck [ascii ''VMess Header AEAD Key_Length'', auth_id, nonce]" "kdf H 12 ck [ascii ''VMess Header AEAD Nonce_Length'', auth_id, nonce]" auth_id])
       (use ll in \<open>simp_all add: vmess_aead_encrypt_def\<close>)
  have "enc = ct" using ct(1) assms(3) by (simp add: l_def)
  moreover have "unat (from_be [l ! 0, l ! 1] :: u16) = length d" using from_be_length16 [OF assms(2)] ll(2) by (simp add: l_def)
  ultimately show "length enc = 18" "decrypt_length_field H ck auth_id nonce enc = Inr (length d)"
    using ct ll(1) by (simp_all add: decrypt_length_field_def vmess_aead_decrypt_def)
qed

lemma client_request_read:
  assumes "header_laws H" and "wire_ok dest" and "length (hr_iv rnd) = 16" and "length (hr_key rnd) = 16" and "length (hr_nonce rnd) = 8"
    and "length (hr_pad rnd) < 16" and "length auth_rnd = 4" and "auth_id = generate_auth_id_at H ck client_now auth_rnd"
  obtains enc_len enc_header n where "vmess_client_request H ck dest client_now auth_rnd rnd = Inr (auth_id @ enc_len @ hr_nonce rnd @ enc_header)"
    "length auth_id = 16" "length enc_len = 18" "decrypt_length_field H ck auth_id (hr_nonce rnd) enc_len = Inr n"
    "\<And>rest. decode_header H ck auth_id (hr_nonce rnd) n (enc_header @ rest)
       = Inr (\<lparr>vq_iv = hr_iv rnd, vq_key = hr_key rnd, vq_v = hr_v rnd, vq_options = 0x01, vq_security = Aes128Gcm, vq_dest = dest\<rparr>, rest)"
proof -
  obtain host where "vmess_host dest = Inr host" using assms(2) by (cases dest) (auto simp: vmess_host_def)
  then obtain d where b: "build_request_plaintext (hr_iv rnd) (hr_key rnd) (hr_v rnd) (hr_pad rnd) Aes128Gcm dest = Inr d"
    by (simp add: build_request_plaintext_def Let_def)
  note dd = decode_built_plaintext [OF assms(2-4,6) b]
  define hk where "hk = kdf H 16 ck [ascii ''VMess Header AEAD Key'', auth_id, hr_nonce rnd]"
  define hn where "hn = kdf H 12 ck [ascii ''VMess Header AEAD Nonce'', auth_id, hr_nonce rnd]"
  obtain eh where eh: "gcm_encrypt H hk hn d auth_id = Some eh" "length eh = length d + 16" "gcm_decrypt H hk hn eh auth_id = Some d"
    by (rule gcm_law [OF assms(1), of d hk hn auth_id]) (use dd(2) in auto)
  define lk where "lk = kdf H 16 ck [ascii ''VMess Header AEAD Key_Length'', auth_id, hr_nonce rnd]"
  define ln where "ln = kdf H 12 ck [ascii ''VMess Header AEAD Nonce_Length'', auth_id, hr_nonce rnd]"
  obtain el where el: "vmess_aead_encrypt H lk ln (to_be 2 (of_nat (length d) :: u16)) auth_id ''VMess: header length encrypt failed'' = Inr el"
    by (rule gcm_law [OF assms(1), of "to_be 2 (of_nat (length d) :: u16)" lk ln auth_id]) (auto simp: vmess_aead_encrypt_def)
  note lf = length_field_round [OF assms(1) dd(2) el [unfolded lk_def ln_def]]
  have a: "length auth_id = 16" using assms(1,7,8) by (simp add: generate_auth_id_at_def Let_def header_laws_def)
  have "vmess_client_request H ck dest client_now auth_rnd rnd = Inr (auth_id @ el @ hr_nonce rnd @ eh)"
    using b eh(1) el
    by (simp add: vmess_client_request_def encode_header_def vmess_aead_encrypt_def hk_def hn_def lk_def ln_def Let_def flip: assms(8))
  moreover have "decode_header H ck auth_id (hr_nonce rnd) (length d) (eh @ rest)
      = Inr (\<lparr>vq_iv = hr_iv rnd, vq_key = hr_key rnd, vq_v = hr_v rnd, vq_options = 0x01, vq_security = Aes128Gcm, vq_dest = dest\<rparr>, rest)" for rest
    using eh(2,3) dd(1) by (simp add: decode_header_def wire_simps read_exact_def vmess_aead_decrypt_def hk_def hn_def)
  ultimately show thesis using that a lf by blast
qed

lemma find_by_auth_only:
  "map_of users ck = Some user \<Longrightarrow> (\<And>k. k \<in> fst ` set users \<Longrightarrow> validate_auth_id H k auth_id now MAX_TIME_DIFF_SECS \<longleftrightarrow> k = ck) \<Longrightarrow>
     find_by_auth H auth_id now users = Some user"
  by (induction users) (auto split: if_splits)

lemma response_round:
  assumes "header_laws H"
  obtains sent where "send_response_header H v key iv = Inr sent" "\<And>rest. read_response_header H v key iv (sent @ rest) = Inr ((), rest)"
proof -
  define lk ln hk hn where "lk = kdf H 16 key [ascii ''AEAD Resp Header Len Key'']" and "ln = kdf H 12 iv [ascii ''AEAD Resp Header Len IV'']"
    and "hk = kdf H 16 key [ascii ''AEAD Resp Header Key'']" and "hn = kdf H 12 iv [ascii ''AEAD Resp Header IV'']"
  have l: "to_be 2 (4 :: u16) = [0, 4]" by (simp add: to_be_eval)
  obtain el where el: "gcm_encrypt H lk ln [0, 4] [] = Some el" "length el = 18" "gcm_decrypt H lk ln el [] = Some [0, 4]"
    by (rule gcm_law [OF assms, of "[0, 4]" lk ln "[]"]) auto
  obtain eh where eh: "gcm_encrypt H hk hn [v, 0, 0, 0] [] = Some eh" "length eh = 20" "gcm_decrypt H hk hn eh [] = Some [v, 0, 0, 0]"
    by (rule gcm_law [OF assms, of "[v, 0, 0, 0]" hk hn "[]"]) auto
  have "unat (from_be [0, 4] :: u16) = 4" by (simp add: from_be_def)
  then have "read_response_header H v key iv ((el @ eh) @ rest) = Inr ((), rest)" for rest
    unfolding read_response_header_def lk_def [symmetric] ln_def [symmetric] hk_def [symmetric] hn_def [symmetric]
    using el eh by (simp add: wire_simps read_exact_def vmess_aead_decrypt_def)
  moreover have "send_response_header H v key iv = Inr (el @ eh)"
    unfolding send_response_header_def lk_def [symmetric] ln_def [symmetric] hk_def [symmetric] hn_def [symmetric] l
    using el eh by (simp add: vmess_aead_encrypt_def)
  ultimately show thesis using that by blast
qed

lemma inbound_accepts:
  assumes "header_laws H" and "wire_ok dest" and "length (hr_iv rnd) = 16" and "length (hr_key rnd) = 16" and "length (hr_nonce rnd) = 8"
    and "length (hr_pad rnd) < 16" and "length auth_rnd = 4" and "map_of users ck = Some user" and "vu_cmd_key user = ck"
    and "abs_diff now client_now \<le> MAX_TIME_DIFF_SECS"
    and "\<And>k. k \<in> fst ` set users \<Longrightarrow> validate_auth_id H k (generate_auth_id_at H ck client_now auth_rnd) now MAX_TIME_DIFF_SECS \<Longrightarrow> k = ck"
    and "vmess_client_request H ck dest client_now auth_rnd rnd = Inr request"
    and "send_response_header H (hr_v rnd) (response_body_key H (hr_key rnd)) (response_body_iv H (hr_iv rnd)) = Inr sent"
  shows "vmess_inbound_handle H users now (request @ early) = Inr (\<lparr>vn_user = vu_email user, vn_dest = dest,
      vn_stream = vmess_new_bidir (body_libs H) (hr_key rnd) (hr_iv rnd) (response_body_key H (hr_key rnd)) (response_body_iv H (hr_iv rnd)) Aes128Gcm 0x01,
      vn_sent = sent\<rparr>, early)"
proof -
  define auth_id where "auth_id = generate_auth_id_at H ck client_now auth_rnd"
  obtain enc_len enc_header n where r: "vmess_client_request H ck dest client_now auth_rnd rnd = Inr (auth_id @ enc_len @ hr_nonce rnd @ enc_header)"
    "length auth_id = 16" "length enc_len = 18" "decrypt_length_field H ck auth_id (hr_nonce rnd) enc_len = Inr n"
    "\<And>rest. decode_header H ck auth_id (hr_nonce rnd) n (enc_header @ rest)
       = Inr (\<lparr>vq_iv = hr_iv rnd, vq_key = hr_key rnd, vq_v = hr_v rnd, vq_options = 0x01, vq_security = Aes128Gcm, vq_dest = dest\<rparr>, rest)"
    by (rule client_request_read [OF assms(1-7) auth_id_def]) blast
  have "find_by_auth H auth_id now users = Some user"
    by (rule find_by_auth_only [OF assms(8)]) (use assms(10,11) validate_generated [OF assms(1,7)] in \<open>auto simp: auth_id_def\<close>)
  then show ?thesis
    using r assms(5,9,12,13) by (simp add: vmess_inbound_handle_def wire_simps read_exact_def Let_def)
qed

section \<open>The handshake\<close>

text \<open>
  Property C11. A VMess client and server agree: if the clocks differ by at most 120 seconds and no other user's key validates the
  authentication id, the server finds the user, dispatches to the client's destination and leaves what follows the header
  unread; the client accepts the server's response; and in both directions writer and reader have the same cipher, nonces and masks.
\<close>

theorem vmess_handshake_agrees:
  assumes "header_laws H" and "wire_ok dest" and "length (hr_iv rnd) = 16" and "length (hr_key rnd) = 16" and "length (hr_nonce rnd) = 8"
    and "length (hr_pad rnd) < 16" and "length auth_rnd = 4" and "map_of users ck = Some user" and "vu_cmd_key user = ck"
    and "abs_diff now client_now \<le> MAX_TIME_DIFF_SECS"
    and "\<And>k. k \<in> fst ` set users \<Longrightarrow> validate_auth_id H k (generate_auth_id_at H ck client_now auth_rnd) now MAX_TIME_DIFF_SECS \<Longrightarrow> k = ck"
  shows "\<exists>request session client. vmess_client_request H ck dest client_now auth_rnd rnd = Inr request
    \<and> vmess_inbound_handle H users now (request @ early) = Inr (session, early)
    \<and> vmess_client_finish H rnd (vn_sent session @ late) = Inr (client, late)
    \<and> vn_user session = vu_email user \<and> vn_dest session = dest
    \<and> vmess_synced (body_libs H) (cw_state (vs_writer client)) (cr_state (vs_reader (vn_stream session)))
    \<and> vmess_synced (body_libs H) (cw_state (vs_writer (vn_stream session))) (cr_state (vs_reader client))"
proof -
  obtain enc_len enc_header n where r: "vmess_client_request H ck dest client_now auth_rnd rnd
      = Inr (generate_auth_id_at H ck client_now auth_rnd @ enc_len @ hr_nonce rnd @ enc_header)"
    by (rule client_request_read [OF assms(1-7) refl]) blast
  obtain sent where s: "send_response_header H (hr_v rnd) (response_body_key H (hr_key rnd)) (response_body_iv H (hr_iv rnd)) = Inr sent"
      "\<And>rest. read_response_header H (hr_v rnd) (response_body_key H (hr_key rnd)) (response_body_iv H (hr_iv rnd)) (sent @ rest) = Inr ((), rest)"
    using response_round [OF assms(1)] by blast
  have f: "vmess_client_finish H rnd (sent @ late)
      = Inr (vmess_new_bidir (body_libs H) (response_body_key H (hr_key rnd)) (response_body_iv H (hr_iv rnd)) (hr_key rnd) (hr_iv rnd) Aes128Gcm 0, late)"
    using s(2) [of late] by (simp add: vmess_client_finish_def wire_simps Let_def)
  have "aead_laws (aes128 (body_libs H))" "aead_laws (chacha20 (body_libs H))" using assms(1) by (simp_all add: header_laws_def)
  then have y: "vmess_synced (body_libs H) (cw_state (vs_writer (vmess_new_bidir (body_libs H) a b key iv Aes128Gcm 0)))
        (cr_state (vs_reader (vmess_new_bidir (body_libs H) key iv c d Aes128Gcm 1)))"
      "vmess_synced (body_libs H) (cw_state (vs_writer (vmess_new_bidir (body_libs H) a b key iv Aes128Gcm 1)))
        (cr_state (vs_reader (vmess_new_bidir (body_libs H) key iv c d Aes128Gcm 0)))" for a b c d key iv
    by (simp_all add: vmess_synced_def vmess_new_bidir_def Let_def)
  show ?thesis
    by (rule exI, rule exI, rule exI, intro conjI, rule r, rule inbound_accepts [OF assms r s(1)]) (simp_all add: f, (rule y)+)
qed

definition demo_header :: vmess_header_libs where
  "demo_header = \<lparr>body_libs = demo_vmess, hmac_sha256 = (\<lambda>k m. m), sha256 = id, gcm_encrypt = (\<lambda>k n d aad. Some (d @ replicate 16 0)),
     gcm_decrypt = (\<lambda>k n ct aad. Some (take (length ct - 16) ct)), ecb_encrypt = (\<lambda>k b. rev b), ecb_decrypt = (\<lambda>k b. rev b), crc32 = (\<lambda>_. 0)\<rparr>"

lemma demo_header_laws: "header_laws demo_header"
  by (simp add: header_laws_def demo_header_def demo_vmess_def plain_aead_laws)

definition demo_random :: header_random where
  "demo_random = \<lparr>hr_iv = replicate 16 1, hr_key = replicate 16 2, hr_v = 3, hr_nonce = replicate 8 4, hr_pad = [5]\<rparr>"

definition demo_users :: "(bytes \<times> vmess_user) list" where
  "demo_users = [([7], \<lparr>vu_uuid = [6], vu_cmd_key = [7], vu_email = ascii ''a''\<rparr>)]"

theorem vmess_handshake_agrees_witness:
  "\<exists>request session. vmess_client_request demo_header [7] (Ipv4 5 80) 1000 [1, 2, 3, 4] demo_random = Inr request
    \<and> vmess_inbound_handle demo_header demo_users 1100 (request @ [9]) = Inr (session, [9]) \<and> vn_dest session = Ipv4 5 80"
  using vmess_handshake_agrees [OF demo_header_laws, of "Ipv4 5 80" demo_random "[1, 2, 3, 4]" demo_users "[7]"
      "\<lparr>vu_uuid = [6], vu_cmd_key = [7], vu_email = ascii ''a''\<rparr>" 1100 1000 "[9]" "[]"]
  by (auto simp: demo_random_def demo_users_def abs_diff_def)



section \<open>Hostile headers\<close>

lemma read_vmess_address_ok:
  assumes "pos \<le> length data"
  shows "read_vmess_address data pos atyp p \<noteq> Inl Panic"
    "read_vmess_address data pos atyp p = Inr (a, pos1) \<Longrightarrow> pos1 \<le> length data"
  using assms by (auto simp: read_vmess_address_def Let_def bindE_eq_Inl bindE_eq_Inr split: if_splits)

text \<open>No plaintext, whatever a holder of the key puts into it, makes the header decoder panic.\<close>

lemma decode_plaintext_no_panic: "decode_plaintext data \<noteq> Inl Panic"
proof -
  have i: "38 \<le> length data \<Longrightarrow> idx data 0 = Inr (data ! 0)" by (rule idx_in) linarith
  have "40 < length data \<Longrightarrow> read_vmess_address data 41 atyp p \<noteq> Inl Panic" for atyp p
    using read_vmess_address_ok(1) [of 41 data] by simp
  then show ?thesis
    by (auto simp: decode_plaintext_def bindE_eq_Inl Let_def security_try_from_def read_u32_be_def i split: if_splits)
qed

end
