(* ===== verification/UploadQueue.thy ===== *)
theory UploadQueue
  imports Prelude "HOL-Library.Sublist" "HOL-Library.List_Lexorder" "HOL-Library.Product_Lexorder"
begin

text \<open>
  The upload queue of the SplitHTTP \<^verbatim>\<open>packet-up\<close> mode (\<^verbatim>\<open>crates/blackwire-transport/src/splithttp_packet_up.rs\<close>): POST bodies
  arrive in any order on any connection and one reader returns them by sequence number. The queue and its reader run in
  different tasks; their interleaving is a step relation at the grain of the lock.
\<close>

section \<open>The queue\<close>

text \<open>
  A \<^verbatim>\<open>BinaryHeap\<close> of \<^verbatim>\<open>Reverse<(u64, Vec<u8>)>\<close> pops its least pair; it is kept as a sorted list. The reader's wake-up channel
  never closes, because the reader itself keeps the queue and thereby the sending end alive: it is the number of messages.
\<close>

type_synonym upload_packet = "u64 \<times> bytes"

record queue_state =
  qs_next :: u64
  qs_heap :: "upload_packet list"
  qs_pending :: bytes
  qs_closed :: bool
  qs_max :: nat

definition saturating_succ :: "u64 \<Rightarrow> u64" where
  "saturating_succ n = (if n = - 1 then n else n + 1)"

function fill_pending :: "queue_state \<Rightarrow> io_kind option \<times> queue_state" where
  "fill_pending q = (case qs_heap q of
      [] \<Rightarrow> (if qs_closed q \<and> qs_pending q = [] then Some UnexpectedEof else None, q)
    | (seq, payload) # rest \<Rightarrow>
        if seq = qs_next q
        then fill_pending (q\<lparr>qs_heap := rest, qs_pending := qs_pending q @ payload, qs_next := saturating_succ (qs_next q)\<rparr>)
        else if seq > qs_next q
        then if length rest \<ge> qs_max q then (Some OtherKind, q\<lparr>qs_heap := rest\<rparr>)
             else (None, q\<lparr>qs_heap := insort (seq, payload) rest\<rparr>)
        else fill_pending (q\<lparr>qs_heap := rest\<rparr>))"
  by pat_completeness auto

termination
  by (relation "measure (\<lambda>q. length (qs_heap q))") auto

declare fill_pending.simps [simp del]

definition upload_queue_new :: "nat \<Rightarrow> queue_state" where
  "upload_queue_new max_buffered = \<lparr>qs_next = 0, qs_heap = [], qs_pending = [], qs_closed = False,
     qs_max = (if max_buffered = 0 then 64 else max_buffered)\<rparr>"

definition upload_push :: "upload_packet \<Rightarrow> queue_state \<Rightarrow> io_kind option \<times> queue_state" where
  "upload_push p q = (if qs_closed q then (Some BrokenPipe, q) else (None, q\<lparr>qs_heap := insort p (qs_heap q)\<rparr>))"

definition upload_close :: "queue_state \<Rightarrow> queue_state" where
  "upload_close q = q\<lparr>qs_closed := True\<rparr>"

text \<open>What \<^verbatim>\<open>poll_read\<close> does while it holds the lock, with room for \<open>n\<close> bytes.\<close>

datatype read_result = Got bytes | End_of_stream | Read_failed io_kind | Wait_for_wake

definition locked_read :: "nat \<Rightarrow> queue_state \<Rightarrow> read_result \<times> queue_state" where
  "locked_read n q = (case fill_pending q of
      (Some UnexpectedEof, q1) \<Rightarrow> (End_of_stream, q1)
    | (Some e, q1) \<Rightarrow> (Read_failed e, q1)
    | (None, q1) \<Rightarrow>
        if qs_pending q1 \<noteq> [] then (Got (take n (qs_pending q1)), q1\<lparr>qs_pending := drop n (qs_pending q1)\<rparr>)
        else if qs_closed q1 then (End_of_stream, q1) else (Wait_for_wake, q1))"

section \<open>Session and number of a request\<close>

definition split_once :: "u8 \<Rightarrow> rstr \<Rightarrow> (rstr \<times> rstr) option" where
  "split_once c s = (case dropWhile (\<lambda>b. b \<noteq> c) s of [] \<Rightarrow> None | _ # rest \<Rightarrow> Some (takeWhile (\<lambda>b. b \<noteq> c) s, rest))"

fun split_on :: "u8 \<Rightarrow> rstr \<Rightarrow> rstr \<Rightarrow> rstr list" where
  "split_on c acc [] = [acc]"
| "split_on c acc (b # s) = (if b = c then acc # split_on c [] s else split_on c (acc @ [b]) s)"

abbreviation (input) "slash \<equiv> (0x2F :: u8)"
abbreviation (input) "question \<equiv> (0x3F :: u8)"

definition trim_end_slashes :: "rstr \<Rightarrow> rstr" where
  "trim_end_slashes s = rev (dropWhile (\<lambda>b. b = slash) (rev s))"

definition strip_prefix :: "rstr \<Rightarrow> rstr \<Rightarrow> rstr option" where
  "strip_prefix p s = (if prefix p s then Some (drop (length p) s) else None)"

definition normalized_path_prefix :: "rstr \<Rightarrow> rstr" where
  "normalized_path_prefix path =
     (let path = takeWhile (\<lambda>b. b \<noteq> question) path;
          p = if prefix [slash] path then path else slash # path
      in if suffix [slash] p then p else p @ [slash])"

definition query_pair :: "rstr \<times> rstr \<Rightarrow> rstr \<Rightarrow> rstr \<times> rstr" where
  "query_pair = (\<lambda>(session, seq) pair. case split_once 0x3D pair of
      None \<Rightarrow> (session, seq)
    | Some (k, v) \<Rightarrow> (if k = ascii ''x_session'' \<and> session = [] then v else session, if k = ascii ''x_seq'' \<and> seq = [] then v else seq))"

definition extract_session_seq :: "rstr \<Rightarrow> rstr \<Rightarrow> rstr \<times> rstr" where
  "extract_session_seq path_and_query base_path =
     (let (path_only, query) = (case split_once question path_and_query of Some pq \<Rightarrow> pq | None \<Rightarrow> (path_and_query, []));
          p = normalized_path_prefix base_path;
          rest = dropWhile (\<lambda>b. b = slash) (case strip_prefix (trim_end_slashes p) path_only of Some r \<Rightarrow> r | None \<Rightarrow> path_only);
          parts = filter (\<lambda>s. s \<noteq> []) (split_on slash [] rest);
          session = (case parts of s # _ \<Rightarrow> s | [] \<Rightarrow> []);
          seq = (case parts of _ # s # _ \<Rightarrow> s | _ \<Rightarrow> [])
      in foldl query_pair (session, seq) (filter (\<lambda>s. s \<noteq> []) (split_on 0x26 [] query)))"

section \<open>Tasks around the queue\<close>

text \<open>
  Producers take the lock, push or close, release it and then send a wake-up. The reader first tries the lock and lets it go
  (\<open>Checking\<close>), then takes it (\<open>Taking\<close>); if it has nothing to return it waits for a wake-up (\<open>Waiting\<close>) or returns
  pending (\<open>Parked\<close>). \<open>up_pushed\<close> and \<open>up_read\<close> record what was pushed and read, \<open>up_lost\<close> whether a read failed.
\<close>

datatype reader_at = Resting | Parked | Checking nat | Taking nat | Waiting nat | Panicked

record upload =
  up_queue :: queue_state
  up_locked :: bool
  up_bumps :: nat
  up_wakes :: nat
  up_reader :: reader_at
  up_pushed :: "upload_packet list"
  up_read :: bytes
  up_lost :: bool

definition upload_start :: "nat \<Rightarrow> upload" where
  "upload_start max_buffered = \<lparr>up_queue = upload_queue_new max_buffered, up_locked = False, up_bumps = 0, up_wakes = 0,
     up_reader = Resting, up_pushed = [], up_read = [], up_lost = False\<rparr>"

definition after_read :: "nat \<Rightarrow> upload \<Rightarrow> upload" where
  "after_read n s = (case locked_read n (up_queue s) of
      (Got b, q) \<Rightarrow> s\<lparr>up_queue := q, up_reader := Resting, up_read := up_read s @ b\<rparr>
    | (End_of_stream, q) \<Rightarrow> s\<lparr>up_queue := q, up_reader := Resting\<rparr>
    | (Read_failed _, q) \<Rightarrow> s\<lparr>up_queue := q, up_reader := Resting, up_lost := True\<rparr>
    | (Wait_for_wake, q) \<Rightarrow> s\<lparr>up_queue := q, up_reader := Waiting n\<rparr>)"

inductive upload_step :: "upload \<Rightarrow> upload \<Rightarrow> bool" where
  producer_locks: "\<not> up_locked s \<Longrightarrow> upload_step s (s\<lparr>up_locked := True\<rparr>)"
| producer_pushes: "up_locked s \<Longrightarrow> upload_push p (up_queue s) = (None, q) \<Longrightarrow>
    upload_step s (s\<lparr>up_queue := q, up_locked := False, up_bumps := up_bumps s + 1, up_pushed := p # up_pushed s\<rparr>)"
| producer_refused: "up_locked s \<Longrightarrow> upload_push p (up_queue s) = (Some e, q) \<Longrightarrow> upload_step s (s\<lparr>up_queue := q, up_locked := False\<rparr>)"
| producer_closes: "up_locked s \<Longrightarrow>
    upload_step s (s\<lparr>up_queue := upload_close (up_queue s), up_locked := False, up_bumps := up_bumps s + 1\<rparr>)"
| producer_wakes: "up_bumps s = Suc b \<Longrightarrow> upload_step s (s\<lparr>up_bumps := b, up_wakes := up_wakes s + 1\<rparr>)"
| reader_polled: "up_reader s \<in> {Resting, Parked} \<Longrightarrow> 0 < n \<Longrightarrow> upload_step s (s\<lparr>up_reader := Checking n\<rparr>)"
| reader_finds_free: "up_reader s = Checking n \<Longrightarrow> \<not> up_locked s \<Longrightarrow> upload_step s (s\<lparr>up_reader := Taking n\<rparr>)"
| reader_finds_held: "up_reader s = Checking n \<Longrightarrow> up_locked s \<Longrightarrow> up_wakes s = Suc w \<Longrightarrow> upload_step s (s\<lparr>up_wakes := w\<rparr>)"
| reader_parks_held: "up_reader s = Checking n \<Longrightarrow> up_locked s \<Longrightarrow> up_wakes s = 0 \<Longrightarrow> upload_step s (s\<lparr>up_reader := Parked\<rparr>)"
| reader_takes: "up_reader s = Taking n \<Longrightarrow> \<not> up_locked s \<Longrightarrow> upload_step s (after_read n s)"
| reader_panics: "up_reader s = Taking n \<Longrightarrow> up_locked s \<Longrightarrow> upload_step s (s\<lparr>up_reader := Panicked\<rparr>)"
| reader_woken: "up_reader s = Waiting n \<Longrightarrow> up_wakes s = Suc w \<Longrightarrow> upload_step s (s\<lparr>up_wakes := w, up_reader := Checking n\<rparr>)"
| reader_parks: "up_reader s = Waiting n \<Longrightarrow> up_wakes s = 0 \<Longrightarrow> upload_step s (s\<lparr>up_reader := Parked\<rparr>)"

section \<open>What a fill does\<close>

text \<open>
  The pushed packets have numbers below the largest and one body per number, \<open>body\<close>. Then filling moves the packets with the
  next numbers, in order, and forgets only repetitions.
\<close>

definition bodies :: "(u64 \<Rightarrow> bytes) \<Rightarrow> u64 \<Rightarrow> bytes" where
  "bodies body n = concat (map (\<lambda>i. body (of_nat i)) [0..<unat n])"

definition consistent :: "(u64 \<Rightarrow> bytes) \<Rightarrow> upload_packet list \<Rightarrow> bool" where
  "consistent body = list_all (\<lambda>(seq, p). p = body seq \<and> seq \<noteq> - 1)"

lemma consistent_simps [simp]:
  "consistent body []" "consistent body ((seq, p) # ps) \<longleftrightarrow> p = body seq \<and> seq \<noteq> - 1 \<and> consistent body ps"
  by (simp_all add: consistent_def)

lemma unat_saturating_succ: "n \<noteq> - 1 \<Longrightarrow> unat (saturating_succ n) = Suc (unat n)"
  using unatSuc [of n] by (simp add: saturating_succ_def add.commute eq_neg_iff_add_eq_0)

lemma bodies_Suc: "n \<noteq> - 1 \<Longrightarrow> bodies body (saturating_succ n) = bodies body n @ body n"
  by (simp add: bodies_def unat_saturating_succ)

lemma bodies_prefix: "m \<le> n \<Longrightarrow> prefix (bodies body m) (bodies body n)"
proof -
  assume "m \<le> n"
  then have "[0..<unat n] = [0..<unat m] @ [unat m..<unat n]"
    using upt_add_eq_append [of 0 "unat m" "unat n - unat m"] by (simp add: word_le_nat_alt)
  then show ?thesis by (simp add: bodies_def)
qed

definition queue_inv :: "(u64 \<Rightarrow> bytes) \<Rightarrow> upload_packet list \<Rightarrow> bytes \<Rightarrow> queue_state \<Rightarrow> bool" where
  "queue_inv body ps rd q \<longleftrightarrow> sorted (qs_heap q) \<and> set (qs_heap q) \<subseteq> set ps \<and> rd @ qs_pending q = bodies body (qs_next q)
    \<and> (\<forall>i < qs_next q. (i, body i) \<in> set ps)"

lemma fst_mono: "(a :: upload_packet) \<le> b \<Longrightarrow> fst a \<le> fst b"
  by (auto simp: less_eq_prod_def)

lemma queue_inv_take:
  assumes "consistent body ps" and "queue_inv body ps rd q" and "qs_heap q = (qs_next q, payload) # rest"
  shows "queue_inv body ps rd (q\<lparr>qs_heap := rest, qs_pending := qs_pending q @ payload, qs_next := saturating_succ (qs_next q)\<rparr>)"
    "qs_next q < saturating_succ (qs_next q)"
proof -
  have m: "(qs_next q, payload) \<in> set ps" using assms(2,3) by (auto simp: queue_inv_def)
  then have p: "payload = body (qs_next q)" "qs_next q \<noteq> - 1" using assms(1) by (auto simp: consistent_def list_all_iff)
  have "i < qs_next q \<or> i = qs_next q" if "i < saturating_succ (qs_next q)" for i
    using that unat_saturating_succ [OF p(2)] by (auto simp: word_less_nat_alt less_Suc_eq word_unat_eq_iff)
  then have "\<forall>i < saturating_succ (qs_next q). (i, body i) \<in> set ps" using assms(2) m p(1) unfolding queue_inv_def by metis
  then show "queue_inv body ps rd (q\<lparr>qs_heap := rest, qs_pending := qs_pending q @ payload, qs_next := saturating_succ (qs_next q)\<rparr>)"
    using assms(2,3) m p bodies_Suc [OF p(2)] by (auto simp: queue_inv_def simp flip: append_assoc)
  show "qs_next q < saturating_succ (qs_next q)" using unat_saturating_succ [OF p(2)] by (simp add: word_less_nat_alt)
qed

lemma fill_pending_inv:
  assumes "consistent body ps" and "queue_inv body ps rd q" and "fill_pending q = (r, q1)"
  shows "queue_inv body ps rd q1 \<and> qs_next q \<le> qs_next q1 \<and> qs_closed q1 = qs_closed q \<and> qs_max q1 = qs_max q
    \<and> (\<forall>b. (qs_next q1, b) \<notin> set (qs_heap q)) \<and> set (qs_heap q1) \<subseteq> set (qs_heap q)
    \<and> (r \<noteq> Some OtherKind \<longrightarrow> (\<forall>x \<in> set (qs_heap q). qs_next q1 \<le> fst x \<longrightarrow> x \<in> set (qs_heap q1)))"
  using assms(2,3)
proof (induction q rule: fill_pending.induct)
  case (1 q)
  show ?case
  proof (cases "qs_heap q")
    case Nil
    then show ?thesis using "1.prems" by (auto simp: fill_pending.simps [of q])
  next
    case (Cons x rest)
    obtain seq payload where x: "x = (seq, payload)" by (cases x)
    have s: "sorted (x # rest)" using "1.prems"(1) Cons by (simp add: queue_inv_def)
    then have ge: "\<forall>y \<in> set rest. seq \<le> fst y" using fst_mono [of x] x by auto
    consider "seq = qs_next q" | "qs_next q < seq" | "seq < qs_next q" by (metis linorder_neqE)
    then show ?thesis
    proof cases
      case 1
      note t = queue_inv_take [OF assms(1) "1.prems"(1) Cons [unfolded x 1]]
      have e: "fill_pending q = fill_pending (q\<lparr>qs_heap := rest, qs_pending := qs_pending q @ payload, qs_next := saturating_succ (qs_next q)\<rparr>)"
        by (simp add: fill_pending.simps [of q] Cons x 1)
      have ih: "fill_pending (q\<lparr>qs_heap := rest, qs_pending := qs_pending q @ payload, qs_next := saturating_succ (qs_next q)\<rparr>) = (r, q1)"
        using "1.prems"(2) e by simp
      show ?thesis using "1.IH"(1) [OF Cons x [symmetric] 1 t(1) ih] t(2) Cons x 1 by auto
    next
      case 2
      have "\<forall>b. (qs_next q, b) \<notin> set (x # rest)" using 2 x ge by auto
      moreover have "insort x rest = x # rest" using s by (simp add: insort_is_Cons)
      moreover have "sorted rest" using s by simp
      ultimately show ?thesis using "1.prems" 2 Cons x
        by (subst (asm) fill_pending.simps) (auto simp: queue_inv_def split: if_splits)
    next
      case 3
      have "queue_inv body ps rd (q\<lparr>qs_heap := rest\<rparr>)" using "1.prems"(1) Cons by (simp add: queue_inv_def)
      moreover have "fill_pending (q\<lparr>qs_heap := rest\<rparr>) = (r, q1)"
        using "1.prems"(2) 3 by (simp add: fill_pending.simps [of q] Cons x order_less_imp_not_eq order_less_not_sym)
      moreover have "seq \<noteq> qs_next q" "\<not> qs_next q < seq" using 3 by auto
      ultimately have ih: "queue_inv body ps rd q1 \<and> qs_next q \<le> qs_next q1 \<and> qs_closed q1 = qs_closed q \<and> qs_max q1 = qs_max q
          \<and> (\<forall>b. (qs_next q1, b) \<notin> set rest) \<and> set (qs_heap q1) \<subseteq> set rest
          \<and> (r \<noteq> Some OtherKind \<longrightarrow> (\<forall>x \<in> set rest. qs_next q1 \<le> fst x \<longrightarrow> x \<in> set (qs_heap q1)))"
        using "1.IH"(2) [OF Cons x [symmetric]] by simp
      then have "\<not> qs_next q1 \<le> seq" using 3 by auto
      then show ?thesis using ih Cons x by auto
    qed
  qed
qed

section \<open>Every interleaving\<close>

abbreviation (input) "upload_reaches max_buffered \<equiv> upload_step\<^sup>*\<^sup>* (upload_start max_buffered)"

text \<open>What is in the queue and read fits what was pushed; nothing at or above the next number is lost while no read has failed.\<close>

definition upload_inv :: "(u64 \<Rightarrow> bytes) \<Rightarrow> upload \<Rightarrow> bool" where
  "upload_inv body s \<longleftrightarrow> (consistent body (up_pushed s) \<longrightarrow> queue_inv body (up_pushed s) (up_read s) (up_queue s)
    \<and> (\<not> up_lost s \<longrightarrow> (\<forall>x \<in> set (up_pushed s). qs_next (up_queue s) \<le> fst x \<longrightarrow> x \<in> set (qs_heap (up_queue s)))))"

lemma locked_read_inv:
  assumes "consistent body ps" and "queue_inv body ps rd q" and "locked_read n q = (res, q1)"
  shows "queue_inv body ps (rd @ (case res of Got b \<Rightarrow> b | _ \<Rightarrow> [])) q1 \<and> qs_next q \<le> qs_next q1
    \<and> ((\<forall>e. res \<noteq> Read_failed e) \<longrightarrow> (\<forall>x \<in> set (qs_heap q). qs_next q1 \<le> fst x \<longrightarrow> x \<in> set (qs_heap q1)))
    \<and> (res = Wait_for_wake \<longrightarrow> qs_pending q1 = [] \<and> (\<forall>b. (qs_next q1, b) \<notin> set (qs_heap q1)) \<and> \<not> qs_closed q1)"
proof -
  obtain r q2 where f: "fill_pending q = (r, q2)" by (cases "fill_pending q")
  note i = fill_pending_inv [OF assms(1,2) f]
  have n: "\<forall>b. (qs_next q2, b) \<notin> set (qs_heap q2)" using i by blast
  have t: "queue_inv body ps (rd @ take n (qs_pending q2)) (q2\<lparr>qs_pending := drop n (qs_pending q2)\<rparr>)" using i by (simp add: queue_inv_def)
  show ?thesis
  proof (cases r)
    case None
    then show ?thesis using i n t assms(3) f by (cases "qs_pending q2 = []"; cases "qs_closed q2") (auto simp: locked_read_def)
  next
    case (Some e)
    then show ?thesis using i assms(3) f by (cases e) (auto simp: locked_read_def)
  qed
qed

lemma upload_inv_step: "upload_step s s' \<Longrightarrow> upload_inv body s \<Longrightarrow> upload_inv body s'"
proof (induction rule: upload_step.induct)
  case (producer_pushes s p q)
  then have q: "q = (up_queue s)\<lparr>qs_heap := insort p (qs_heap (up_queue s))\<rparr>" by (auto simp: upload_push_def split: if_splits)
  show ?case using producer_pushes.prems
    by (cases p) (auto simp: upload_inv_def queue_inv_def q sorted_insort set_insort_key)
next
  case (producer_refused s p e q)
  then show ?case by (auto simp: upload_push_def upload_inv_def split: if_splits)
next
  case (reader_takes s n)
  obtain res q1 where r: "locked_read n (up_queue s) = (res, q1)" by (cases "locked_read n (up_queue s)")
  show ?case
    using reader_takes.prems locked_read_inv [OF _ _ r, of body "up_pushed s" "up_read s"]
    by (cases res) (auto simp: upload_inv_def after_read_def r dest: order_trans)
qed (auto simp: upload_inv_def queue_inv_def upload_close_def)

lemma upload_inv_reached: "upload_reaches m s \<Longrightarrow> upload_inv body s"
proof (induction rule: rtranclp_induct)
  case base
  show ?case by (simp add: upload_inv_def upload_start_def upload_queue_new_def queue_inv_def bodies_def)
qed (rule upload_inv_step)

text \<open>
  Property C17. For every interleaving of the pushing connections and the reader, if the packets have one body per number, the
  bytes read so far are the beginning of the bodies 0, 1, 2, ... in order, each once; all these packets were pushed; and as
  long as no read has failed, a read that gets the lock leaves no gap unfilled: if packets 0 to \<open>m - 1\<close> have been pushed, all of
  their bytes have been read or are pending afterwards.
\<close>

theorem upload_queue_in_order:
  assumes "upload_reaches max_buffered s" and "consistent body (up_pushed s)"
  shows "prefix (up_read s) (bodies body (qs_next (up_queue s)))
    \<and> (\<forall>i < qs_next (up_queue s). (i, body i) \<in> set (up_pushed s))
    \<and> (\<not> up_lost s \<and> (\<forall>i < m. (i, body i) \<in> set (up_pushed s)) \<longrightarrow>
         prefix (bodies body m) (up_read (after_read n s) @ qs_pending (up_queue (after_read n s))))"
proof -
  note i = upload_inv_reached [OF assms(1), of body, unfolded upload_inv_def, rule_format, OF assms(2)]
  have q: "queue_inv body (up_pushed s) (up_read s) (up_queue s)" using i by blast
  have "prefix (bodies body m) (up_read (after_read n s) @ qs_pending (up_queue (after_read n s)))"
    if l: "\<not> up_lost s" and all: "\<forall>i < m. (i, body i) \<in> set (up_pushed s)"
  proof -
    obtain r q2 where f: "fill_pending (up_queue s) = (r, q2)" by (cases "fill_pending (up_queue s)")
    note fi = fill_pending_inv [OF assms(2) q f]
    have "m \<le> qs_next q2"
    proof (rule ccontr)
      assume "\<not> m \<le> qs_next q2"
      then have "(qs_next q2, body (qs_next q2)) \<in> set (up_pushed s)" using all by (simp add: not_le)
      then have "(qs_next q2, body (qs_next q2)) \<in> set (qs_heap (up_queue s))" using i l fi by auto
      then show False using fi by blast
    qed
    moreover have "up_read (after_read n s) @ qs_pending (up_queue (after_read n s)) = up_read s @ qs_pending q2"
      by (auto simp: after_read_def locked_read_def f split: option.split io_kind.split)
    ultimately show ?thesis using fi bodies_prefix [of m "qs_next q2" body] by (simp add: queue_inv_def)
  qed
  then show ?thesis using q unfolding queue_inv_def by (metis prefixI)
qed

lemma push_reached:
  assumes "upload_reaches m s" and "\<not> up_locked s" and "\<not> qs_closed (up_queue s)"
  shows "upload_reaches m (s\<lparr>up_queue := (up_queue s)\<lparr>qs_heap := insort p (qs_heap (up_queue s))\<rparr>, up_bumps := up_bumps s + 1, up_pushed := p # up_pushed s\<rparr>)"
proof -
  have l: "upload_step s (s\<lparr>up_locked := True\<rparr>)" using assms(2) by (rule producer_locks)
  have "upload_push p (up_queue (s\<lparr>up_locked := True\<rparr>)) = (None, (up_queue s)\<lparr>qs_heap := insort p (qs_heap (up_queue s))\<rparr>)"
    using assms(3) by (simp add: upload_push_def)
  from producer_pushes [OF _ this] have "upload_step (s\<lparr>up_locked := True\<rparr>)
      (s\<lparr>up_queue := (up_queue s)\<lparr>qs_heap := insort p (qs_heap (up_queue s))\<rparr>, up_locked := False, up_bumps := up_bumps s + 1, up_pushed := p # up_pushed s\<rparr>)"
    by simp
  moreover have "s\<lparr>up_queue := q, up_locked := False, up_bumps := b, up_pushed := ps\<rparr> = s\<lparr>up_queue := q, up_bumps := b, up_pushed := ps\<rparr>" for q b ps
    using assms(2) by (cases s) simp
  ultimately show ?thesis using rtranclp.rtrancl_into_rtrancl [OF rtranclp.rtrancl_into_rtrancl [OF assms(1) l]] by simp
qed

lemma u64_less_2: "(i :: u64) < 2 \<longleftrightarrow> i = 0 \<or> i = 1"
  by (auto simp: word_less_nat_alt word_unat_eq_iff)

definition demo_upload :: upload where
  "demo_upload = (upload_start 8)\<lparr>up_queue := (upload_queue_new 8)\<lparr>qs_heap := [(0, [65]), (1, [66])]\<rparr>, up_bumps := 2, up_pushed := [(0, [65]), (1, [66])]\<rparr>"

lemma demo_upload_reached: "upload_reaches 8 demo_upload"
proof -
  have s: "\<not> up_locked (upload_start 8)" "\<not> qs_closed (up_queue (upload_start 8))" by (simp_all add: upload_start_def upload_queue_new_def)
  note a = push_reached [OF rtranclp.rtrancl_refl s, of "(1, [66])"]
  show ?thesis using push_reached [OF a, of "(0, [65])"]
    by (simp add: upload_start_def upload_queue_new_def demo_upload_def numeral_2_eq_2)
qed

theorem upload_queue_in_order_witness:
  "prefix [65, 66] (up_read (after_read 4 demo_upload) @ qs_pending (up_queue (after_read 4 demo_upload)))"
proof -
  have p: "up_pushed demo_upload = [(0, [65]), (1, [66])]" "\<not> up_lost demo_upload" by (simp_all add: demo_upload_def upload_start_def)
  have "bodies (\<lambda>i. [if i = 0 then 65 else 66]) 2 = [65, 66]" by (simp add: bodies_def upt_rec [of 0 2] upt_rec [of "Suc 0" 2])
  then show ?thesis
    using upload_queue_in_order [OF demo_upload_reached, of "\<lambda>i. [if i = 0 then 65 else 66]" 2 4] p by (simp add: u64_less_2)
qed

text \<open>A reader that returned pending and has data to return is about to be woken, unless the queue was closed.\<close>

lemma fill_pending_gap:
  "sorted (qs_heap q) \<Longrightarrow> fill_pending q = (r, q1) \<Longrightarrow>
     sorted (qs_heap q1) \<and> qs_closed q1 = qs_closed q \<and> (r = None \<longrightarrow> (\<forall>b. (qs_next q1, b) \<notin> set (qs_heap q1)))"
proof (induction q rule: fill_pending.induct)
  case (1 q)
  show ?case
  proof (cases "qs_heap q")
    case Nil
    then show ?thesis using "1.prems" by (auto simp: fill_pending.simps [of q])
  next
    case (Cons x rest)
    obtain seq payload where x: "x = (seq, payload)" by (cases x)
    have s: "sorted (x # rest)" using "1.prems"(1) Cons by simp
    then have ge: "\<forall>y \<in> set rest. seq \<le> fst y" using fst_mono [of x] x by auto
    have i: "insort x rest = x # rest" using s by (simp add: insort_is_Cons)
    show ?thesis
    proof (cases "seq > qs_next q")
      case True
      then have "\<forall>b. (qs_next q, b) \<notin> set (x # rest)" using ge x by auto
      then show ?thesis using True "1.prems"(2) Cons x i s
        by (subst (asm) fill_pending.simps) (auto split: if_splits)
    next
      case False
      have "sorted rest" using s by simp
      then show ?thesis
        using "1.IH" [OF Cons x [symmetric]] "1.prems"(2) False Cons x
        by (cases "seq = qs_next q") (simp_all add: fill_pending.simps [of q])
    qed
  qed
qed

definition data_ready :: "queue_state \<Rightarrow> bool" where
  "data_ready q \<longleftrightarrow> qs_pending q \<noteq> [] \<or> list_ex (\<lambda>(seq, _). seq = qs_next q) (qs_heap q)"

definition asleep :: "reader_at \<Rightarrow> bool" where
  "asleep r \<longleftrightarrow> (case r of Parked \<Rightarrow> True | Waiting _ \<Rightarrow> True | _ \<Rightarrow> False)"

definition wake_inv :: "upload \<Rightarrow> bool" where
  "wake_inv s \<longleftrightarrow> sorted (qs_heap (up_queue s)) \<and>
     (asleep (up_reader s) \<and> data_ready (up_queue s) \<and> \<not> qs_closed (up_queue s) \<longrightarrow> up_locked s \<or> 0 < up_bumps s \<or> 0 < up_wakes s)"

lemma wait_not_ready:
  assumes "locked_read n q = (res, q1)" and "sorted (qs_heap q)"
  shows "sorted (qs_heap q1) \<and> (res = Wait_for_wake \<longrightarrow> \<not> data_ready q1)"
proof -
  obtain r q2 where f: "fill_pending q = (r, q2)" by (cases "fill_pending q")
  note g = fill_pending_gap [OF assms(2) f]
  show ?thesis
  proof (cases r)
    case None
    then show ?thesis using g assms(1) f
      by (cases "qs_pending q2 = []"; cases "qs_closed q2") (auto simp: locked_read_def data_ready_def list_ex_iff)
  next
    case (Some e)
    then show ?thesis using g assms(1) f by (cases e) (auto simp: locked_read_def)
  qed
qed

lemma wake_inv_step: "upload_step s s' \<Longrightarrow> wake_inv s \<Longrightarrow> wake_inv s'"
proof (induction rule: upload_step.induct)
  case (producer_pushes s p q)
  then have "q = (up_queue s)\<lparr>qs_heap := insort p (qs_heap (up_queue s))\<rparr>" by (auto simp: upload_push_def split: if_splits)
  then show ?case using producer_pushes.prems by (simp add: wake_inv_def sorted_insort)
next
  case (producer_refused s p e q)
  then show ?case by (auto simp: upload_push_def wake_inv_def split: if_splits)
next
  case (reader_takes s n)
  obtain res q1 where r: "locked_read n (up_queue s) = (res, q1)" by (cases "locked_read n (up_queue s)")
  show ?case using reader_takes.prems wait_not_ready [OF r]
    by (cases res) (auto simp: wake_inv_def after_read_def r asleep_def)
qed (auto simp: wake_inv_def asleep_def upload_close_def)

text \<open>
  Property C32. No wake-up is lost: in every reachable state in which the reader has returned pending although it could return
  data, a producer holds the lock, or has still to send its wake-up, or a wake-up waits in the channel, unless the queue was
  closed.
\<close>

theorem upload_no_lost_wakeup:
  assumes "upload_reaches max_buffered s" and "up_reader s = Parked" and "data_ready (up_queue s)" and "\<not> qs_closed (up_queue s)"
  shows "up_locked s \<or> 0 < up_bumps s \<or> 0 < up_wakes s"
proof -
  have "wake_inv s" using assms(1)
  proof (induction rule: rtranclp_induct)
    case base
    show ?case by (simp add: wake_inv_def upload_start_def upload_queue_new_def asleep_def)
  qed (rule wake_inv_step)
  then show ?thesis using assms(2-4) by (simp add: wake_inv_def asleep_def)
qed

text \<open>The reader polls an empty queue and parks; then a packet is pushed.\<close>

lemma poll_empty_parks:
  "upload_reaches m ((upload_start m)\<lparr>up_reader := Parked\<rparr>)"
proof -
  have f: "fill_pending (upload_queue_new m) = (None, upload_queue_new m)"
    by (simp add: fill_pending.simps upload_queue_new_def)
  define s where "s = upload_start m"
  have "upload_step s (s\<lparr>up_reader := Checking 1\<rparr>)" by (rule reader_polled) (simp_all add: s_def upload_start_def)
  moreover have "upload_step (s\<lparr>up_reader := Checking 1\<rparr>) (s\<lparr>up_reader := Taking 1\<rparr>)"
    using reader_finds_free [of "s\<lparr>up_reader := Checking 1\<rparr>" 1] by (simp add: s_def upload_start_def)
  moreover have "upload_step (s\<lparr>up_reader := Taking 1\<rparr>) (s\<lparr>up_reader := Waiting 1\<rparr>)"
    using reader_takes [of "s\<lparr>up_reader := Taking 1\<rparr>" 1]
    by (simp add: s_def upload_start_def after_read_def locked_read_def f) (simp add: upload_queue_new_def)
  moreover have "upload_step (s\<lparr>up_reader := Waiting 1\<rparr>) (s\<lparr>up_reader := Parked\<rparr>)"
    using reader_parks [of "s\<lparr>up_reader := Waiting 1\<rparr>" 1] by (simp add: s_def upload_start_def)
  ultimately show ?thesis unfolding s_def by (meson rtranclp.rtrancl_into_rtrancl rtranclp.rtrancl_refl)
qed

theorem upload_no_lost_wakeup_witness:
  "\<exists>s. upload_reaches 8 s \<and> up_reader s = Parked \<and> data_ready (up_queue s) \<and> \<not> up_locked s \<and> (0 < up_bumps s \<or> 0 < up_wakes s)"
proof -
  define s where "s = (upload_start 8)\<lparr>up_reader := Parked, up_queue := (upload_queue_new 8)\<lparr>qs_heap := [(0, [65])]\<rparr>, up_bumps := 1, up_pushed := [(0, [65])]\<rparr>"
  have r: "upload_reaches 8 s"
    using push_reached [OF poll_empty_parks, of 8 "(0, [65])"] by (simp add: s_def upload_start_def upload_queue_new_def)
  have "up_reader s = Parked" "data_ready (up_queue s)" "\<not> qs_closed (up_queue s)" "\<not> up_locked s"
    by (simp_all add: s_def data_ready_def upload_start_def upload_queue_new_def)
  then show ?thesis using upload_no_lost_wakeup [OF r] r by blast
qed


text \<open>
  A packet above a gap is lost when the reader finds more packets than it may buffer: it has been taken from the heap, and the
  queue fails from then on at its number even if the gap is filled.
\<close>

lemma overflow_drops_packet:
  assumes "qs_heap q = (seq, p) # rest" and "qs_next q < seq" and "qs_max q \<le> length rest"
  shows "fill_pending q = (Some OtherKind, q\<lparr>qs_heap := rest\<rparr>)"
  using assms by (subst fill_pending.simps) auto

text \<open>Session and number written into the path behind the configured prefix are found there.\<close>

lemma split_on_piece: "c \<notin> set s \<Longrightarrow> split_on c acc (s @ c # rest) = (acc @ s) # split_on c [] rest"
  by (induction s arbitrary: acc) auto

lemma split_on_last: "c \<notin> set s \<Longrightarrow> split_on c acc s = [acc @ s]"
  by (induction s arbitrary: acc) auto

lemma split_once_None: "c \<notin> set s \<Longrightarrow> split_once c s = None"
proof -
  assume "c \<notin> set s"
  then have d: "dropWhile (\<lambda>b. b \<noteq> c) s = []" by (auto simp: dropWhile_eq_Nil_conv)
  show ?thesis unfolding split_once_def d by simp
qed

lemma prefix_no_question: "question \<notin> set (trim_end_slashes (normalized_path_prefix base))"
  by (auto simp: trim_end_slashes_def normalized_path_prefix_def Let_def dest!: set_dropWhileD set_takeWhileD)

lemma extract_path_round_trip:
  assumes "session \<noteq> []" and "seq \<noteq> []" and "{slash, question} \<inter> set session = {}" and "{slash, question} \<inter> set seq = {}"
  shows "extract_session_seq (trim_end_slashes (normalized_path_prefix base) @ slash # session @ slash # seq) base = (session, seq)"
proof -
  define t where "t = trim_end_slashes (normalized_path_prefix base)"
  have n: "split_once question (t @ slash # session @ slash # seq) = None"
    by (rule split_once_None) (use assms(3,4) prefix_no_question [of base] in \<open>auto simp: t_def\<close>)
  have h: "dropWhile (\<lambda>b. b = slash) (slash # session @ slash # seq) = session @ slash # seq"
    using assms(1,3) by (cases session) auto
  have s: "split_on slash [] (session @ slash # seq) = [session, seq]"
    using assms(3,4) split_on_piece [of slash session "[]" seq] split_on_last [of slash seq "[]"] by simp
  show ?thesis using assms(1,2) n h s
    by (simp add: extract_session_seq_def t_def [symmetric] strip_prefix_def)
qed

end
