(* ===== verification/SplitHttp.thy ===== *)
theory SplitHttp
  imports UploadQueue AeadStream Sniff
begin

text \<open>
  SplitHTTP (\<^verbatim>\<open>crates/blackwire-transport/src/splithttp.rs\<close>): the chunked stream in both directions, the HTTP/1.1 server side of
  the handshake and the table of \<^verbatim>\<open>packet-up\<close> sessions. HTTP/2 is the \<^verbatim>\<open>h2\<close> crate: what the code decides about one of its
  requests is modelled, with the request as an argument.
\<close>

section \<open>Chunk sizes\<close>

text \<open>\<^verbatim>\<open>format!("{:X}")\<close> and \<^verbatim>\<open>usize::from_str_radix(_, 16)\<close>, which also takes a sign and rejects what does not fit.\<close>

abbreviation (input) "crlf \<equiv> [0x0D, 0x0A :: u8]"

definition upper_digit :: "nat \<Rightarrow> u8" where
  "upper_digit d = (if d < 10 then 0x30 + of_nat d else 0x41 + of_nat (d - 10))"

fun hex_upper :: "nat \<Rightarrow> bytes" where
  "hex_upper n = (if n < 16 then [upper_digit n] else hex_upper (n div 16) @ [upper_digit (n mod 16)])"

declare hex_upper.simps [simp del]

definition hex_digit :: "u8 \<Rightarrow> nat option" where
  "hex_digit b = (if 0x30 \<le> b \<and> b \<le> 0x39 then Some (unat (b - 0x30))
     else if 0x41 \<le> b \<and> b \<le> 0x46 then Some (unat (b - 0x41) + 10)
     else if 0x61 \<le> b \<and> b \<le> 0x66 then Some (unat (b - 0x61) + 10) else None)"

fun hex_value :: "nat \<Rightarrow> bytes \<Rightarrow> nat option" where
  "hex_value acc [] = Some acc"
| "hex_value acc (b # s) = (case hex_digit b of
      None \<Rightarrow> None
    | Some d \<Rightarrow> if acc * 16 + d < 2 ^ 64 then hex_value (acc * 16 + d) s else None)"

definition from_str_radix_16 :: "bytes \<Rightarrow> nat option" where
  "from_str_radix_16 s = (case s of
      [] \<Rightarrow> None
    | [b] \<Rightarrow> hex_digit b
    | b # rest \<Rightarrow> if b = 0x2B then hex_value 0 rest else hex_value 0 s)"

text \<open>A line that is not UTF-8 contains a replacement character after \<^verbatim>\<open>from_utf8_lossy\<close>, which is no digit.\<close>

definition chunk_size :: "bytes \<Rightarrow> nat option" where
  "chunk_size line = (if utf8_valid line then from_str_radix_16 (trim line) else None)"

fun find_crlf :: "bytes \<Rightarrow> nat option" where
  "find_crlf (a # b # s) = (if a = 0x0D \<and> b = 0x0A then Some 0 else map_option Suc (find_crlf (b # s)))"
| "find_crlf _ = None"

lemma find_crlf_bound: "find_crlf s = Some k \<Longrightarrow> k + 2 \<le> length s"
  by (induction s arbitrary: k rule: find_crlf.induct) (auto split: if_splits)

section \<open>The chunked stream\<close>

record split_http_stream =
  sh_buf :: bytes
  sh_remaining :: nat
  sh_crlf :: bool
  sh_eof :: bool

definition split_http_stream_new :: split_http_stream where
  "split_http_stream_new = \<lparr>sh_buf = [], sh_remaining = 0, sh_crlf = False, sh_eof = False\<rparr>"

text \<open>
  One \<^verbatim>\<open>poll_read\<close> with room for \<open>room\<close> bytes. The script is what polling the inner stream gives, as in the encrypted streams;
  \<open>Inl\<close> of the step is a result of the poll, \<open>Inr\<close> another turn of the loop.
\<close>

definition sh_inner :: "split_http_stream \<Rightarrow> bytes poll list \<Rightarrow> (bytes poll \<times> split_http_stream \<times> bytes poll list) + (split_http_stream \<times> bytes poll list)" where
  "sh_inner sh script = (case script of
      [] \<Rightarrow> Inl (Pending, sh, [])
    | Pending # script1 \<Rightarrow> Inl (Pending, sh, script1)
    | Ready (Inl e) # script1 \<Rightarrow> Inl (Ready (Inl e), sh, script1)
    | Ready (Inr data) # script1 \<Rightarrow>
        if data = [] then Inl (Ready (Inr []), sh, script1) else Inr (sh\<lparr>sh_buf := sh_buf sh @ data\<rparr>, script1))"

definition sh_turn :: "nat \<Rightarrow> split_http_stream \<Rightarrow> bytes poll list \<Rightarrow> (bytes poll \<times> split_http_stream \<times> bytes poll list) + (split_http_stream \<times> bytes poll list)" where
  "sh_turn room sh script =
     (if sh_eof sh then Inl (Ready (Inr []), sh, script)
      else if sh_crlf sh \<and> length (sh_buf sh) < 2 then sh_inner sh script
      else let sh = (if sh_crlf sh then sh\<lparr>sh_buf := drop 2 (sh_buf sh), sh_crlf := False\<rparr> else sh) in
        if sh_remaining sh = 0
        then case find_crlf (sh_buf sh) of
            None \<Rightarrow> sh_inner sh script
          | Some line_end \<Rightarrow>
              (case chunk_size (take line_end (sh_buf sh)) of
                 None \<Rightarrow> Inl (Ready (Inl InvalidData), sh, script)
               | Some n \<Rightarrow>
                   let sh = sh\<lparr>sh_buf := drop (line_end + 2) (sh_buf sh)\<rparr> in
                   if n = 0 then Inl (Ready (Inr []), sh\<lparr>sh_eof := True\<rparr>, script) else Inr (sh\<lparr>sh_remaining := n\<rparr>, script))
        else if sh_buf sh \<noteq> []
        then let n = min room (min (sh_remaining sh) (length (sh_buf sh))) in
          Inl (Ready (Inr (take n (sh_buf sh))),
            sh\<lparr>sh_buf := drop n (sh_buf sh), sh_remaining := sh_remaining sh - n, sh_crlf := (if sh_remaining sh - n = 0 then True else sh_crlf sh)\<rparr>, script)
        else sh_inner sh script)"

lemma sh_inner_turn: "sh_inner sh script = Inr (sh1, script1) \<Longrightarrow> length script1 < length script"
  by (auto simp: sh_inner_def split: list.splits poll.splits sum.splits if_splits)

lemma sh_turn_measure:
  "sh_turn room sh script = Inr (sh1, script1) \<Longrightarrow>
     length script1 < length script \<or> script1 = script \<and> length (sh_buf sh1) < length (sh_buf sh)"
  by (auto simp: sh_turn_def Let_def dest!: sh_inner_turn find_crlf_bound split: if_splits option.splits)

function split_http_poll_read :: "nat \<Rightarrow> split_http_stream \<Rightarrow> bytes poll list \<Rightarrow> bytes poll \<times> split_http_stream \<times> bytes poll list" where
  "split_http_poll_read room sh script = (case sh_turn room sh script of
      Inl out \<Rightarrow> out
    | Inr (sh1, script1) \<Rightarrow> split_http_poll_read room sh1 script1)"
  by pat_completeness auto

termination
  by (relation "measures [\<lambda>(_, _, script). length script, \<lambda>(_, sh, _). length (sh_buf sh)]") (auto dest: sh_turn_measure)

declare split_http_poll_read.simps [simp del]

text \<open>Writing: the bytes the inner stream took are returned with the poll; the stream keeps nothing.\<close>

definition chunk_frame :: "bytes \<Rightarrow> bytes" where
  "chunk_frame buf = hex_upper (length buf) @ crlf @ buf @ crlf"

definition split_http_poll_write :: "bytes \<Rightarrow> nat poll \<Rightarrow> nat poll \<times> bytes" where
  "split_http_poll_write buf inner =
     (if buf = [] then (Ready (Inr 0), [])
      else case inner of
        Ready (Inr n) \<Rightarrow> (Ready (Inr (length buf)), take n (chunk_frame buf))
      | Ready (Inl e) \<Rightarrow> (Ready (Inl e), [])
      | Pending \<Rightarrow> (Pending, []))"

definition split_http_poll_shutdown :: "nat poll \<Rightarrow> unit poll \<Rightarrow> unit poll \<times> bytes" where
  "split_http_poll_shutdown inner inner_shutdown = (case inner of
      Ready (Inr n) \<Rightarrow> (inner_shutdown, take n (ascii ''0'' @ crlf @ crlf))
    | Ready (Inl e) \<Rightarrow> (Ready (Inl e), [])
    | Pending \<Rightarrow> (Pending, []))"

section \<open>Sizes round trip\<close>

definition hex_char :: "u8 \<Rightarrow> bool" where
  "hex_char b \<longleftrightarrow> 0x30 \<le> b \<and> b \<le> 0x46"

lemma upper_digits: "list_all (\<lambda>d. hex_digit (upper_digit d) = Some d \<and> hex_char (upper_digit d)) [0..<16]"
  by code_simp

lemma upper_digit_cases:
  assumes "d < 16"
  shows "hex_digit (upper_digit d) = Some d" "hex_char (upper_digit d)"
  using upper_digits assms by (simp_all add: list_all_iff)

lemma hex_upper_chars: "list_all hex_char (hex_upper n) \<and> hex_upper n \<noteq> []"
proof (induction n rule: hex_upper.induct)
  case (1 n)
  then show ?case using upper_digit_cases(2) [of n] upper_digit_cases(2) [of "n mod 16"] by (simp add: hex_upper.simps [of n])
qed

lemma hex_value_append: "hex_value acc (xs @ ys) = (case hex_value acc xs of None \<Rightarrow> None | Some v \<Rightarrow> hex_value v ys)"
  by (induction acc xs rule: hex_value.induct) (auto split: option.split)

lemma hex_value_upper: "n < 2 ^ 64 \<Longrightarrow> hex_value 0 (hex_upper n) = Some n"
proof (induction n rule: hex_upper.induct)
  case (1 n)
  show ?case
  proof (cases "n < 16")
    case True
    then show ?thesis using upper_digit_cases(1) [of n] by (simp add: hex_upper.simps [of n])
  next
    case False
    then have "hex_value 0 (hex_upper (n div 16)) = Some (n div 16)" using 1 by simp
    then show ?thesis
      using False "1.prems" upper_digit_cases(1) [of "n mod 16"] by (simp add: hex_upper.simps [of n] hex_value_append)
  qed
qed

lemma from_str_radix_upper: "n < 2 ^ 64 \<Longrightarrow> from_str_radix_16 (hex_upper n) = Some n"
proof -
  assume n: "n < 2 ^ 64"
  obtain b s where h: "hex_upper n = b # s" using hex_upper_chars [of n] by (cases "hex_upper n") auto
  have "b \<noteq> 0x2B" using hex_upper_chars [of n] by (auto simp: h hex_char_def)
  moreover have "hex_digit b = Some n" if "s = []"
    using hex_value_upper [OF n] that by (auto simp: h split: option.splits if_splits)
  ultimately show ?thesis using hex_value_upper [OF n] by (auto simp: from_str_radix_16_def h split: list.split)
qed

definition plain_char :: "u8 \<Rightarrow> bool" where
  "plain_char b \<longleftrightarrow> 0x30 \<le> b \<and> b < 0x80"

lemma trim_printable:
  assumes "list_all plain_char s"
  shows "trim s = s"
proof -
  have w: "\<forall>w \<in> set white_space. w \<noteq> [] \<and> \<not> plain_char (hd w) \<and> \<not> plain_char (last w)"
    by (simp add: white_space_def plain_char_def)
  have "\<not> prefix w s" if "w \<in> set white_space" for w
    using w that assms by (cases w) (auto simp: prefix_def)
  then have "find (\<lambda>w. prefix w s) white_space = None" by (simp add: find_None_iff)
  moreover have "\<not> suffix w s" if "w \<in> set white_space" for w
    using w that assms by (cases w rule: rev_cases) (auto simp: suffix_def)
  then have "find (\<lambda>w. suffix w s) white_space = None" by (simp add: find_None_iff)
  ultimately show ?thesis by (simp add: trim_def trim_start.simps trim_end.simps)
qed

lemma plain_hex: "list_all plain_char (hex_upper n)"
  using hex_upper_chars [of n] by (auto simp: list_all_iff hex_char_def plain_char_def word_le_nat_alt word_less_nat_alt)

lemma utf8_valid_plain: "list_all plain_char s \<Longrightarrow> utf8_valid s"
  by (rule utf8_valid_ascii) (auto simp: list_all_iff plain_char_def)

lemma chunk_size_upper: "n < 2 ^ 64 \<Longrightarrow> chunk_size (hex_upper n) = Some n"
  by (simp add: chunk_size_def from_str_radix_upper utf8_valid_plain trim_printable plain_hex)

lemma find_crlf_line: "0x0D \<notin> set line \<Longrightarrow> find_crlf (line @ crlf @ rest) = Some (length line)"
proof (induction line)
  case (Cons a line)
  then show ?case by (cases line) auto
qed simp

lemma find_crlf_part: "0x0D \<notin> set line \<Longrightarrow> prefix s (line @ [0x0D]) \<Longrightarrow> find_crlf s = None"
proof (induction line arbitrary: s)
  case Nil
  then show ?case by (cases s; cases "tl s") auto
next
  case (Cons a line)
  then show ?case by (cases s; cases "tl s") auto
qed

section \<open>Reading back what was framed\<close>

definition frames :: "bytes list \<Rightarrow> bytes" where
  "frames cs = concat (map chunk_frame cs)"

lemma frames_simps [simp]: "frames [] = []" "frames (c # cs) = chunk_frame c @ frames cs"
  by (simp_all add: frames_def)

definition frame_ok :: "bytes \<Rightarrow> bool" where
  "frame_ok c \<longleftrightarrow> c \<noteq> [] \<and> length c < 2 ^ 64"

abbreviation (input) "last_chunk \<equiv> ascii ''0'' @ crlf @ crlf"

text \<open>
  The reader's state and the bytes \<open>fut\<close> to come stand for the text \<open>tx\<close>: the rest of a chunk, then whole chunks, then nothing or
  the last chunk.
\<close>

definition expects :: "bytes \<Rightarrow> split_http_stream \<Rightarrow> bytes \<Rightarrow> bytes \<Rightarrow> bool" where
  "expects fin sh fut tx \<longleftrightarrow> (if sh_eof sh then tx = [] else (\<exists>d cs. list_all frame_ok cs \<and> length d = sh_remaining sh \<and> tx = d @ concat cs
     \<and> sh_buf sh @ fut = (if sh_crlf sh \<or> d \<noteq> [] then d @ crlf else []) @ frames cs @ fin) \<and> (sh_crlf sh \<longrightarrow> sh_remaining sh = 0))"

lemma no_cr_hex: "0x0D \<notin> set (hex_upper n)"
  using hex_upper_chars [of n] by (auto simp: list_all_iff hex_char_def)

lemma expects_buffer: "expects fin sh (data @ fut) tx = expects fin (sh\<lparr>sh_buf := sh_buf sh @ data\<rparr>) fut tx"
  by (simp add: expects_def)

definition turn_ok :: "bytes \<Rightarrow> bytes \<Rightarrow> bytes \<Rightarrow> (bytes poll \<times> split_http_stream \<times> bytes poll list) + (split_http_stream \<times> bytes poll list) \<Rightarrow> bool" where
  "turn_ok fin rest tx out = (case out of
      Inr (sh1, script1) \<Rightarrow> flowing script1 \<and> expects fin sh1 (polled script1 @ rest) tx
    | Inl (res, sh1, script1) \<Rightarrow> flowing script1 \<and> (case res of
          Pending \<Rightarrow> expects fin sh1 (polled script1 @ rest) tx \<and> (polled script1 = [] \<and> rest = [] \<longrightarrow> tx = [])
        | Ready (Inr b) \<Rightarrow> (\<exists>tx1. tx = b @ tx1 \<and> expects fin sh1 (polled script1 @ rest) tx1) \<and> (b = [] \<longrightarrow> sh_eof sh1 \<and> tx = [])
        | Ready (Inl _) \<Rightarrow> False))"

lemma expects_inner:
  assumes "expects fin sh (polled script @ rest) tx" and "flowing script" and "polled script = [] \<Longrightarrow> rest = [] \<Longrightarrow> tx = []"
  shows "turn_ok fin rest tx (sh_inner sh script)"
proof (cases script)
  case Nil
  then show ?thesis using assms by (simp add: sh_inner_def turn_ok_def)
next
  case (Cons p script1)
  show ?thesis
  proof (cases p)
    case Pending
    then show ?thesis using assms Cons by (simp add: sh_inner_def turn_ok_def)
  next
    case (Ready r)
    then obtain b where "r = Inr b" "b \<noteq> []" using assms(2) Cons by (cases r) auto
    then show ?thesis using assms Cons Ready by (simp add: sh_inner_def turn_ok_def flip: expects_buffer)
  qed
qed

lemma find_crlf_mono: "find_crlf s = Some k \<Longrightarrow> find_crlf (s @ t) = Some k"
  by (induction s arbitrary: k rule: find_crlf.induct) (auto split: if_splits)

lemma find_crlf_header:
  assumes "buf @ fut = hex_upper n @ crlf @ tail" and "find_crlf buf = Some k"
  shows "take k buf = hex_upper n" "drop (k + 2) buf @ fut = tail"
proof -
  have k: "k = length (hex_upper n)"
    using find_crlf_mono [OF assms(2), of fut] find_crlf_line [OF no_cr_hex [of n], of tail] assms(1) by simp
  have b: "k + 2 \<le> length buf" by (rule find_crlf_bound [OF assms(2)])
  show "take k buf = hex_upper n" using arg_cong [OF assms(1), of "take k"] k b by simp
  show "drop (k + 2) buf @ fut = tail" using arg_cong [OF assms(1), of "drop (k + 2)"] k b by simp
qed

lemma expects_chunk:
  assumes "list_all frame_ok cs" and "d \<noteq> []" and "buf @ fut = d @ crlf @ frames cs @ fin"
  shows "expects fin \<lparr>sh_buf = buf, sh_remaining = length d, sh_crlf = False, sh_eof = False\<rparr> fut (d @ concat cs)"
  unfolding expects_def using assms by (auto intro!: exI [of _ d] exI [of _ cs])

lemma expects_size_turn:
  assumes "expects fin sh (polled script @ rest) tx" and "flowing script" and "fin = [] \<or> fin = last_chunk"
    and "\<not> sh_eof sh" and "\<not> sh_crlf sh" and "sh_remaining sh = 0"
  shows "turn_ok fin rest tx (sh_turn room sh script)"
proof -
  define fut where "fut = polled script @ rest"
  obtain cs where cs: "list_all frame_ok cs" "tx = concat cs" "sh_buf sh @ fut = frames cs @ fin"
    using assms(1,4-6) by (auto simp: expects_def fut_def)
  obtain n tail where h: "cs \<noteq> [] \<or> fin \<noteq> [] \<Longrightarrow> sh_buf sh @ fut = hex_upper n @ crlf @ tail"
      "n = 0 \<Longrightarrow> cs = []" "n > 0 \<Longrightarrow> \<exists>c cs'. cs = c # cs' \<and> length c = n \<and> tail = c @ crlf @ frames cs' @ fin"
      "n < 2 ^ 64"
  proof (cases cs)
    case Nil
    then show thesis using cs(3) assms(3) that [of 0 crlf] by (auto simp: hex_upper.simps upper_digit_def)
  next
    case (Cons c cs')
    then show thesis using cs that [of "length c" "c @ crlf @ frames cs' @ fin"] by (auto simp: chunk_frame_def frame_ok_def)
  qed
  show ?thesis
  proof (cases "find_crlf (sh_buf sh)")
    case None
    have "tx = []" if "polled script = []" "rest = []"
      using that None h(1) find_crlf_line [OF no_cr_hex [of n], of tail] cs(2) by (cases "cs = []") (auto simp: fut_def)
    then show ?thesis using expects_inner [OF assms(1,2)] assms(4-6) None by (simp add: sh_turn_def)
  next
    case (Some k)
    have "cs \<noteq> [] \<or> fin \<noteq> []"
    proof (rule ccontr)
      assume "\<not> (cs \<noteq> [] \<or> fin \<noteq> [])"
      then have "sh_buf sh = []" using cs(3) by simp
      then show False using Some by simp
    qed
    note hd = find_crlf_header [OF h(1) [OF this] Some]
    have sh: "sh\<lparr>sh_buf := b, sh_remaining := r\<rparr> = \<lparr>sh_buf = b, sh_remaining = r, sh_crlf = False, sh_eof = False\<rparr>" for b r
      using assms(4,5) by (cases sh) simp
    show ?thesis
    proof (cases "n = 0")
      case True
      then show ?thesis using assms(2,4-6) Some hd h(2) chunk_size_upper [OF h(4)] cs(2)
        by (simp add: sh_turn_def turn_ok_def Let_def expects_def)
    next
      case False
      then obtain c cs' where c: "cs = c # cs'" "length c = n" "tail = c @ crlf @ frames cs' @ fin" using h(3) by auto
      have "expects fin (sh\<lparr>sh_buf := drop (k + 2) (sh_buf sh), sh_remaining := n\<rparr>) fut (c @ concat cs')"
        unfolding sh c(2) [symmetric] by (rule expects_chunk) (use cs(1) c hd(2) False in auto)
      moreover have "sh_turn room sh script = Inr (sh\<lparr>sh_buf := drop (k + 2) (sh_buf sh), sh_remaining := n\<rparr>, script)"
        using assms(4-6) Some hd(1) chunk_size_upper [OF h(4)] False by (simp add: sh_turn_def Let_def)
      ultimately show ?thesis using assms(2) cs(2) c(1) by (simp add: turn_ok_def fut_def)
    qed
  qed
qed

lemma expects_data_turn:
  assumes "expects fin sh (polled script @ rest) tx" and "flowing script" and "0 < room"
    and "\<not> sh_eof sh" and "\<not> sh_crlf sh" and "sh_remaining sh \<noteq> 0"
  shows "turn_ok fin rest tx (sh_turn room sh script)"
proof -
  define fut where "fut = polled script @ rest"
  obtain d cs where d: "list_all frame_ok cs" "length d = sh_remaining sh" "tx = d @ concat cs" "sh_buf sh @ fut = d @ crlf @ frames cs @ fin"
    using assms(1,4-6) by (auto simp: expects_def fut_def split: if_splits)
  show ?thesis
  proof (cases "sh_buf sh = []")
    case True
    then have "tx = []" if "polled script = []" "rest = []" using d(2,4) assms(6) that by (auto simp: fut_def)
    then show ?thesis using expects_inner [OF assms(1,2)] assms(4-6) True by (simp add: sh_turn_def)
  next
    case False
    define n where "n = min room (min (sh_remaining sh) (length (sh_buf sh)))"
    have n: "0 < n" "n \<le> length d" "n \<le> length (sh_buf sh)" using False assms(3,6) d(2) by (auto simp: n_def)
    have t: "take n (sh_buf sh) = take n d" "drop n (sh_buf sh) @ fut = drop n d @ crlf @ frames cs @ fin"
      using arg_cong [OF d(4), of "take n"] arg_cong [OF d(4), of "drop n"] n by simp_all
    have x: "expects fin (sh\<lparr>sh_buf := drop n (sh_buf sh), sh_remaining := sh_remaining sh - n,
        sh_crlf := (if sh_remaining sh - n = 0 then True else sh_crlf sh)\<rparr>) fut (drop n d @ concat cs)"
      unfolding expects_def using t(2) d(1,2) assms(4,5) by (auto intro!: exI [of _ "drop n d"] exI [of _ cs])
    have "sh_turn room sh script = Inl (Ready (Inr (take n d)), sh\<lparr>sh_buf := drop n (sh_buf sh), sh_remaining := sh_remaining sh - n,
        sh_crlf := (if sh_remaining sh - n = 0 then True else sh_crlf sh)\<rparr>, script)"
      using assms(4-6) False t(1) by (simp add: sh_turn_def n_def [symmetric])
    moreover have "tx = take n d @ drop n d @ concat cs" "take n d \<noteq> []" using d(3) n by auto
    ultimately show ?thesis using x assms(2) by (auto simp: turn_ok_def fut_def)
  qed
qed

lemma expects_turn:
  assumes "expects fin sh (polled script @ rest) tx" and "flowing script" and "fin = [] \<or> fin = last_chunk" and "0 < room"
  shows "turn_ok fin rest tx (sh_turn room sh script)"
proof -
  define sh1 where "sh1 = sh\<lparr>sh_buf := drop 2 (sh_buf sh), sh_crlf := False\<rparr>"
  consider "sh_eof sh" | "\<not> sh_eof sh" "\<not> sh_crlf sh" | "\<not> sh_eof sh" "sh_crlf sh" "length (sh_buf sh) < 2"
    | "\<not> sh_eof sh" "sh_crlf sh" "\<not> length (sh_buf sh) < 2" by blast
  then show ?thesis
  proof cases
    case 1
    then show ?thesis using assms(1,2) by (simp add: sh_turn_def turn_ok_def expects_def)
  next
    case 2
    then show ?thesis using expects_size_turn [OF assms(1-3) 2] expects_data_turn [OF assms(1,2,4) 2] by blast
  next
    case 3
    have "tx = []" if "polled script = []" "rest = []"
      using assms(1) 3 that by (auto simp: expects_def dest: arg_cong [of _ _ length])
    then show ?thesis using expects_inner [OF assms(1,2)] 3 by (simp add: sh_turn_def)
  next
    case 4
    obtain a b buf where c: "sh_buf sh = a # b # buf" using 4(3) by (cases "sh_buf sh"; cases "tl (sh_buf sh)") auto
    have "expects fin sh1 (polled script @ rest) tx" using assms(1) 4 c by (auto simp: expects_def sh1_def)
    moreover have "\<not> sh_eof sh1" "\<not> sh_crlf sh1" "sh_remaining sh1 = 0" using 4 assms(1) by (simp_all add: sh1_def expects_def)
    ultimately have "turn_ok fin rest tx (sh_turn room sh1 script)" using expects_size_turn assms(2,3) by blast
    moreover have "sh_turn room sh script = sh_turn room sh1 script" using 4 by (simp add: sh_turn_def sh1_def)
    ultimately show ?thesis by simp
  qed
qed

lemma poll_read_ok:
  assumes "expects fin sh (polled script @ rest) tx" and "flowing script" and "fin = [] \<or> fin = last_chunk" and "0 < room"
  shows "turn_ok fin rest tx (Inl (split_http_poll_read room sh script))"
  using assms(1,2,4)
proof (induction room sh script rule: split_http_poll_read.induct)
  case (1 room sh script)
  note t = expects_turn [OF "1.prems"(1,2) assms(3) "1.prems"(3)]
  show ?case
  proof (cases "sh_turn room sh script")
    case (Inl out)
    then show ?thesis using t by (simp add: split_http_poll_read.simps [of room])
  next
    case (Inr out)
    then obtain sh1 script1 where o: "sh_turn room sh script = Inr (sh1, script1)" by (cases out) auto
    then have "flowing script1" "expects fin sh1 (polled script1 @ rest) tx" using t by (simp_all add: turn_ok_def)
    then show ?thesis using "1.IH" [OF o refl] "1.prems"(3) by (simp add: split_http_poll_read.simps [of room sh] o)
  qed
qed

fun run_split_reads :: "nat list \<Rightarrow> split_http_stream \<Rightarrow> bytes poll list \<Rightarrow> bytes poll list \<times> split_http_stream \<times> bytes poll list" where
  "run_split_reads [] sh script = ([], sh, script)"
| "run_split_reads (room # rooms) sh script = (case split_http_poll_read room sh script of
      (res, sh1, script1) \<Rightarrow> (case run_split_reads rooms sh1 script1 of (outs, sh2, script2) \<Rightarrow> (res # outs, sh2, script2)))"

lemma run_split_reads_ok:
  assumes "run_split_reads rooms sh script = (outs, sh1, script1)" and "list_all (\<lambda>r. 0 < r) rooms"
    and "expects fin sh (polled script @ rest) tx" and "flowing script" and "fin = [] \<or> fin = last_chunk"
  shows "\<exists>tx1. tx = polled outs @ tx1 \<and> list_all (\<lambda>p. \<forall>e. p \<noteq> Ready (Inl e)) outs \<and> (Ready (Inr []) \<in> set outs \<longrightarrow> tx1 = [])
    \<and> (outs \<noteq> [] \<and> last outs = Pending \<and> polled script1 = [] \<and> rest = [] \<longrightarrow> tx1 = [])"
  using assms(1-4)
proof (induction rooms arbitrary: sh script tx outs)
  case (Cons room rooms)
  obtain res sh2 script2 where p: "split_http_poll_read room sh script = (res, sh2, script2)" by (metis prod_cases3)
  obtain outs2 where r: "run_split_reads rooms sh2 script2 = (outs2, sh1, script1)" "outs = res # outs2"
    using Cons.prems(1) by (auto simp: p split: prod.splits)
  have room: "0 < room" "list_all (\<lambda>r. 0 < r) rooms" using Cons.prems(2) by simp_all
  have t: "turn_ok fin rest tx (Inl (res, sh2, script2))" using poll_read_ok [OF Cons.prems(3,4) assms(5) room(1)] by (simp add: p)
  obtain b tx2 where e: "tx = b @ tx2" "expects fin sh2 (polled script2 @ rest) tx2" "flowing script2"
      "\<forall>ps. polled (res # ps) = b @ polled ps" "\<forall>e. res \<noteq> Ready (Inl e)" "res = Ready (Inr []) \<Longrightarrow> tx2 = []"
      "res = Pending \<and> polled script2 = [] \<and> rest = [] \<Longrightarrow> tx2 = []"
  proof (cases res)
    case Pending
    then show thesis using t that [of "[]" tx] by (simp add: turn_ok_def)
  next
    case (Ready x)
    then show thesis using t that by (cases x) (auto simp: turn_ok_def)
  qed
  obtain tx1 where i: "tx2 = polled outs2 @ tx1" "list_all (\<lambda>p. \<forall>e. p \<noteq> Ready (Inl e)) outs2" "Ready (Inr []) \<in> set outs2 \<longrightarrow> tx1 = []"
      "outs2 \<noteq> [] \<and> last outs2 = Pending \<and> polled script1 = [] \<and> rest = [] \<longrightarrow> tx1 = []"
    using Cons.IH [OF r(1) room(2) e(2,3)] by blast
  show ?case
  proof (intro exI conjI)
    show "tx = polled outs @ tx1" using e(1,4) i(1) r(2) by simp
    show "list_all (\<lambda>p. \<forall>e. p \<noteq> Ready (Inl e)) outs" using e(5) i(2) r(2) by simp
    show "Ready (Inr []) \<in> set outs \<longrightarrow> tx1 = []" using e(6) i(1,3) r(2) by auto
    show "outs \<noteq> [] \<and> last outs = Pending \<and> polled script1 = [] \<and> rest = [] \<longrightarrow> tx1 = []"
      using e(7) i(1,4) r by (cases "outs2 = []"; cases rooms) (auto split: prod.splits)
  qed
qed auto

text \<open>Writes whose inner stream is pending or takes the whole frame.\<close>

fun run_split_writes :: "(bytes \<times> nat poll) list \<Rightarrow> bytes \<times> bytes" where
  "run_split_writes [] = ([], [])"
| "run_split_writes ((buf, inner) # ws) = (case split_http_poll_write buf inner of (res, sent) \<Rightarrow> (case run_split_writes ws of
      (accepted, wire) \<Rightarrow> ((case res of Ready (Inr n) \<Rightarrow> take n buf | _ \<Rightarrow> []) @ accepted, sent @ wire)))"

definition takes_all :: "bytes \<times> nat poll \<Rightarrow> bool" where
  "takes_all = (\<lambda>(buf, inner). length buf < 2 ^ 64 \<and> (case inner of Pending \<Rightarrow> True | Ready (Inl _) \<Rightarrow> False | Ready (Inr n) \<Rightarrow> length (chunk_frame buf) \<le> n))"

lemma run_split_writes_frames:
  "list_all takes_all ws \<Longrightarrow> run_split_writes ws = (accepted, wire) \<Longrightarrow> \<exists>cs. list_all frame_ok cs \<and> concat cs = accepted \<and> frames cs = wire"
proof (induction ws arbitrary: accepted wire)
  case Nil
  then show ?case by (intro exI [of _ "[]"]) simp
next
  case (Cons w ws)
  obtain buf inner where w: "w = (buf, inner)" by (cases w)
  obtain acc wire2 where r: "run_split_writes ws = (acc, wire2)" by (cases "run_split_writes ws")
  obtain cs where cs: "list_all frame_ok cs" "concat cs = acc" "frames cs = wire2" using Cons.IH [OF _ r] Cons.prems(1) by auto
  show ?case
  proof (cases "buf = [] \<or> inner = Pending")
    case True
    then have "split_http_poll_write buf inner = (if buf = [] then Ready (Inr 0) else Pending, [])" by (auto simp: split_http_poll_write_def)
    then show ?thesis using Cons.prems(2) cs r w by (intro exI [of _ cs]) (auto split: if_splits)
  next
    case False
    then obtain n where "inner = Ready (Inr n)" "length (chunk_frame buf) \<le> n" "length buf < 2 ^ 64"
      using Cons.prems(1) w by (cases inner) (auto simp: takes_all_def split: sum.splits)
    moreover have "frame_ok buf" using False calculation(3) by (simp add: frame_ok_def)
    ultimately show ?thesis using False Cons.prems(2) cs r w
      by (intro exI [of _ "buf # cs"]) (auto simp: split_http_poll_write_def)
  qed
qed

text \<open>
  Property C23. A SplitHTTP stream is transparent as long as the inner stream takes whole frames: a reader gets a prefix of the
  bytes the writer accepted, however they are cut on the way, never an error; it has all of them once it is pending with nothing
  left to come, and before it sees the end of the stream.
\<close>

theorem split_http_transparent:
  assumes "run_split_writes ws = (accepted, wire)" and "list_all takes_all ws"
    and "polled script @ rest = wire @ fin" and "fin = [] \<or> fin = last_chunk" and "flowing script"
    and "run_split_reads rooms split_http_stream_new script = (outs, sh, script1)" and "list_all (\<lambda>r. 0 < r) rooms"
  shows "prefix (polled outs) accepted \<and> list_all (\<lambda>p. \<forall>e. p \<noteq> Ready (Inl e)) outs
    \<and> (outs \<noteq> [] \<and> last outs = Pending \<and> polled script1 = [] \<and> rest = [] \<or> Ready (Inr []) \<in> set outs \<longrightarrow> polled outs = accepted)"
proof -
  obtain cs where cs: "list_all frame_ok cs" "concat cs = accepted" "frames cs = wire"
    using run_split_writes_frames [OF assms(2,1)] by blast
  have "expects fin split_http_stream_new (polled script @ rest) accepted"
    unfolding expects_def using cs assms(3) by (auto simp: split_http_stream_new_def)
  from run_split_reads_ok [OF assms(6,7) this assms(5,4)] show ?thesis by auto
qed

lemma size_lines: "chunk_size [0x35] = Some 5" "chunk_size [0x30] = Some 0" "chunk_size [0x6C, 0x64] = None"
  using chunk_size_upper [of 5] chunk_size_upper [of 0] utf8_valid_plain [of "[0x6C, 0x64]"] trim_printable [of "[0x6C, 0x64]"]
  by (simp_all add: hex_upper.simps upper_digit_def chunk_size_def from_str_radix_16_def hex_digit_def plain_char_def)

lemma hello_read:
  "run_split_reads [3, 8, 8] split_http_stream_new
      [Ready (Inr (ascii ''5'' @ [0x0D])), Ready (Inr ([0x0A] @ ascii ''hello'' @ crlf @ last_chunk))]
    = ([Ready (Inr (ascii ''hel'')), Ready (Inr (ascii ''lo'')), Ready (Inr [])], \<lparr>sh_buf = crlf, sh_remaining = 0, sh_crlf = False, sh_eof = True\<rparr>, [])"
  by (simp add: split_http_poll_read.simps sh_turn_def sh_inner_def split_http_stream_new_def size_lines)

theorem split_http_transparent_witness:
  "run_split_writes [(ascii ''hello'', Ready (Inr 10))] = (ascii ''hello'', ascii ''5'' @ crlf @ ascii ''hello'' @ crlf)
   \<and> polled (fst (run_split_reads [3, 8, 8] split_http_stream_new
      [Ready (Inr (ascii ''5'' @ [0x0D])), Ready (Inr ([0x0A] @ ascii ''hello'' @ crlf @ last_chunk))])) = ascii ''hello''"
proof -
  have w: "run_split_writes [(ascii ''hello'', Ready (Inr 10))] = (ascii ''hello'', ascii ''5'' @ crlf @ ascii ''hello'' @ crlf)"
    by (simp add: split_http_poll_write_def chunk_frame_def hex_upper.simps upper_digit_def)
  have a: "list_all takes_all [(ascii ''hello'', Ready (Inr 10))]"
    by (simp add: takes_all_def chunk_frame_def hex_upper.simps)
  have "polled [Ready (Inr (ascii ''hel'')), Ready (Inr (ascii ''lo'')), Ready (Inr [])] = ascii ''hello''"
    using split_http_transparent [OF w a _ _ _ hello_read, of "[]" last_chunk] by simp
  then show ?thesis unfolding hello_read fst_conv using w by blast
qed


end
