(* ===== verification/SplitHttpServer.thy ===== *)
theory SplitHttpServer
  imports SplitHttp
begin

text \<open>
  The server side of SplitHTTP (\<^verbatim>\<open>crates/blackwire-transport/src/splithttp.rs\<close>): request heads and bodies over HTTP/1.1, the table
  of \<^verbatim>\<open>packet-up\<close> sessions, and what the code decides about one request of either HTTP version. A reader runs on the bytes the
  peer sends; what the handler writes back is part of its result.
\<close>

section \<open>Heads and bodies\<close>

abbreviation (input) "MAX_HEADER_BYTES \<equiv> (16384 :: nat)"

fun read_headers_from :: "bytes \<Rightarrow> rstr reader" where
  "read_headers_from buf bs =
     (if length buf \<ge> MAX_HEADER_BYTES then Inl (Err (Protocol ''SplitHTTP headers too large''))
      else case bs of
        [] \<Rightarrow> Inl (Err (Protocol ''SplitHTTP unexpected EOF while reading headers''))
      | b # rest \<Rightarrow>
          let buf = buf @ [b] in
          if suffix (crlf @ crlf) buf
          then if utf8_valid buf then Inr (buf, rest) else Inl (Err (Protocol ''SplitHTTP headers not valid UTF-8''))
          else read_headers_from buf rest)"

declare read_headers_from.simps [simp del]

text \<open>\<^verbatim>\<open>split_whitespace\<close>, \<^verbatim>\<open>eq_ignore_ascii_case\<close> and \<^verbatim>\<open>parse\<close> for 64-bit numbers.\<close>

function split_whitespace_from :: "rstr \<Rightarrow> rstr \<Rightarrow> rstr list" where
  "split_whitespace_from acc s = (case s of
      [] \<Rightarrow> if acc = [] then [] else [acc]
    | b # rest \<Rightarrow>
        (case find (\<lambda>w. prefix w s) white_space of
           Some w \<Rightarrow> (if acc = [] then [] else [acc]) @ split_whitespace_from [] (drop (length w) s)
         | None \<Rightarrow> split_whitespace_from (acc @ [b]) rest))"
  by pat_completeness auto

termination
proof (relation "measure (\<lambda>(_, s). length s)")
  fix acc s b rest w
  assume "s = b # rest" and "find (\<lambda>w. prefix w s) white_space = Some w"
  then have "w \<in> set white_space" by (auto simp: find_Some_iff)
  then have "w \<noteq> []" using white_space_nonempty by auto
  then show "(([], drop (length w) s), (acc, s)) \<in> measure (\<lambda>(_, s). length s)" using \<open>s = b # rest\<close> by (cases w) auto
qed auto

declare split_whitespace_from.simps [simp del]

definition eq_ignore_ascii_case :: "rstr \<Rightarrow> rstr \<Rightarrow> bool" where
  "eq_ignore_ascii_case a b \<longleftrightarrow> to_ascii_lowercase a = to_ascii_lowercase b"

fun dec_value :: "nat \<Rightarrow> rstr \<Rightarrow> nat option" where
  "dec_value acc [] = Some acc"
| "dec_value acc (b # s) =
     (if 0x30 \<le> b \<and> b \<le> 0x39 \<and> acc * 10 + unat (b - 0x30) < 2 ^ 64 then dec_value (acc * 10 + unat (b - 0x30)) s else None)"

definition parse_u64 :: "rstr \<Rightarrow> nat option" where
  "parse_u64 s = (case s of [] \<Rightarrow> None | b # rest \<Rightarrow> if b = 0x2B \<and> rest \<noteq> [] then dec_value 0 rest else dec_value 0 s)"

fun header_lines :: "rstr list \<Rightarrow> (rstr \<times> rstr) list" where
  "header_lines [] = []"
| "header_lines (l # ls) =
     (if l = [] then []
      else case split_once 0x3A l of
        Some (k, v) \<Rightarrow> header_lines ls @ [(to_ascii_lowercase (trim k), trim v)]
      | None \<Rightarrow> header_lines ls)"

text \<open>A later header replaces an earlier one: the pairs are in reverse order for \<^const>\<open>map_of\<close>.\<close>

definition parse_http_headers :: "rstr \<Rightarrow> rstr \<rightharpoonup> rstr" where
  "parse_http_headers request = map_of (header_lines (drop 1 (str_lines [] request)))"

text \<open>\<^verbatim>\<open>read_to_end\<close> polls until it gets no bytes; a script that ends before that is a peer that sends no more.\<close>

definition sh_weight :: "split_http_stream \<Rightarrow> bytes poll list \<Rightarrow> nat" where
  "sh_weight sh script = length (sh_buf sh) + length (polled script) + length script"

definition turn_weight :: "split_http_stream \<Rightarrow> bytes poll list \<Rightarrow> (bytes poll \<times> split_http_stream \<times> bytes poll list) + (split_http_stream \<times> bytes poll list) \<Rightarrow> bool" where
  "turn_weight sh script out = (case out of
      Inr (sh1, script1) \<Rightarrow> sh_weight sh1 script1 < sh_weight sh script
    | Inl (res, sh1, script1) \<Rightarrow> sh_weight sh1 script1 \<le> sh_weight sh script \<and> (sh_weight sh1 script1 < sh_weight sh script \<or> (case res of
          Pending \<Rightarrow> script = []
        | Ready r \<Rightarrow> r = Inr [] \<or> isl r)))"

lemma sh_inner_weight: "sh_weight sh1 script \<le> sh_weight sh script \<Longrightarrow> turn_weight sh script (sh_inner sh1 script)"
  by (auto simp: turn_weight_def sh_inner_def sh_weight_def split: list.split poll.split sum.split)

lemma sh_turn_weight:
  assumes "0 < room"
  shows "turn_weight sh script (sh_turn room sh script)"
proof -
  define sh1 where "sh1 = (if sh_crlf sh then sh\<lparr>sh_buf := drop 2 (sh_buf sh), sh_crlf := False\<rparr> else sh)"
  have w: "sh_weight sh1 script \<le> sh_weight sh script" by (simp add: sh1_def sh_weight_def)
  consider "sh_eof sh" | "\<not> sh_eof sh" "sh_crlf sh" "length (sh_buf sh) < 2" | "\<not> sh_eof sh" "\<not> (sh_crlf sh \<and> length (sh_buf sh) < 2)" by blast
  then show ?thesis
  proof cases
    case 1
    then show ?thesis by (simp add: sh_turn_def turn_weight_def)
  next
    case 2
    then show ?thesis by (simp add: sh_turn_def sh_inner_weight)
  next
    case 3
    note t = sh_turn_def [of room sh script, unfolded sh1_def [symmetric] Let_def if_not_P [OF 3(1)] if_not_P [OF 3(2)]]
    show ?thesis
    proof (cases "sh_remaining sh1 = 0")
      case True
      show ?thesis
      proof (cases "find_crlf (sh_buf sh1)")
        case None
        then show ?thesis using True w by (simp add: t sh_inner_weight)
      next
        case (Some k)
        then show ?thesis using True w find_crlf_bound [OF Some]
          by (auto simp: t turn_weight_def sh_weight_def split: option.split)
      qed
    next
      case False
      show ?thesis
      proof (cases "sh_buf sh1 = []")
        case True
        then show ?thesis using False w by (simp add: t sh_inner_weight)
      next
        case buf: False
        define n where "n = min room (min (sh_remaining sh1) (length (sh_buf sh1)))"
        have "0 < n" "n \<le> length (sh_buf sh1)" using False buf assms by (auto simp: n_def)
        then have "length (sh_buf sh1) - n < length (sh_buf sh1)" by simp
        then show ?thesis using False buf w by (auto simp: t turn_weight_def sh_weight_def n_def [symmetric])
      qed
    qed
  qed
qed

lemma poll_read_weight: "0 < room \<Longrightarrow> turn_weight sh script (Inl (split_http_poll_read room sh script))"
proof (induction room sh script rule: split_http_poll_read.induct)
  case (1 room sh script)
  note t = sh_turn_weight [OF "1.prems", of sh script]
  show ?case
  proof (cases "sh_turn room sh script")
    case (Inl out)
    then show ?thesis using t by (simp add: split_http_poll_read.simps [of room])
  next
    case (Inr out)
    then obtain sh1 script1 where o: "sh_turn room sh script = Inr (sh1, script1)" by (cases out) auto
    have "turn_weight sh1 script1 (Inl (split_http_poll_read room sh1 script1))" using "1.IH" [OF o refl "1.prems"] .
    moreover have "sh_weight sh1 script1 < sh_weight sh script" using t o by (simp add: turn_weight_def)
    ultimately show ?thesis
      by (auto simp: split_http_poll_read.simps [of room sh] o turn_weight_def split: prod.splits poll.splits)
  qed
qed

lemma poll_read_shrinks:
  "(Pending, sh1, script1) = split_http_poll_read 32 sh script \<Longrightarrow> script = [] \<or> sh_weight sh1 script1 < sh_weight sh script"
  "(Ready (Inr b), sh1, script1) = split_http_poll_read 32 sh script \<Longrightarrow> b = [] \<or> sh_weight sh1 script1 < sh_weight sh script"
  using poll_read_weight [of 32 sh script] by (auto simp: turn_weight_def dest!: sym [of "(_, _)"])

function read_to_end :: "split_http_stream \<Rightarrow> bytes poll list \<Rightarrow> (io_kind + bytes) option" where
  "read_to_end sh script = (case split_http_poll_read 32 sh script of
      (Pending, sh1, script1) \<Rightarrow> if script = [] then None else read_to_end sh1 script1
    | (Ready (Inl e), _, _) \<Rightarrow> Some (Inl e)
    | (Ready (Inr b), sh1, script1) \<Rightarrow>
        if b = [] then Some (Inr [])
        else (case read_to_end sh1 script1 of Some (Inr rest) \<Rightarrow> Some (Inr (b @ rest)) | other \<Rightarrow> other))"
  by pat_completeness auto

termination
  by (relation "measure (\<lambda>(sh, script). sh_weight sh script)") (auto dest: poll_read_shrinks)

declare read_to_end.simps [simp del]

text \<open>
  The body of a request whose stream holds \<open>bs\<close> until the peer closes it. A \<^verbatim>\<open>Vec\<close> of more than \<^verbatim>\<open>isize::MAX\<close> bytes panics; \<open>fits\<close>
  is whether the allocator has room for a smaller one, without which the process aborts.
\<close>

definition read_request_body :: "(nat \<Rightarrow> bool) \<Rightarrow> rstr \<Rightarrow> bytes \<Rightarrow> bytes result" where
  "read_request_body fits request bs =
     (let headers = parse_http_headers request in
      if (case headers (ascii ''transfer-encoding'') of Some v \<Rightarrow> eq_ignore_ascii_case v (ascii ''chunked'') | None \<Rightarrow> False)
      then case read_to_end split_http_stream_new [Ready (Inr bs), Ready (Inr [])] of
          Some (Inr body) \<Rightarrow> Inr body
        | Some (Inl e) \<Rightarrow> Inl (Err (Io e))
        | None \<Rightarrow> Inl Panic
      else case headers (ascii ''content-length'') of
          None \<Rightarrow> Inr []
        | Some clen \<Rightarrow>
            (case parse_u64 clen of
               None \<Rightarrow> Inl (Err (Protocol ''SplitHTTP invalid Content-Length''))
             | Some n \<Rightarrow>
                 if n \<ge> 2 ^ 63 \<or> \<not> fits n then Inl Panic
                 else if length bs < n then Inl (Err (Io UnexpectedEof)) else Inr (take n bs)))"

section \<open>Sessions and requests\<close>

text \<open>A session is its queue and whether the reader's end of the wake-up channel is still there to be taken.\<close>

type_synonym packet_up_sessions = "rstr \<rightharpoonup> queue_state \<times> bool"

definition upsert_packet_up_session :: "rstr \<Rightarrow> packet_up_sessions \<Rightarrow> packet_up_sessions" where
  "upsert_packet_up_session session_id ss = (case ss session_id of None \<Rightarrow> ss(session_id \<mapsto> (upload_queue_new 64, True)) | Some _ \<Rightarrow> ss)"

definition remove_packet_up_session :: "rstr \<Rightarrow> packet_up_sessions \<Rightarrow> packet_up_sessions" where
  "remove_packet_up_session session_id ss = ss(session_id := None)"

definition session_push :: "rstr \<Rightarrow> upload_packet \<Rightarrow> packet_up_sessions \<Rightarrow> io_kind option \<times> packet_up_sessions" where
  "session_push session_id p ss = (case ss session_id of
      None \<Rightarrow> (None, ss)
    | Some (q, free) \<Rightarrow> (case upload_push p q of (e, q1) \<Rightarrow> (e, ss(session_id \<mapsto> (q1, free)))))"

definition take_reader :: "rstr \<Rightarrow> packet_up_sessions \<Rightarrow> packet_up_sessions result" where
  "take_reader session_id ss = (case ss session_id of
      Some (q, True) \<Rightarrow> Inr (ss(session_id \<mapsto> (q, False)))
    | _ \<Rightarrow> Inl Panic)"

datatype split_http_mode = StreamOne | PacketUp | OtherMode

definition normalize_splithttp_mode :: "rstr \<Rightarrow> split_http_mode" where
  "normalize_splithttp_mode mode =
     (let m = to_ascii_lowercase (trim mode) in
      if m = [] \<or> m = ascii ''stream-one'' then StreamOne else if m = ascii ''packet-up'' then PacketUp else OtherMode)"

datatype accept_result = Chunked_tunnel | Queue_tunnel rstr | UploadOnly | Preflight | H2PacketUpManaged | H2_tunnel

abbreviation (input) "is_method m name \<equiv> eq_ignore_ascii_case m (ascii name)"

fun http_head :: "string list \<Rightarrow> bytes" where
  "http_head [] = crlf"
| "http_head (l # ls) = ascii l @ crlf @ http_head ls"

definition packet_up_accept ::
    "(nat \<Rightarrow> bool) \<Rightarrow> rstr option \<Rightarrow> rstr \<Rightarrow> rstr \<Rightarrow> bytes \<Rightarrow> packet_up_sessions \<Rightarrow> (accept_result \<times> bytes) result \<times> packet_up_sessions" where
  "packet_up_accept fits expected_path meth request bs ss =
     (let base = (case expected_path of Some p \<Rightarrow> p | None \<Rightarrow> [slash]);
          path_and_query = (case str_lines [] request of
              [] \<Rightarrow> [slash]
            | l # _ \<Rightarrow> (case split_whitespace_from [] l of _ # p # _ \<Rightarrow> p | _ \<Rightarrow> [slash]))
      in if \<not> prefix (trim_end_slashes (normalized_path_prefix base)) path_and_query
         then (Inl (Err (Protocol ''SplitHTTP path mismatch'')), ss)
         else case extract_session_seq path_and_query base of (session, seq) \<Rightarrow>
           if is_method meth ''OPTIONS''
           then (Inr (Preflight, http_head [''HTTP/1.1 200 OK'', ''Connection: keep-alive'', ''Access-Control-Allow-Origin: *'', ''Content-Length: 0'']), ss)
           else if is_method meth ''POST''
           then if session = [] then (Inl (Err (Protocol ''packet-up POST requires session id in path'')), ss)
             else case parse_u64 seq of
                 None \<Rightarrow> (Inl (Err (Protocol ''packet-up invalid seq'')), ss)
               | Some seq_num \<Rightarrow>
                   (case read_request_body fits request bs of
                      Inl e \<Rightarrow> (Inl e, ss)
                    | Inr body \<Rightarrow>
                        (case session_push session (of_nat seq_num, body) (upsert_packet_up_session session ss) of
                           (Some _, ss1) \<Rightarrow> (Inl (Err (Protocol ''packet-up push'')), ss1)
                         | (None, ss1) \<Rightarrow>
                             (Inr (UploadOnly, http_head [''HTTP/1.1 200 OK'', ''Connection: keep-alive'', ''Cache-Control: no-store'', ''Content-Length: 0'']), ss1)))
           else if is_method meth ''GET''
           then if session = [] then (Inl (Err (Protocol ''packet-up GET requires session id in path'')), ss)
             else let ss1 = upsert_packet_up_session session ss in
               (case take_reader session ss1 of
                  Inl e \<Rightarrow> (Inl e, ss1)
                | Inr ss2 \<Rightarrow>
                    (Inr (Queue_tunnel session, http_head [''HTTP/1.1 200 OK'', ''Connection: keep-alive'', ''Cache-Control: no-store'',
                       ''X-Accel-Buffering: no'', ''Content-Type: text/event-stream'', ''Transfer-Encoding: chunked'']), ss2))
           else (Inl (Err (Protocol ''SplitHTTP packet-up: unsupported method'')), ss))"

text \<open>The whole handshake. \<open>h2\<close> is what the HTTP/2 branch makes of the connection.\<close>

definition splithttp_accept ::
    "(nat \<Rightarrow> bool) \<Rightarrow> (split_http_mode \<Rightarrow> bytes \<Rightarrow> accept_result result) \<Rightarrow> rstr option \<Rightarrow> rstr option \<Rightarrow> split_http_mode \<Rightarrow> bytes \<Rightarrow> packet_up_sessions
      \<Rightarrow> (accept_result \<times> bytes) result \<times> packet_up_sessions" where
  "splithttp_accept fits h2 expected_path expected_method mode input ss =
     (if length input < 3 then (Inl (Err (Io UnexpectedEof)), ss)
      else if take 3 input = ascii ''PRI'' then (bindE (h2 mode input) (\<lambda>r. Inr (r, [])), ss)
      else case read_headers_from [] input of
        Inl e \<Rightarrow> (Inl e, ss)
      | Inr (request, bs) \<Rightarrow>
          (case str_lines [] request of
             [] \<Rightarrow> (Inl (Err (Protocol ''SplitHTTP missing request line'')), ss)
           | first # _ \<Rightarrow>
               let parts = split_whitespace_from [] first;
                   meth = (case parts of m # _ \<Rightarrow> m | _ \<Rightarrow> []);
                   path = (case parts of _ # p # _ \<Rightarrow> p | _ \<Rightarrow> []);
                   got = takeWhile (\<lambda>b. b \<noteq> question) path
               in if is_method meth ''OPTIONS''
                  then (Inr (Preflight, http_head [''HTTP/1.1 200 OK'', ''Connection: keep-alive'', ''Content-Length: 0'']), ss)
                  else if mode = PacketUp then packet_up_accept fits expected_path meth request bs ss
                  else if (case expected_path of Some p \<Rightarrow> got \<noteq> p \<and> got \<noteq> ascii ''*'' | None \<Rightarrow> False)
                  then (Inl (Err (Protocol ''SplitHTTP path mismatch'')), ss)
                  else if \<not> (case expected_method of
                      Some m \<Rightarrow> eq_ignore_ascii_case meth m
                    | None \<Rightarrow> is_method meth ''POST'' \<or> is_method meth ''GET'' \<or> is_method meth ''PUT'')
                  then (Inl (Err (Protocol ''SplitHTTP stream-one method not allowed'')), ss)
                  else (Inr (Chunked_tunnel, http_head [''HTTP/1.1 200 OK'', ''Connection: keep-alive'', ''X-Accel-Buffering: no'', ''Cache-Control: no-store'',
                     ''Content-Type: text/event-stream'', ''Transfer-Encoding: chunked'']), ss)))"

text \<open>
  One request of an HTTP/2 connection in \<^verbatim>\<open>packet-up\<close> mode: the status of the answer, and the session of the tunnel it opens. The
  body is \<open>None\<close> if receiving it fails; \<open>downloads\<close> are the sessions this connection has already opened.
\<close>

record h2_request =
  hq_method :: rstr
  hq_path :: rstr
  hq_body :: "bytes option"

definition h2_packet_up_request ::
    "rstr option \<Rightarrow> h2_request \<Rightarrow> rstr list \<Rightarrow> packet_up_sessions \<Rightarrow> (nat \<times> rstr option) result \<times> rstr list \<times> packet_up_sessions" where
  "h2_packet_up_request expected_path rq downloads ss =
     (let base = (case expected_path of Some p \<Rightarrow> p | None \<Rightarrow> [slash]) in
      if \<not> prefix (trim_end_slashes (normalized_path_prefix base)) (hq_path rq) then (Inr (404, None), downloads, ss)
      else case extract_session_seq (hq_path rq) base of (session, seq) \<Rightarrow>
        if is_method (hq_method rq) ''OPTIONS'' then (Inr (200, None), downloads, ss)
        else if is_method (hq_method rq) ''POST''
        then if session = [] then (Inr (400, None), downloads, ss)
          else case parse_u64 seq of
              None \<Rightarrow> (Inr (400, None), downloads, ss)
            | Some seq_num \<Rightarrow>
                let ss1 = upsert_packet_up_session session ss in
                (case hq_body rq of
                   None \<Rightarrow> (Inr (502, None), downloads, ss1)
                 | Some body \<Rightarrow>
                     (case session_push session (of_nat seq_num, body) ss1 of
                        (Some _, ss2) \<Rightarrow> (Inr (503, None), downloads, ss2)
                      | (None, ss2) \<Rightarrow> (Inr (200, None), downloads, ss2)))
        else if is_method (hq_method rq) ''GET''
        then if session = [] then (Inr (400, None), downloads, ss)
          else if session \<in> set downloads then (Inr (409, None), downloads, ss)
          else let ss1 = upsert_packet_up_session session ss in
            (case take_reader session ss1 of
               Inl e \<Rightarrow> (Inl e, session # downloads, ss1)
             | Inr ss2 \<Rightarrow> (Inr (200, Some session), session # downloads, ss2))
        else (Inr (405, None), downloads, ss))"

section \<open>Properties\<close>

text \<open>The end of the input ends the body, so reading a body always returns.\<close>

definition finishing :: "bytes poll list \<Rightarrow> bool" where
  "finishing script \<longleftrightarrow> Pending \<notin> set script \<and> Ready (Inr []) \<in> set script"

lemma sh_turn_finishing:
  assumes "finishing script"
  shows "case sh_turn room sh script of
      Inr (sh1, script1) \<Rightarrow> finishing script1
    | Inl (res, sh1, script1) \<Rightarrow> res \<noteq> Pending \<and> (\<forall>b. res = Ready (Inr b) \<and> b \<noteq> [] \<longrightarrow> finishing script1)"
proof -
  have i: "case sh_inner sh1 script of
      Inr (sh1, script1) \<Rightarrow> finishing script1
    | Inl (res, sh1, script1) \<Rightarrow> res \<noteq> Pending \<and> (\<forall>b. res = Ready (Inr b) \<and> b \<noteq> [] \<longrightarrow> finishing script1)" for sh1
    using assms by (auto simp: finishing_def sh_inner_def split: list.split poll.split sum.split)
  show ?thesis using assms i by (auto simp: sh_turn_def Let_def split: option.split)
qed

lemma poll_read_finishing:
  "finishing script \<Longrightarrow> split_http_poll_read room sh script = (res, sh1, script1) \<Longrightarrow>
     res \<noteq> Pending \<and> (\<forall>b. res = Ready (Inr b) \<and> b \<noteq> [] \<longrightarrow> finishing script1)"
proof (induction room sh script rule: split_http_poll_read.induct)
  case (1 room sh script)
  note t = sh_turn_finishing [OF "1.prems"(1), of room sh]
  show ?case
  proof (cases "sh_turn room sh script")
    case (Inl out)
    then show ?thesis using t "1.prems"(2) by (simp add: split_http_poll_read.simps [of room])
  next
    case (Inr out)
    then obtain sh2 script2 where o: "sh_turn room sh script = Inr (sh2, script2)" by (cases out) auto
    then show ?thesis using "1.IH" [OF o refl] t "1.prems"(2) by (simp add: split_http_poll_read.simps [of room sh])
  qed
qed

lemma read_to_end_returns: "finishing script \<Longrightarrow> read_to_end sh script \<noteq> None"
proof (induction sh script rule: read_to_end.induct)
  case (1 sh script)
  obtain res sh1 script1 where p: "split_http_poll_read 32 sh script = (res, sh1, script1)" by (metis prod_cases3)
  have f: "res \<noteq> Pending" "\<And>b. res = Ready (Inr b) \<and> b \<noteq> [] \<Longrightarrow> finishing script1" using poll_read_finishing [OF "1.prems" p] by blast+
  show ?case
  proof (cases "\<exists>b. res = Ready (Inr b) \<and> b \<noteq> []")
    case True
    then obtain b where b: "res = Ready (Inr b)" "b \<noteq> []" by blast
    then have "read_to_end sh1 script1 \<noteq> None" using "1.IH"(2) [OF p [symmetric] b(1) refl refl b(2)] f(2) by blast
    then show ?thesis using b by (auto simp: read_to_end.simps [of sh] p split: sum.split)
  next
    case False
    then show ?thesis using f(1) by (cases res) (auto simp: read_to_end.simps [of sh] p split: sum.split)
  qed
qed

text \<open>A request touches at most the session it names, and a reader once taken is not given back.\<close>

lemma packet_up_accept_sessions:
  assumes "packet_up_accept fits path meth request bs ss = (res, ss1)"
  shows "ss sid = Some (q, False) \<Longrightarrow> \<exists>q1. ss1 sid = Some (q1, False)"
    "res = Inr (Queue_tunnel sid, out) \<Longrightarrow> \<exists>q1. ss1 sid = Some (q1, False)"
  using assms
  by (auto simp: packet_up_accept_def Let_def session_push_def upsert_packet_up_session_def take_reader_def
      split: if_splits option.splits sum.splits prod.splits bool.splits)

lemma packet_up_get_again:
  assumes "packet_up_accept fits path meth request bs ss = (Inr (Queue_tunnel sid, out), ss1)" and "ss2 sid = Some (q, False)"
  shows "packet_up_accept fits path meth request bs2 ss2 = (Inl Panic, ss2)"
  using assms
  by (auto simp: packet_up_accept_def Let_def session_push_def upsert_packet_up_session_def take_reader_def
      split: if_splits option.splits sum.splits prod.splits bool.splits)

fun packet_up_serve :: "(nat \<Rightarrow> bool) \<Rightarrow> rstr option \<Rightarrow> (rstr \<times> rstr \<times> bytes) list \<Rightarrow> packet_up_sessions \<Rightarrow> packet_up_sessions" where
  "packet_up_serve fits path [] ss = ss"
| "packet_up_serve fits path ((meth, request, bs) # rqs) ss = packet_up_serve fits path rqs (snd (packet_up_accept fits path meth request bs ss))"

lemma packet_up_serve_taken: "ss sid = Some (q, False) \<Longrightarrow> \<exists>q1. packet_up_serve fits path rqs ss sid = Some (q1, False)"
proof (induction fits path rqs ss arbitrary: q rule: packet_up_serve.induct)
  case (2 fits path meth request bs rqs ss)
  obtain res ss1 where a: "packet_up_accept fits path meth request bs ss = (res, ss1)" by (cases "packet_up_accept fits path meth request bs ss")
  then show ?case using "2.IH" packet_up_accept_sessions(1) [OF a "2.prems"] by auto
qed simp


definition demo_get :: rstr where
  "demo_get = ascii ''GET /s/a HTTP/1.1'' @ crlf @ crlf"

lemma demo_get_opens:
  obtains out ss1 where "packet_up_accept (\<lambda>_. True) (Some (ascii ''/s'')) (ascii ''GET'') demo_get [] Map.empty = (Inr (Queue_tunnel (ascii ''a''), out), ss1)"
proof -
  have "map_sum id fst (fst (packet_up_accept (\<lambda>_. True) (Some (ascii ''/s'')) (ascii ''GET'') demo_get [] Map.empty)) = Inr (Queue_tunnel (ascii ''a''))"
    by code_simp
  then show thesis using that
    by (cases "packet_up_accept (\<lambda>_. True) (Some (ascii ''/s'')) (ascii ''GET'') demo_get [] Map.empty";
        cases "fst (packet_up_accept (\<lambda>_. True) (Some (ascii ''/s'')) (ascii ''GET'') demo_get [] Map.empty)") auto
qed


text \<open>A POST reaches the queue of its own session under its own number, and no other session.\<close>

lemma packet_up_post:
  assumes "packet_up_accept fits path meth request bs ss = (Inr (UploadOnly, out), ss1)"
  shows "\<exists>sid n body q. read_request_body fits request bs = Inr body \<and> upsert_packet_up_session sid ss sid = Some q \<and> \<not> qs_closed (fst q)
    \<and> ss1 sid = Some ((fst q)\<lparr>qs_heap := insort (n, body) (qs_heap (fst q))\<rparr>, snd q) \<and> (\<forall>other. other \<noteq> sid \<longrightarrow> ss1 other = ss other)"
proof -
  obtain sid n body where p: "read_request_body fits request bs = Inr body"
      "session_push sid (n, body) (upsert_packet_up_session sid ss) = (None, ss1)"
    using assms by (auto simp: packet_up_accept_def Let_def split: if_splits option.splits sum.splits prod.splits)
  obtain q free where q: "upsert_packet_up_session sid ss sid = Some (q, free)" "\<forall>other. other \<noteq> sid \<longrightarrow> upsert_packet_up_session sid ss other = ss other"
    by (cases "ss sid") (auto simp: upsert_packet_up_session_def)
  then show ?thesis using p by (intro exI [of _ sid] exI [of _ n] exI [of _ body] exI [of _ "(q, free)"])
    (auto simp: session_push_def upload_push_def split: if_splits)
qed

text \<open>A length of \<^verbatim>\<open>isize::MAX\<close> or more panics before a byte of the body is read.\<close>

lemma huge_content_length_panics:
  assumes "parse_http_headers request (ascii ''transfer-encoding'') = None" and "parse_http_headers request (ascii ''content-length'') = Some clen"
    and "parse_u64 clen = Some n" and "2 ^ 63 \<le> n"
  shows "read_request_body fits request bs = Inl Panic"
  using assms by (simp add: read_request_body_def)

end
