(* ===== verification/Spec2Isabelle.thy ===== *)
theory Spec2Isabelle
  imports Vless MuxRelay Trojan Datagrams MkcpTimers TunLoop Sniff SsUdp VmessHandshake SplitHttpServer
begin

text \<open>
  \<^bold>\<open>Verification of the Blackwire proxy\<close>

  Blackwire is a proxy in Rust. An inbound handler accepts a connection, decodes the request of its protocol and hands
  destination and stream to the dispatcher, which sniffs the traffic, picks an outbound by the routing rules and relays
  the bytes. Under the protocols lie transports: raw sockets, mKCP over UDP, and a TUN device from which whole IP packets
  are bridged into the proxy. The sources are the crates under \<^verbatim>\<open>crates/\<close>; paths below leave out
  \<^verbatim>\<open>crates/blackwire-\<close> and \<^verbatim>\<open>src/\<close>.

  \<^bold>\<open>Conventions.\<close> Bytes and machine integers are words of their width; \<^verbatim>\<open>usize\<close> is a natural number, except
  where a sum of attacker-chosen lengths can wrap, where the wrap modulo \<open>2 ^ 64\<close> is written out. A Rust string is the
  list of its bytes. A fallible function returns \<open>failure + 'a\<close>, with a \<open>ProxyError\<close> or a panic on the left; indexing
  and slicing out of range are panics. A parser over a stream is a \<open>reader\<close>: it returns the value and the rest. Hash maps
  are association lists or maps. Sockets, clocks, resolvers and third-party crates are arguments, with what the code relies
  on as hypotheses.

  \<^bold>\<open>Theories.\<close>
  \<^item> \<open>Prelude\<close>: words and byte order, UTF-8, errors (\<^verbatim>\<open>common/error.rs\<close>), results, readers. \<open>Framing\<close>: the interface of
    self-delimiting messages and the generic reassembly lemmas.
  \<^item> \<open>Address\<close>: \<^verbatim>\<open>common/address.rs\<close>, \<^verbatim>\<open>common/socks5_address.rs\<close>. The locale \<open>address_codec\<close> extends \<open>framing\<close>; it is
    interpreted for the SOCKS5 form here and for the port-first form in \<open>Vless\<close>.
  \<^item> \<open>Vless\<close>: \<^verbatim>\<open>vless/codec.rs\<close>, \<^verbatim>\<open>vless/udp.rs\<close>. Encoded requests decode to themselves; every request is decoded in finitely
    many steps unless its addons make the cursor wrap, and then the decoder may loop or panic.
  \<^item> \<open>MuxFrame\<close>, \<open>MuxRelay\<close>: \<^verbatim>\<open>vless/mux.rs\<close>. Frame codec and streaming reader agree. The demultiplexer is state passing
    over session tables with an effect trace; tables and tasks stay consistent, frames of one session leave the others
    alone, tasks are released at the end except in the cases shown, and the bounded response queue can deadlock.
  \<^item> \<open>Trojan\<close>, \<open>Datagrams\<close>: \<^verbatim>\<open>trojan/codec.rs\<close>, the reassembly of \<^verbatim>\<open>trojan/udp.rs\<close>, \<^verbatim>\<open>socks5_udp.rs\<close>,
    \<^verbatim>\<open>ss2022/variable_header.rs\<close>. Round trips; datagrams survive any chunking of the stream.
  \<^item> \<open>Kcp\<close>, \<open>KcpProps\<close>, \<open>KcpReliable\<close>: \<^verbatim>\<open>transport/mkcp/kcp.rs\<close>, \<^verbatim>\<open>mkcp/segment.rs\<close>. Two engines over a network that
    loses, duplicates and reorders refine a FIFO queue of messages.
  \<^item> \<open>Mkcp\<close>, \<open>MkcpTimers\<close>: \<^verbatim>\<open>transport/mkcp.rs\<close>, \<^verbatim>\<open>mkcp/header.rs\<close>, \<^verbatim>\<open>mkcp/stream.rs\<close>. Drivers as functions of the event
    selected; stream order, absence of panics, bounded session table and timers, and the stalls the code has.
  \<^item> \<open>TunPacket\<close>, \<open>TunPacketProps\<close>, \<open>TunBuild\<close>: \<^verbatim>\<open>transport/tun/packet.rs\<close>. The parser is total; built packets parse back and
    their checksums verify.
  \<^item> \<open>TunTables\<close>, \<open>TunBridge\<close>, \<open>TunLoop\<close>: \<^verbatim>\<open>tun/session.rs\<close>, \<^verbatim>\<open>tun/nat.rs\<close>, \<^verbatim>\<open>tun/tcp.rs\<close>, \<^verbatim>\<open>tun/runtime.rs\<close>. The packet
    loop, the flow tasks and the socket readers interleave as an inductive step relation; invariants by rule induction.
  \<^item> \<open>Router\<close>, \<open>RouterProps\<close>, \<open>Sniff\<close>: \<^verbatim>\<open>app/router.rs\<close>, \<^verbatim>\<open>app/geo/\<close>, the routing half of \<^verbatim>\<open>app/dispatcher.rs\<close>, and
    \<^verbatim>\<open>app/sniff.rs\<close>. The network, automaton and regular-expression crates are the record \<open>libs\<close>.
  \<^item> \<open>AeadStream\<close>: the poll functions that \<^verbatim>\<open>ss2022/stream.rs\<close> and \<^verbatim>\<open>vmess/stream.rs\<close> repeat word for word, over the chunk
    format as parameter, and the locale \<open>chunk_codec\<close>: if a chunk decodes only when complete, and then to its text, the
    stream is transparent. \<open>SsStream\<close> and \<open>VmessStream\<close> model the two chunk formats and interpret the locale.
  \<^item> \<open>SsHandshake\<close>, \<open>SsUdp\<close>: \<^verbatim>\<open>ss2022.rs\<close>, \<^verbatim>\<open>ss2022/subkey.rs\<close>, \<^verbatim>\<open>replay.rs\<close>, \<^verbatim>\<open>inbound.rs\<close>, \<^verbatim>\<open>outbound.rs\<close>,
    \<^verbatim>\<open>udp.rs\<close>. Both ends agree on destination and keys; requests are replayed only within a second; UDP replies reach their
    client until the reply task of a session ends.

  \<^bold>\<open>Bounds and fuel.\<close> The addons walk of VLESS, which can loop, is a \<open>partial_function\<close> in the option monad; \<open>None\<close> is
  divergence. Every other loop is structural or has a termination proof, so that it returns is part of its definition.

  \<^bold>\<open>Not modelled.\<close> Ciphers and hashes, which are arguments with the laws the code relies on; the TLS handshakes of
  REALITY and ShadowTLS, which are third-party primitives around socket I/O; transports that wrap third-party protocol stacks (WebSocket, gRPC, HTTP, QUIC);
  operating-system devices and routes; deserialisation of the configuration; process assembly, metrics, the management
  interface and the panel.
\<close>

end
